(* ===== verification/Vllm_Prelude.thy ===== *)
theory Vllm_Prelude
  imports Main "HOL-Library.AList" "HOL-Library.Word"
begin

text \<open>
  Shared vocabulary of the development: the exceptions the modelled Python code raises, the
  result type of an operation that may raise, Python's sequence indexing and slicing, and
  dictionaries as association lists in insertion order. The lemma collections declared here
  (\<open>result_simps\<close>, \<open>py_simps\<close>, \<open>dict_simps\<close>) carry the component proofs.
\<close>

section \<open>Lemma collections\<close>

named_theorems result_simps \<open>unfolding a computation that may raise\<close>
named_theorems py_simps \<open>Python indexing and slicing\<close>
named_theorems dict_simps \<open>dictionaries as association lists\<close>

section \<open>Exceptions and results\<close>

datatype py_error =
    AssertionError
  | ValueError
  | RuntimeError
  | IndexError
  | KeyError
  | TypeError
  | OverflowError
  | StopIteration
  | NotImplementedError
  | ZeroDivisionError
  | StructError
  | NonTermination

text \<open>\<open>NonTermination\<close> is not an exception: it is the value of a loop that the code would never
  leave.\<close>

type_synonym 'a result = "py_error + 'a"

text \<open>Python \<open>bytes\<close>.\<close>

type_synonym bytes = "8 word list"

text \<open>The JSON-like Python values (no floats) that requests carry without the modelled code
  looking inside.\<close>

datatype py_value =
    PyNone
  | PyBool bool
  | PyInt int
  | PyStr string
  | PyList "py_value list"
  | PyDict "(string \<times> py_value) list"

definition rbind :: "'a result \<Rightarrow> ('a \<Rightarrow> 'b result) \<Rightarrow> 'b result" where
  "rbind m f = (case m of Inl e \<Rightarrow> Inl e | Inr x \<Rightarrow> f x)"

definition py_assert :: "bool \<Rightarrow> unit result" where
  "py_assert b = (if b then Inr () else Inl AssertionError)"

definition of_option :: "py_error \<Rightarrow> 'a option \<Rightarrow> 'a result" where
  "of_option e x = (case x of None \<Rightarrow> Inl e | Some y \<Rightarrow> Inr y)"

text \<open>A \<open>for\<close> loop whose body may raise, over a state.\<close>

fun rfold :: "('a \<Rightarrow> 's \<Rightarrow> 's result) \<Rightarrow> 'a list \<Rightarrow> 's \<Rightarrow> 's result" where
  "rfold f [] s = Inr s"
| "rfold f (x # xs) s = rbind (f x s) (rfold f xs)"

section \<open>Python sequences\<close>

definition py_index :: "'a list \<Rightarrow> int \<Rightarrow> 'a result" where
  "py_index xs i =
     (let n = int (length xs); j = (if i < 0 then i + n else i)
      in if 0 \<le> j \<and> j < n then Inr (xs ! nat j) else Inl IndexError)"

definition py_bound :: "nat \<Rightarrow> int \<Rightarrow> nat" where
  "py_bound n i = (if i < 0 then nat (i + int n) else min (nat i) n)"

definition py_slice :: "'a list \<Rightarrow> int \<Rightarrow> int \<Rightarrow> 'a list" where
  "py_slice xs i j =
     (let s = py_bound (length xs) i; e = py_bound (length xs) j in take (e - s) (drop s xs))"

definition py_range :: "int \<Rightarrow> int \<Rightarrow> int list" where
  "py_range i j = map (\<lambda>k. i + int k) [0..<nat (j - i)]"

section \<open>Dictionaries\<close>

type_synonym ('k, 'v) dict = "('k \<times> 'v) list"

abbreviation dict_get :: "('k, 'v) dict \<Rightarrow> 'k \<Rightarrow> 'v option" where
  "dict_get d k \<equiv> map_of d k"

abbreviation dict_set :: "'k \<Rightarrow> 'v \<Rightarrow> ('k, 'v) dict \<Rightarrow> ('k, 'v) dict" where
  "dict_set \<equiv> AList.update"

abbreviation dict_del :: "'k \<Rightarrow> ('k, 'v) dict \<Rightarrow> ('k, 'v) dict" where
  "dict_del \<equiv> AList.delete"

definition dict_keys :: "('k, 'v) dict \<Rightarrow> 'k list" where
  "dict_keys d = map fst d"

section \<open>Results: laws\<close>

lemma rbind_simps [simp, result_simps]:
  "rbind (Inl e) f = Inl e"
  "rbind (Inr x) f = f x"
  by (simp_all add: rbind_def)

lemma rbind_Inr_iff: "rbind m f = Inr y \<longleftrightarrow> (\<exists>x. m = Inr x \<and> f x = Inr y)"
  by (cases m) simp_all

lemma rbindE:
  assumes "rbind m f = Inr y"
  obtains x where "m = Inr x" "f x = Inr y"
  using assms by (auto simp: rbind_Inr_iff)

lemma rbind_cong [fundef_cong]:
  "m = m' \<Longrightarrow> (\<And>x. m' = Inr x \<Longrightarrow> f x = f' x) \<Longrightarrow> rbind m f = rbind m' f'"
  by (cases m') (simp_all add: rbind_def)

lemma rbind_assoc: "rbind (rbind m f) g = rbind m (\<lambda>x. rbind (f x) g)"
  by (cases m) simp_all

lemma py_assert_simps [simp, result_simps]:
  "py_assert True = Inr ()"
  "py_assert False = Inl AssertionError"
  by (simp_all add: py_assert_def)

lemma py_assert_Inr [simp]: "py_assert b = Inr u \<longleftrightarrow> b"
  by (simp add: py_assert_def)

lemma of_option_simps [simp, result_simps]:
  "of_option e None = Inl e"
  "of_option e (Some y) = Inr y"
  by (simp_all add: of_option_def)

lemma of_option_Inr [simp]: "of_option e x = Inr y \<longleftrightarrow> x = Some y"
  by (cases x) simp_all

lemma rfold_append: "rfold f (xs @ ys) s = rbind (rfold f xs s) (rfold f ys)"
proof (induction xs arbitrary: s)
  case (Cons x xs)
  then have "rfold f (xs @ ys) = (\<lambda>s. rbind (rfold f xs s) (rfold f ys))" by (simp add: fun_eq_iff)
  then show ?case by (simp add: rbind_assoc)
qed simp

lemma rfold_invariant:
  assumes "rfold f xs s = Inr t" and "P s"
    and "\<And>x s t. x \<in> set xs \<Longrightarrow> P s \<Longrightarrow> f x s = Inr t \<Longrightarrow> P t"
  shows "P t"
  using assms
proof (induction xs arbitrary: s)
  case Nil
  then show ?case by simp
next
  case (Cons x xs)
  from Cons.prems(1) obtain u where u: "f x s = Inr u" "rfold f xs u = Inr t"
    by (auto elim: rbindE)
  have "P u" using Cons.prems(2,3) u(1) by auto
  then show ?case using Cons.IH u(2) Cons.prems(3) by auto
qed

section \<open>Sequences: laws\<close>

lemma py_index_nat [py_simps]:
  "i < length xs \<Longrightarrow> py_index xs (int i) = Inr (xs ! i)"
  by (simp add: py_index_def)

lemma py_index_out [py_simps]:
  "length xs \<le> i \<Longrightarrow> py_index xs (int i) = Inl IndexError"
  by (simp add: py_index_def)

lemma py_index_neg [py_simps]:
  assumes "0 < k" "k \<le> length xs"
  shows "py_index xs (- int k) = Inr (xs ! (length xs - k))"
proof -
  have "nat (- int k + int (length xs)) = length xs - k" using assms by linarith
  with assms show ?thesis by (simp add: py_index_def)
qed

lemma py_bound_nat [simp]: "py_bound n (int i) = min i n"
  by (simp add: py_bound_def)

lemma py_slice_nat [py_simps]: "py_slice xs (int i) (int j) = take (j - i) (drop i xs)"
proof (cases "i \<le> length xs")
  case True
  then show ?thesis by (cases "j \<le> length xs") (simp_all add: py_slice_def)
qed (simp add: py_slice_def)

lemma py_slice_0 [py_simps]: "py_slice xs 0 (int j) = take j xs"
  using py_slice_nat [of xs 0 j] by simp

lemma length_py_range [simp]: "length (py_range i j) = nat (j - i)"
  by (simp add: py_range_def)

lemma set_py_range [simp]: "set (py_range i j) = {i..<j}"
proof
  show "set (py_range i j) \<subseteq> {i..<j}" by (auto simp: py_range_def)
  show "{i..<j} \<subseteq> set (py_range i j)"
  proof
    fix x assume x: "x \<in> {i..<j}"
    then have "x = i + int (nat (x - i))" "nat (x - i) \<in> {0..<nat (j - i)}" by auto
    then have "x \<in> (\<lambda>k. i + int k) ` {0..<nat (j - i)}" by (rule image_eqI)
    then show "x \<in> set (py_range i j)" by (simp add: py_range_def)
  qed
qed

section \<open>Dictionaries: laws\<close>

lemma dict_get_set [dict_simps]:
  "dict_get (dict_set k v d) k' = (if k' = k then Some v else dict_get d k')"
  by (simp add: update_conv')

lemma dict_get_del [dict_simps]:
  "dict_get (dict_del k d) k' = (if k' = k then None else dict_get d k')"
  by (simp add: delete_conv')

lemma dict_keys_set [dict_simps]:
  "set (dict_keys (dict_set k v d)) = insert k (set (dict_keys d))"
  by (auto simp: dict_keys_def update_keys)

lemma dict_keys_del [dict_simps]:
  "set (dict_keys (dict_del k d)) = set (dict_keys d) - {k}"
  by (simp add: dict_keys_def delete_keys)

lemma dict_get_None_iff [dict_simps]: "dict_get d k = None \<longleftrightarrow> k \<notin> set (dict_keys d)"
  by (simp add: dict_keys_def map_of_eq_None_iff)

section \<open>Lists\<close>

lemma remove1_middle: "x \<notin> set xs \<Longrightarrow> remove1 x (xs @ x # ys) = xs @ ys"
  by (simp add: remove1_append)

lemma split_distinct:
  assumes "distinct xs" "x \<in> set xs"
  obtains ys zs where "xs = ys @ x # zs" "x \<notin> set ys" "x \<notin> set zs"
  using assms by (metis distinct.simps(2) distinct_append split_list
      disjoint_insert(1) list.set(2))

end
