(* ===== verification/Free_Queue.thy ===== *)
theory Free_Queue
  imports Vllm_Prelude
begin

text \<open>
  The free list of the KV-cache block pool: \<open>FreeKVCacheBlockQueue\<close> of
  \<open>vllm/v1/core/kv_cache_utils.py\<close>. The Python class threads a doubly linked list through the
  \<open>prev_free_block\<close> and \<open>next_free_block\<close> attributes of the block objects, between two sentinel
  blocks. Here the two attributes are stores from block references to references, every
  assignment of the source is a store update, in the source's order, and the abstraction
  \<open>queue_rep\<close> relates a store to the list of blocks it threads. Each operation is shown to
  implement its list operation. The theory also holds \<open>null_head_len\<close> and \<open>trim_null_head\<close>.
\<close>

section \<open>Data\<close>

text \<open>
  \<open>Blk i\<close> is the block object with \<open>block_id = i\<close>; the two sentinels are the objects the
  constructor creates with \<open>block_id = -1\<close>.
\<close>

datatype block_ref = FakeHead | FakeTail | Blk nat

record free_queue =
  prev_free_block :: "block_ref \<Rightarrow> block_ref option"
  next_free_block :: "block_ref \<Rightarrow> block_ref option"
  num_free_blocks :: int

definition set_prev :: "block_ref \<Rightarrow> block_ref option \<Rightarrow> free_queue \<Rightarrow> free_queue" where
  "set_prev r v q = q\<lparr>prev_free_block := (prev_free_block q)(r := v)\<rparr>"

definition set_next :: "block_ref \<Rightarrow> block_ref option \<Rightarrow> free_queue \<Rightarrow> free_queue" where
  "set_next r v q = q\<lparr>next_free_block := (next_free_block q)(r := v)\<rparr>"

section \<open>Operations\<close>

definition link_neighbours :: "block_ref list \<Rightarrow> nat \<Rightarrow> free_queue \<Rightarrow> free_queue" where
  "link_neighbours bs i q =
     (let q1 = (if 0 < i then set_prev (bs ! i) (Some (bs ! (i - 1))) q else q)
      in if i + 1 < length bs then set_next (bs ! i) (Some (bs ! (i + 1))) q1 else q1)"

definition free_queue_init :: "block_ref list \<Rightarrow> free_queue" where
  "free_queue_init bs =
     (let q0 = \<lparr>prev_free_block = (\<lambda>_. None), next_free_block = (\<lambda>_. None),
                num_free_blocks = int (length bs)\<rparr>;
          q1 = fold (link_neighbours bs) [0..<length bs] q0
      in if 0 < length bs
         then set_next (last bs) (Some FakeTail)
                (set_prev FakeTail (Some (last bs))
                  (set_prev (hd bs) (Some FakeHead)
                    (set_next FakeHead (Some (hd bs)) q1)))
         else set_prev FakeTail (Some FakeHead) (set_next FakeHead (Some FakeTail) q1))"

definition popleft :: "free_queue \<Rightarrow> (block_ref \<times> free_queue) result" where
  "popleft q =
     (let no_block = (if num_free_blocks q = 0 then Inl ValueError else Inl AssertionError)
      in case next_free_block q FakeHead of
           None \<Rightarrow> no_block
         | Some first_block \<Rightarrow>
             if first_block = FakeTail then no_block
             else (case next_free_block q first_block of
                     None \<Rightarrow> Inl RuntimeError
                   | Some next_block \<Rightarrow>
                       (let q1 = set_next FakeHead (Some next_block) q;
                            q2 = set_prev next_block (Some FakeHead) q1;
                            q3 = set_next first_block None (set_prev first_block None q2)
                        in Inr (first_block,
                                q3\<lparr>num_free_blocks := num_free_blocks q3 - 1\<rparr>))))"

fun popleft_n_loop ::
  "nat \<Rightarrow> block_ref option \<Rightarrow> block_ref list \<Rightarrow> free_queue
    \<Rightarrow> (block_ref list \<times> block_ref option \<times> free_queue) result" where
  "popleft_n_loop 0 cur ret q = Inr (ret, cur, q)"
| "popleft_n_loop (Suc k) cur ret q =
     (case cur of
        None \<Rightarrow> Inl AssertionError
      | Some last_block \<Rightarrow>
          popleft_n_loop k (next_free_block q last_block) (ret @ [last_block])
            (set_next last_block None (set_prev last_block None q)))"

definition popleft_n :: "int \<Rightarrow> free_queue \<Rightarrow> (block_ref list \<times> free_queue) result" where
  "popleft_n n q =
     (if n = 0 then Inr ([], q)
      else if \<not> num_free_blocks q \<ge> n then Inl AssertionError
      else
        (let q0 = q\<lparr>num_free_blocks := num_free_blocks q - n\<rparr>;
             cur = next_free_block q0 FakeHead
         in if n = 1
            then (case cur of
                    None \<Rightarrow> Inl AssertionError
                  | Some curr_block \<Rightarrow>
                      (let next_block = next_free_block q0 curr_block;
                           q1 = set_next curr_block None (set_prev curr_block None q0)
                       in case next_block of
                            None \<Rightarrow> Inr ([curr_block], q1)
                          | Some nb \<Rightarrow>
                              Inr ([curr_block],
                                   set_prev nb (Some FakeHead) (set_next FakeHead (Some nb) q1))))
            else rbind (popleft_n_loop (nat n) cur [] q0)
                   (\<lambda>(ret, cur', q1).
                      (case cur' of
                         None \<Rightarrow> Inr (ret, q1)
                       | Some c \<Rightarrow>
                           Inr (ret,
                                set_prev c (Some FakeHead) (set_next FakeHead (Some c) q1))))))"

definition queue_remove :: "block_ref \<Rightarrow> free_queue \<Rightarrow> free_queue result" where
  "queue_remove b q =
     (case (prev_free_block q b, next_free_block q b) of
        (Some prev_block, Some next_block) \<Rightarrow>
          (let q1 = set_next prev_block (Some next_block) q;
               q2 = set_prev next_block (Some prev_block) q1;
               q3 = set_next b None (set_prev b None q2)
           in Inr (q3\<lparr>num_free_blocks := num_free_blocks q3 - 1\<rparr>))
      | _ \<Rightarrow> Inl RuntimeError)"

definition queue_append :: "block_ref \<Rightarrow> free_queue \<Rightarrow> free_queue result" where
  "queue_append b q =
     (case prev_free_block q FakeTail of
        None \<Rightarrow> Inl RuntimeError
      | Some last_block \<Rightarrow>
          (let q1 = set_next last_block (Some b) q;
               q2 = set_prev b (Some last_block) q1;
               q3 = set_next b (Some FakeTail) q2;
               q4 = set_prev FakeTail (Some b) q3
           in Inr (q4\<lparr>num_free_blocks := num_free_blocks q4 + 1\<rparr>)))"

text \<open>The body shared by the loops of \<open>prepend_n\<close> and \<open>append_n\<close>.\<close>

fun link_run :: "block_ref \<Rightarrow> block_ref list \<Rightarrow> free_queue \<Rightarrow> block_ref \<times> free_queue" where
  "link_run prev_block [] q = (prev_block, q)"
| "link_run prev_block (b # bs) q =
     link_run b bs (set_next prev_block (Some b) (set_prev b (Some prev_block) q))"

definition prepend_n :: "block_ref list \<Rightarrow> free_queue \<Rightarrow> free_queue result" where
  "prepend_n bs q =
     (if length bs = 0 then Inr q
      else case next_free_block q FakeHead of
             None \<Rightarrow> Inl AssertionError
           | Some first_block \<Rightarrow>
               (let (prev_block, q1) = link_run FakeHead bs q;
                    q2 = set_next prev_block (Some first_block) q1;
                    q3 = set_prev first_block (Some prev_block) q2
                in Inr (q3\<lparr>num_free_blocks := num_free_blocks q3 + int (length bs)\<rparr>)))"

definition append_n :: "block_ref list \<Rightarrow> free_queue \<Rightarrow> free_queue result" where
  "append_n bs q =
     (if bs = [] then Inr q
      else case prev_free_block q FakeTail of
             None \<Rightarrow> Inl AssertionError
           | Some last_block \<Rightarrow>
               (let (last_block', q1) = link_run last_block bs q;
                    q2 = set_next last_block' (Some FakeTail) q1;
                    q3 = set_prev FakeTail (Some last_block') q2
                in Inr (q3\<lparr>num_free_blocks := num_free_blocks q3 + int (length bs)\<rparr>)))"

text \<open>The two walks follow \<open>next_free_block\<close> and end only if the links do: \<open>None\<close> is a walk that
  does not return.\<close>

partial_function (option) free_walk ::
  "free_queue \<Rightarrow> block_ref \<Rightarrow> block_ref list \<Rightarrow> block_ref list option" where
  "free_walk q cur ret =
     (case next_free_block q cur of
        None \<Rightarrow> Some ret
      | Some nb \<Rightarrow> free_walk q nb (ret @ [cur]))"

definition get_all_free_blocks :: "free_queue \<Rightarrow> block_ref list result option" where
  "get_all_free_blocks q =
     (case next_free_block q FakeHead of
        None \<Rightarrow> Some (Inl RuntimeError)
      | Some cur \<Rightarrow> map_option Inr (free_walk q cur []))"

partial_function (option) iter_walk ::
  "free_queue \<Rightarrow> block_ref option \<Rightarrow> block_ref list \<Rightarrow> block_ref list option" where
  "iter_walk q cur out =
     (case cur of
        None \<Rightarrow> Some out
      | Some b \<Rightarrow>
          (if b = FakeTail then Some out else iter_walk q (next_free_block q b) (out @ [b])))"

definition iter_blocks_after :: "block_ref option \<Rightarrow> free_queue \<Rightarrow> block_ref list option" where
  "iter_blocks_after cursor q =
     (case cursor of
        None \<Rightarrow> iter_walk q (next_free_block q FakeHead) []
      | Some c \<Rightarrow> iter_walk q (next_free_block q c) [])"

text \<open>Leading null blocks: a binary search whose answer is checked, with a scan as fallback.\<close>

function null_search :: "('b \<Rightarrow> bool) \<Rightarrow> 'b list \<Rightarrow> nat \<Rightarrow> nat \<Rightarrow> nat" where
  "null_search nul bs lo hi =
     (if lo < hi
      then (let mid = (lo + hi) div 2
            in if nul (bs ! mid) then null_search nul bs (mid + 1) hi
               else null_search nul bs lo mid)
      else lo)"
  by pat_completeness auto
termination
  by (relation "measure (\<lambda>(nul, bs, lo, hi). hi - lo)") auto

fun first_non_null :: "('b \<Rightarrow> bool) \<Rightarrow> nat \<Rightarrow> 'b list \<Rightarrow> nat result" where
  "first_non_null nul i [] = Inl StopIteration"
| "first_non_null nul i (b # bs) = (if \<not> nul b then Inr i else first_non_null nul (i + 1) bs)"

definition null_head_len :: "('b \<Rightarrow> bool) \<Rightarrow> 'b list \<Rightarrow> nat result" where
  "null_head_len nul bs =
     (if bs = [] \<or> \<not> nul (hd bs) then Inr 0
      else (let lo = null_search nul bs 1 (length bs)
            in if count_list (take lo bs) (hd bs) = lo then Inr lo
               else first_non_null nul 0 bs))"

definition trim_null_head :: "('b \<Rightarrow> bool) \<Rightarrow> 'b list \<Rightarrow> 'b list result" where
  "trim_null_head nul bs =
     rbind (null_head_len nul bs) (\<lambda>nhl. Inr (if nhl \<noteq> 0 then drop nhl bs else bs))"

section \<open>The abstraction: a store threads a list\<close>

fun linked :: "free_queue \<Rightarrow> block_ref \<Rightarrow> block_ref list \<Rightarrow> block_ref \<Rightarrow> bool" where
  "linked q a [] b \<longleftrightarrow> next_free_block q a = Some b \<and> prev_free_block q b = Some a"
| "linked q a (x # xs) b \<longleftrightarrow>
     next_free_block q a = Some x \<and> prev_free_block q x = Some a \<and> linked q x xs b"

definition queue_rep :: "free_queue \<Rightarrow> block_ref list \<Rightarrow> bool" where
  "queue_rep q xs \<longleftrightarrow>
     distinct xs \<and> FakeHead \<notin> set xs \<and> FakeTail \<notin> set xs \<and>
     linked q FakeHead xs FakeTail \<and>
     prev_free_block q FakeHead = None \<and> next_free_block q FakeTail = None \<and>
     (\<forall>r. r \<notin> set xs \<and> r \<noteq> FakeHead \<and> r \<noteq> FakeTail \<longrightarrow>
        prev_free_block q r = None \<and> next_free_block q r = None) \<and>
     num_free_blocks q = int (length xs)"

section \<open>Store updates and linked runs\<close>

named_theorems link_simps \<open>reading the link store after an update\<close>

lemma prev_set_prev [link_simps]:
  "prev_free_block (set_prev r v q) = (prev_free_block q)(r := v)"
  "next_free_block (set_prev r v q) = next_free_block q"
  "num_free_blocks (set_prev r v q) = num_free_blocks q"
  by (simp_all add: set_prev_def)

lemma next_set_next [link_simps]:
  "next_free_block (set_next r v q) = (next_free_block q)(r := v)"
  "prev_free_block (set_next r v q) = prev_free_block q"
  "num_free_blocks (set_next r v q) = num_free_blocks q"
  by (simp_all add: set_next_def)

lemma linked_frame:
  assumes "\<And>r. r \<in> set (a # xs) \<Longrightarrow> next_free_block q' r = next_free_block q r"
    and "\<And>r. r \<in> set (xs @ [b]) \<Longrightarrow> prev_free_block q' r = prev_free_block q r"
  shows "linked q' a xs b = linked q a xs b"
  using assms by (induction xs arbitrary: a) simp_all

lemma linked_append:
  "linked q a (xs @ y # ys) b \<longleftrightarrow> linked q a xs y \<and> linked q y ys b"
  by (induction xs arbitrary: a) auto

lemma linked_next_first: "linked q a xs b \<Longrightarrow> next_free_block q a = Some (hd (xs @ [b]))"
  by (cases xs) simp_all

lemma linked_prev_last: "linked q a xs b \<Longrightarrow> prev_free_block q b = Some (last (a # xs))"
  by (induction xs arbitrary: a) simp_all

lemma linked_next_nth:
  "linked q a xs b \<Longrightarrow> i < length xs \<Longrightarrow> next_free_block q (xs ! i) = Some ((xs @ [b]) ! Suc i)"
proof (induction xs arbitrary: a i)
  case (Cons x xs)
  then show ?case
    by (cases i) (auto simp: hd_conv_nth dest: linked_next_first)
qed simp

text \<open>Taking one node out of a run, and closing the gap, leaves the run without it.\<close>

lemma linked_bypass:
  assumes "linked q a ys m" "linked q m zs b" "distinct (a # ys @ m # zs @ [b])"
    and nxt: "\<And>r. r \<noteq> m \<Longrightarrow> next_free_block q' r =
           (if r = last (a # ys) then Some (hd (zs @ [b])) else next_free_block q r)"
    and prv: "\<And>r. r \<noteq> m \<Longrightarrow> prev_free_block q' r =
           (if r = hd (zs @ [b]) then Some (last (a # ys)) else prev_free_block q r)"
  shows "linked q' a (ys @ zs) b"
  using assms
proof (induction ys arbitrary: a)
  case Nil
  show ?case
  proof (cases zs)
    case Nil
    with Nil.prems show ?thesis by auto
  next
    case (Cons z zs')
    have "linked q z zs' b" using Nil.prems(2) Cons by simp
    moreover have "linked q' z zs' b = linked q z zs' b"
    proof (rule linked_frame)
      fix r assume "r \<in> set (z # zs')"
      then show "next_free_block q' r = next_free_block q r"
        using Nil.prems(3,4) Cons by (cases "r = m") auto
    next
      fix r assume "r \<in> set (zs' @ [b])"
      then show "prev_free_block q' r = prev_free_block q r"
        using Nil.prems(3,5) Cons by (cases "r = m") auto
    qed
    ultimately show ?thesis using Nil.prems Cons by auto
  qed
next
  case (Cons y ys)
  have "linked q' y (ys @ zs) b"
    using Cons.prems by (intro Cons.IH) auto
  moreover have "hd (zs @ [b]) \<noteq> y" using Cons.prems(3) by (cases zs) auto
  moreover have "last (y # ys) \<noteq> a"
    using Cons.prems(3) by (metis distinct.simps(2) last_in_set list.distinct(1) UnI1 append_Cons set_append)
  moreover have "a \<noteq> m" "y \<noteq> m" using Cons.prems(3) by auto
  ultimately show ?case using Cons.prems(1,4,5) by auto
qed

text \<open>Threading a run of fresh nodes.\<close>

lemma link_run_result: "fst (link_run p bs q) = last (p # bs)"
  by (induction bs arbitrary: p q) simp_all

lemma link_run_num: "num_free_blocks (snd (link_run p bs q)) = num_free_blocks q"
  by (induction bs arbitrary: p q) (simp_all add: link_simps)

lemma link_run_next_frame:
  "r \<notin> set (p # bs) \<Longrightarrow> next_free_block (snd (link_run p bs q)) r = next_free_block q r"
  by (induction bs arbitrary: p q) (auto simp: link_simps)

lemma link_run_prev_frame:
  "r \<notin> set bs \<Longrightarrow> prev_free_block (snd (link_run p bs q)) r = prev_free_block q r"
  by (induction bs arbitrary: p q) (auto simp: link_simps)

lemma link_run_linked:
  assumes "distinct (p # bs)" "b \<notin> set bs"
    and "\<And>r. next_free_block q' r = (if r = last (p # bs) then Some b
            else next_free_block (snd (link_run p bs q)) r)"
    and "\<And>r. prev_free_block q' r = (if r = b then Some (last (p # bs))
            else prev_free_block (snd (link_run p bs q)) r)"
  shows "linked q' p bs b"
  using assms
proof (induction bs arbitrary: p q)
  case Nil
  then show ?case by simp
next
  case (Cons c cs)
  let ?q1 = "set_next p (Some c) (set_prev c (Some p) q)"
  have run: "link_run p (c # cs) q = link_run c cs ?q1" by simp
  have "linked q' c cs b"
    by (rule Cons.IH [of c ?q1]) (use Cons.prems in \<open>auto split: if_splits\<close>)
  moreover have "last (c # cs) \<noteq> p"
    using Cons.prems(1) by (metis distinct.simps(2) last_in_set list.distinct(1))
  then have "next_free_block q' p = Some c"
    using Cons.prems link_run_next_frame [of p c cs ?q1] by (simp add: run link_simps)
  moreover have "prev_free_block q' c = Some p"
    using Cons.prems link_run_prev_frame [of c cs c ?q1] by (auto simp: run link_simps)
  ultimately show ?case by simp
qed

section \<open>Every operation implements its list operation\<close>

lemma queue_repD:
  assumes "queue_rep q xs"
  shows "distinct xs" "FakeHead \<notin> set xs" "FakeTail \<notin> set xs"
    "linked q FakeHead xs FakeTail" "num_free_blocks q = int (length xs)"
    "prev_free_block q FakeHead = None" "next_free_block q FakeTail = None"
    "\<And>r. r \<notin> set xs \<Longrightarrow> r \<noteq> FakeHead \<Longrightarrow> r \<noteq> FakeTail \<Longrightarrow> prev_free_block q r = None"
    "\<And>r. r \<notin> set xs \<Longrightarrow> r \<noteq> FakeHead \<Longrightarrow> r \<noteq> FakeTail \<Longrightarrow> next_free_block q r = None"
  using assms by (auto simp: queue_rep_def)

lemma queue_rep_remove:
  assumes "queue_rep q (ys @ b # zs)"
  shows "\<exists>q'. queue_remove b q = Inr q' \<and> queue_rep q' (ys @ zs)"
proof -
  note rep = queue_repD [OF assms]
  define p where "p = last (FakeHead # ys)"
  define n where "n = hd (zs @ [FakeTail])"
  have run: "linked q FakeHead ys b" "linked q b zs FakeTail"
    using rep(4) by (simp_all add: linked_append)
  have nxt: "next_free_block q b = Some n"
    unfolding n_def by (rule linked_next_first [OF run(2)])
  have prv: "prev_free_block q b = Some p"
    unfolding p_def by (rule linked_prev_last [OF run(1)])
  have "p \<in> set (FakeHead # ys)" unfolding p_def by (rule last_in_set) simp
  moreover have "n \<in> set (zs @ [FakeTail])" unfolding n_def by (rule hd_in_set) simp
  ultimately have pn: "p = FakeHead \<or> p \<in> set ys" "n = FakeTail \<or> n \<in> set zs"
    "p \<noteq> FakeTail" "n \<noteq> FakeHead" "p \<noteq> b" "n \<noteq> b"
    using rep(1-3) by auto
  define q3 where "q3 = set_next b None (set_prev b None
    (set_prev n (Some p) (set_next p (Some n) q)))"
  define q' where "q' = q3\<lparr>num_free_blocks := num_free_blocks q3 - 1\<rparr>"
  have eq: "queue_remove b q = Inr q'"
    by (simp add: queue_remove_def prv nxt q3_def q'_def Let_def)
  have "linked q' FakeHead (ys @ zs) FakeTail"
    by (rule linked_bypass [OF run])
      (use rep(1-3) in \<open>auto simp: q'_def q3_def link_simps p_def n_def\<close>)
  then have "queue_rep q' (ys @ zs)"
    using rep pn unfolding queue_rep_def by (auto simp: q'_def q3_def link_simps)
  with eq show ?thesis by blast
qed

lemma queue_remove_absent:
  assumes "queue_rep q xs" "b \<notin> set xs"
  shows "queue_remove b q = Inl RuntimeError"
  using assms by (cases b) (auto simp: queue_rep_def queue_remove_def split: option.split)

lemma queue_rep_popleft:
  assumes "queue_rep q (x # xs)"
  shows "\<exists>q'. popleft q = Inr (x, q') \<and> queue_rep q' xs"
proof -
  note rep = queue_repD [OF assms]
  obtain n where n: "next_free_block q FakeHead = Some x" "prev_free_block q x = Some FakeHead"
      "next_free_block q x = Some n" "x \<noteq> FakeTail"
    using rep(3,4) linked_next_first [of q x xs FakeTail] by auto
  have "popleft q = map_sum id (Pair x) (queue_remove x q)"
    by (simp add: popleft_def queue_remove_def n Let_def)
  moreover obtain q' where "queue_remove x q = Inr q'" "queue_rep q' xs"
    using queue_rep_remove [of q "[]" x xs] assms by auto
  ultimately show ?thesis by auto
qed

lemma popleft_empty: "queue_rep q [] \<Longrightarrow> popleft q = Inl ValueError"
  by (simp add: queue_rep_def popleft_def)

lemma popleft_n_loop_run:
  assumes "linked q c ys b" "distinct (c # ys @ [b])" "k \<le> Suc (length ys)"
  shows "\<exists>q'. popleft_n_loop k (Some c) ret q
      = Inr (ret @ take k (c # ys), Some ((c # ys @ [b]) ! k), q') \<and>
    (\<forall>r. next_free_block q' r = (if r \<in> set (take k (c # ys)) then None else next_free_block q r)) \<and>
    (\<forall>r. prev_free_block q' r = (if r \<in> set (take k (c # ys)) then None else prev_free_block q r)) \<and>
    num_free_blocks q' = num_free_blocks q"
  using assms
proof (induction k arbitrary: c ys ret q)
  case 0
  then show ?case by simp
next
  case (Suc k)
  let ?q1 = "set_next c None (set_prev c None q)"
  show ?case
  proof (cases ys)
    case Nil
    with Suc.prems have "k = 0" "next_free_block q c = Some b" by auto
    with Nil show ?thesis by (simp add: link_simps)
  next
    case (Cons y zs)
    with Suc.prems have run: "linked q y zs b" "next_free_block q c = Some y"
      "distinct (y # zs @ [b])" "k \<le> Suc (length zs)" "c \<noteq> y" "c \<notin> set zs" "c \<noteq> b"
      by auto
    have "linked ?q1 y zs b = linked q y zs b"
      using run(5-) by (intro linked_frame) (auto simp: link_simps)
    with run(1) have run1: "linked ?q1 y zs b" by simp
    from Suc.IH [OF run1 run(3,4), of "ret @ [c]"] obtain q' where
      q': "popleft_n_loop k (Some y) (ret @ [c]) ?q1
            = Inr ((ret @ [c]) @ take k (y # zs), Some ((y # zs @ [b]) ! k), q')"
        "\<forall>r. next_free_block q' r
            = (if r \<in> set (take k (y # zs)) then None else next_free_block ?q1 r)"
        "\<forall>r. prev_free_block q' r
            = (if r \<in> set (take k (y # zs)) then None else prev_free_block ?q1 r)"
        "num_free_blocks q' = num_free_blocks ?q1"
      by blast
    show ?thesis
      by (rule exI [of _ q']) (use q' run(2) in \<open>simp add: Cons link_simps\<close>)
  qed
qed

lemma queue_rep_relink:
  assumes rep: "queue_rep q (ys @ zs)"
    and nxt: "\<And>r. next_free_block q' r = (if r = FakeHead then Some (hd (zs @ [FakeTail]))
           else if r \<in> set ys then None else next_free_block q r)"
    and prv: "\<And>r. prev_free_block q' r = (if r = hd (zs @ [FakeTail]) then Some FakeHead
           else if r \<in> set ys then None else prev_free_block q r)"
    and num: "num_free_blocks q' = int (length zs)"
  shows "queue_rep q' zs"
proof -
  note r = queue_repD [OF rep]
  have "linked q' FakeHead zs FakeTail"
  proof (cases zs)
    case Nil
    then show ?thesis by (simp add: nxt prv)
  next
    case (Cons z zs')
    have "linked q z zs' FakeTail" using r(4) Cons by (simp add: linked_append)
    moreover have "linked q' z zs' FakeTail = linked q z zs' FakeTail"
      using r(1-3) Cons by (intro linked_frame) (auto simp: nxt prv)
    ultimately show ?thesis using Cons by (simp add: nxt prv)
  qed
  moreover have "hd (zs @ [FakeTail]) \<in> set (zs @ [FakeTail])" by (rule hd_in_set) simp
  then have "hd (zs @ [FakeTail]) \<noteq> FakeHead" "hd (zs @ [FakeTail]) \<in> insert FakeTail (set zs)"
    using r(2) by auto
  ultimately show ?thesis
    using r unfolding queue_rep_def by (auto simp: nxt prv num)
qed

lemma queue_rep_popleft_n:
  assumes rep: "queue_rep q xs" and n: "n \<le> length xs"
  shows "\<exists>q'. popleft_n (int n) q = Inr (take n xs, q') \<and> queue_rep q' (drop n xs)"
proof -
  note r = queue_repD [OF rep]
  have rep': "queue_rep q (take n xs @ drop n xs)" using rep by simp
  consider "n = 0" | "n = 1" | "n \<ge> 2" by linarith
  then show ?thesis
  proof cases
    case 1
    with rep show ?thesis by (simp add: popleft_n_def)
  next
    case 2
    with n obtain x ys where xs: "xs = x # ys" by (cases xs) auto
    have l: "next_free_block q FakeHead = Some x" "next_free_block q x = Some (hd (ys @ [FakeTail]))"
      using r(4) linked_next_first [of q x ys FakeTail] by (simp_all add: xs)
    let ?q1 = "set_next x None (set_prev x None (q\<lparr>num_free_blocks := num_free_blocks q - 1\<rparr>))"
    let ?q' = "set_prev (hd (ys @ [FakeTail])) (Some FakeHead)
      (set_next FakeHead (Some (hd (ys @ [FakeTail]))) ?q1)"
    have "popleft_n (int n) q = Inr ([x], ?q')"
      using 2 r(5) by (simp add: popleft_n_def l xs Let_def)
    moreover have "queue_rep ?q' ys"
      using r(2,5) by (intro queue_rep_relink [of q "[x]" ys]) (auto simp: rep [unfolded xs] link_simps xs)
    ultimately show ?thesis using 2 by (auto simp: xs)
  next
    case 3
    with n obtain x ys where xs: "xs = x # ys" by (cases xs) auto
    let ?q0 = "q\<lparr>num_free_blocks := num_free_blocks q - int n\<rparr>"
    have "linked ?q0 x ys FakeTail = linked q x ys FakeTail" by (rule linked_frame) simp_all
    with r(4) have run: "linked ?q0 x ys FakeTail" by (simp add: xs)
    have d: "distinct (x # ys @ [FakeTail])" using r(1,3) xs by auto
    have "drop n (xs @ [FakeTail]) = drop n xs @ [FakeTail]" using n by simp
    then have c: "(x # ys @ [FakeTail]) ! n = hd (drop n xs @ [FakeTail])"
      using n hd_drop_conv_nth [of n "xs @ [FakeTail]"] by (simp add: xs)
    from popleft_n_loop_run [OF run d, of n "[]"] n obtain q1 where q1:
        "popleft_n_loop n (Some x) [] ?q0
           = Inr (take n xs, Some (hd (drop n xs @ [FakeTail])), q1)"
        "\<forall>r. next_free_block q1 r = (if r \<in> set (take n xs) then None else next_free_block q r)"
        "\<forall>r. prev_free_block q1 r = (if r \<in> set (take n xs) then None else prev_free_block q r)"
        "num_free_blocks q1 = num_free_blocks q - int n"
      by (auto simp: xs c)
    let ?c = "hd (drop n xs @ [FakeTail])"
    let ?q' = "set_prev ?c (Some FakeHead) (set_next FakeHead (Some ?c) q1)"
    have "next_free_block q FakeHead = Some x" using r(4) by (simp add: xs)
    then have "popleft_n (int n) q = Inr (take n xs, ?q')"
      using 3 r(5) n q1(1) by (simp add: popleft_n_def Let_def)
    moreover have "queue_rep ?q' (drop n xs)"
      using n r(5) q1(2-) by (intro queue_rep_relink [OF rep']) (auto simp: link_simps)
    ultimately show ?thesis by blast
  qed
qed

lemma popleft_n_short:
  assumes "queue_rep q xs" "int (length xs) < n"
  shows "popleft_n n q = Inl AssertionError"
  using assms by (auto simp: popleft_n_def queue_rep_def)

text \<open>Splicing a run of fresh blocks into the list, at the gap between \<open>p\<close> and \<open>b\<close>.\<close>

lemma linked_splice:
  assumes l: "linked q FakeHead (ys @ zs) FakeTail"
    and d: "distinct (FakeHead # ys @ bs @ zs @ [FakeTail])"
    and p: "p = last (FakeHead # ys)" and b: "b = hd (zs @ [FakeTail])"
    and run: "link_run p bs q = (e, q1)"
    and nxt: "next_free_block q' = (next_free_block q1)(e := Some b)"
    and prv: "prev_free_block q' = (prev_free_block q1)(b := Some e)"
  shows "linked q' FakeHead (ys @ bs @ zs) FakeTail"
proof -
  have e: "e = last (p # bs)" using link_run_result [of p bs q] run by simp
  have pin: "p \<in> set (FakeHead # ys)" unfolding p by (rule last_in_set) simp
  have bin: "b \<in> set (zs @ [FakeTail])" unfolding b by (rule hd_in_set) simp
  have ein: "e \<in> set (p # bs)" unfolding e by (rule last_in_set) simp
  have fresh: "distinct (p # bs)" "b \<notin> set bs" using d pin bin by auto
  have mid: "linked q' p bs b"
    by (rule link_run_linked [OF fresh, of q' q]) (simp_all add: nxt prv run e)
  have frame: "next_free_block q' r = next_free_block q r" if "r \<notin> set (p # bs)" for r
    using that ein link_run_next_frame [OF that, of q] by (auto simp: nxt run)
  have frame': "prev_free_block q' r = prev_free_block q r" if "r \<notin> set bs" "r \<noteq> b" for r
    using that link_run_prev_frame [OF that(1), of p q] by (simp add: prv run)
  have left: "linked q' FakeHead (ys @ bs) b"
  proof (cases ys rule: rev_cases)
    case Nil
    then show ?thesis using mid p by simp
  next
    case (snoc us u)
    have "linked q FakeHead us u" using l snoc by (simp add: linked_append)
    moreover have "linked q' FakeHead us u = linked q FakeHead us u"
      using d bin p snoc by (intro linked_frame frame frame') auto
    ultimately show ?thesis using mid p snoc by (simp add: linked_append)
  qed
  show ?thesis
  proof (cases zs)
    case Nil
    then show ?thesis using left b by simp
  next
    case (Cons w ws)
    have "linked q w ws FakeTail" using l Cons by (simp add: linked_append)
    moreover have "linked q' w ws FakeTail = linked q w ws FakeTail"
      using d pin b Cons by (intro linked_frame frame frame') auto
    ultimately show ?thesis using left b Cons
      by (simp add: linked_append flip: append_assoc)
  qed
qed

lemma queue_rep_splice:
  assumes rep: "queue_rep q (ys @ zs)"
    and d: "distinct bs" "set bs \<inter> set (FakeHead # FakeTail # ys @ zs) = {}"
    and p: "p = last (FakeHead # ys)" and b: "b = hd (zs @ [FakeTail])"
    and run: "link_run p bs q = (e, q1)"
    and nxt: "next_free_block q' = (next_free_block q1)(e := Some b)"
    and prv: "prev_free_block q' = (prev_free_block q1)(b := Some e)"
    and num: "num_free_blocks q' = num_free_blocks q1 + int (length bs)"
  shows "queue_rep q' (ys @ bs @ zs)"
proof -
  note r = queue_repD [OF rep]
  have e: "e = last (p # bs)" using link_run_result [of p bs q] run by simp
  have pin: "p \<in> set (FakeHead # ys)" unfolding p by (rule last_in_set) simp
  have bin: "b \<in> set (zs @ [FakeTail])" unfolding b by (rule hd_in_set) simp
  have ein: "e \<in> set (p # bs)" unfolding e by (rule last_in_set) simp
  have "linked q' FakeHead (ys @ bs @ zs) FakeTail"
    using r(1-3) d by (intro linked_splice [OF r(4) _ p b run nxt prv]) auto
  moreover have frame: "next_free_block q' x = next_free_block q x" if "x \<noteq> p" "x \<notin> set bs" for x
    using that ein link_run_next_frame [of x p bs q] by (auto simp: nxt run)
  moreover have frame': "prev_free_block q' x = prev_free_block q x" if "x \<notin> set bs" "x \<noteq> b" for x
    using that link_run_prev_frame [OF that(1), of p q] by (simp add: prv run)
  moreover have "num_free_blocks q1 = num_free_blocks q"
    using link_run_num [of p bs q] run by simp
  moreover have "FakeTail \<noteq> p" "FakeHead \<noteq> b" "FakeHead \<notin> set bs" "FakeTail \<notin> set bs"
    using pin bin r(2,3) d(2) by auto
  moreover have "x \<noteq> p \<and> x \<noteq> b"
    if "x \<notin> set (ys @ bs @ zs)" "x \<noteq> FakeHead" "x \<noteq> FakeTail" for x
    using that pin bin by auto
  ultimately show ?thesis
    using r d num unfolding queue_rep_def by auto
qed

lemma queue_rep_prepend_n:
  assumes rep: "queue_rep q xs" and d: "distinct bs" "set bs \<inter> set (FakeHead # FakeTail # xs) = {}"
  shows "\<exists>q'. prepend_n bs q = Inr q' \<and> queue_rep q' (bs @ xs)"
proof (cases "bs = []")
  case True
  with rep show ?thesis by (simp add: prepend_n_def)
next
  case False
  obtain e q1 where run: "link_run FakeHead bs q = (e, q1)" by (cases "link_run FakeHead bs q")
  let ?b = "hd (xs @ [FakeTail])"
  have first: "next_free_block q FakeHead = Some ?b"
    by (rule linked_next_first [OF queue_repD(4) [OF rep]])
  let ?q3 = "set_prev ?b (Some e) (set_next e (Some ?b) q1)"
  let ?q' = "?q3\<lparr>num_free_blocks := num_free_blocks ?q3 + int (length bs)\<rparr>"
  have "prepend_n bs q = Inr ?q'"
    using False by (simp add: prepend_n_def first run Let_def)
  moreover have "queue_rep ?q' ([] @ bs @ xs)"
    using rep d by (intro queue_rep_splice [OF _ _ _ _ _ run]) (auto simp: link_simps)
  ultimately show ?thesis by auto
qed

lemma queue_rep_append_n:
  assumes rep: "queue_rep q xs" and d: "distinct bs" "set bs \<inter> set (FakeHead # FakeTail # xs) = {}"
  shows "\<exists>q'. append_n bs q = Inr q' \<and> queue_rep q' (xs @ bs)"
proof (cases "bs = []")
  case True
  with rep show ?thesis by (simp add: append_n_def)
next
  case False
  define p where "p = last (FakeHead # xs)"
  obtain e q1 where run: "link_run p bs q = (e, q1)" by (cases "link_run p bs q")
  have lst: "prev_free_block q FakeTail = Some p"
    unfolding p_def by (rule linked_prev_last [OF queue_repD(4) [OF rep]])
  let ?q3 = "set_prev FakeTail (Some e) (set_next e (Some FakeTail) q1)"
  let ?q' = "?q3\<lparr>num_free_blocks := num_free_blocks ?q3 + int (length bs)\<rparr>"
  have "append_n bs q = Inr ?q'"
    using False by (simp add: append_n_def lst run Let_def)
  moreover have "queue_rep ?q' (xs @ bs @ [])"
    using rep d by (intro queue_rep_splice [OF _ _ _ p_def _ run]) (auto simp: link_simps)
  ultimately show ?thesis by auto
qed

lemma queue_append_eq: "queue_rep q xs \<Longrightarrow> queue_append b q = append_n [b] q"
  using linked_prev_last [of q FakeHead xs FakeTail]
  by (auto simp: queue_rep_def queue_append_def append_n_def Let_def set_next_def set_prev_def)

lemma queue_rep_append:
  assumes "queue_rep q xs" "b \<notin> set (FakeHead # FakeTail # xs)"
  shows "\<exists>q'. queue_append b q = Inr q' \<and> queue_rep q' (xs @ [b])"
  using queue_rep_append_n [OF assms(1), of "[b]"] assms by (auto simp: queue_append_eq)

text \<open>Construction: neighbours are linked by position, then the sentinels are attached.\<close>

lemma linked_nth:
  "linked q a xs b \<longleftrightarrow>
     (\<forall>i \<le> length xs. next_free_block q ((a # xs) ! i) = Some ((xs @ [b]) ! i) \<and>
        prev_free_block q ((xs @ [b]) ! i) = Some ((a # xs) ! i))"
proof (induction xs arbitrary: a)
  case Nil
  then show ?case by simp
next
  case (Cons x xs)
  have "(\<forall>i \<le> Suc n. P i) \<longleftrightarrow> P 0 \<and> (\<forall>i \<le> n. P (Suc i))" for n P
    by (metis Suc_le_mono le0 not0_implies_Suc)
  with Cons show ?case by simp
qed

lemma link_neighbours_fold:
  assumes "distinct bs" "k \<le> length bs"
    and q0: "q0 = \<lparr>prev_free_block = (\<lambda>_. None), next_free_block = (\<lambda>_. None), num_free_blocks = n\<rparr>"
  defines "q \<equiv> fold (link_neighbours bs) [0..<k] q0"
  shows "(\<forall>i < length bs. next_free_block q (bs ! i) =
            (if i < k \<and> i + 1 < length bs then Some (bs ! (i + 1)) else None)) \<and>
         (\<forall>i < length bs. prev_free_block q (bs ! i) =
            (if i < k \<and> 0 < i then Some (bs ! (i - 1)) else None)) \<and>
         (\<forall>r. r \<notin> set bs \<longrightarrow> next_free_block q r = None \<and> prev_free_block q r = None) \<and>
         num_free_blocks q = n"
  using assms(2) unfolding q_def
proof (induction k)
  case 0
  then show ?case by (simp add: q0)
next
  case (Suc k)
  then have k: "k < length bs" by simp
  have eq: "bs ! i = bs ! k \<longleftrightarrow> i = k" if "i < length bs" for i
    using that k assms(1) by (simp add: nth_eq_iff_index_eq)
  have "bs ! k \<in> set bs" using k by simp
  with Suc.IH k show ?case
    by (auto simp: link_neighbours_def Let_def link_simps eq less_Suc_eq)
qed

lemma queue_rep_init:
  assumes d: "distinct bs" "FakeHead \<notin> set bs" "FakeTail \<notin> set bs"
  shows "queue_rep (free_queue_init bs) bs"
proof (cases "bs = []")
  case True
  then show ?thesis by (simp add: free_queue_init_def queue_rep_def link_simps)
next
  case False
  define q1 where "q1 = fold (link_neighbours bs) [0..<length bs]
    \<lparr>prev_free_block = (\<lambda>_. None), next_free_block = (\<lambda>_. None), num_free_blocks = int (length bs)\<rparr>"
  note f = link_neighbours_fold [OF d(1) order_refl refl, of "int (length bs)", folded q1_def]
  define q where "q = free_queue_init bs"
  have q: "next_free_block q = (next_free_block q1)(FakeHead := Some (hd bs), last bs := Some FakeTail)"
    "prev_free_block q = (prev_free_block q1)(hd bs := Some FakeHead, FakeTail := Some (last bs))"
    "num_free_blocks q = int (length bs)"
    using False f by (simp_all add: q_def free_queue_init_def q1_def [symmetric] link_simps Let_def)
  have ends: "hd bs = bs ! 0" "last bs = bs ! (length bs - 1)" "0 < length bs"
    using False by (simp_all add: hd_conv_nth last_conv_nth)
  have inj: "bs ! i = bs ! j \<longleftrightarrow> i = j" if "i < length bs" "j < length bs" for i j
    using that d(1) by (simp add: nth_eq_iff_index_eq)
  have ne: "bs ! i \<noteq> FakeHead" "bs ! i \<noteq> FakeTail" if "i < length bs" for i
    using that d(2,3) nth_mem [of i bs] by metis+
  have "linked q FakeHead bs FakeTail"
    unfolding linked_nth
  proof (intro allI impI)
    fix i assume i: "i \<le> length bs"
    then consider "i = 0" | j where "i = Suc j" "j < length bs" by (cases i) auto
    then show "next_free_block q ((FakeHead # bs) ! i) = Some ((bs @ [FakeTail]) ! i) \<and>
        prev_free_block q ((bs @ [FakeTail]) ! i) = Some ((FakeHead # bs) ! i)"
    proof cases
      case 1
      then show ?thesis using ends ne [of 0] ne [of "length bs - 1"] d f by (auto simp: q nth_append)
    next
      case (2 j)
      then show ?thesis using ends ne d f inj
        by (auto simp: q nth_append)
    qed
  qed
  moreover have "hd bs \<in> set bs" "last bs \<in> set bs" using False by simp_all
  ultimately show ?thesis
    using d f unfolding queue_rep_def q_def [symmetric] by (auto simp: q)
qed

text \<open>The two walks end, and list the blocks in eviction order.\<close>

lemma free_walk_linked:
  "linked q c ys FakeTail \<Longrightarrow> next_free_block q FakeTail = None \<Longrightarrow>
     free_walk q c ret = Some (ret @ c # ys)"
proof (induction ys arbitrary: c ret)
  case Nil
  then show ?case by (simp add: free_walk.simps)
next
  case (Cons y ys)
  then have "free_walk q y (ret @ [c]) = Some ((ret @ [c]) @ y # ys)" by simp
  with Cons.prems show ?case by (simp add: free_walk.simps [of q c])
qed

lemma get_all_free_blocks_rep:
  assumes "queue_rep q xs"
  shows "get_all_free_blocks q = Some (Inr xs)"
  using queue_repD(4,7) [OF assms]
  by (cases xs) (auto simp: get_all_free_blocks_def free_walk.simps [of q FakeTail] free_walk_linked)

lemma iter_walk_linked:
  "linked q c ys FakeTail \<Longrightarrow> FakeTail \<notin> set (c # ys) \<Longrightarrow>
     iter_walk q (Some c) out = Some (out @ c # ys)"
proof (induction ys arbitrary: c out)
  case Nil
  then show ?case by (simp add: iter_walk.simps)
next
  case (Cons y ys)
  then have "iter_walk q (Some y) (out @ [c]) = Some ((out @ [c]) @ y # ys)" by simp
  with Cons.prems show ?case by (auto simp: iter_walk.simps [of q "Some c"])
qed

lemma iter_blocks_after_rep:
  assumes "queue_rep q xs"
  shows "iter_blocks_after None q = Some xs"
    and "xs = ys @ c # zs \<Longrightarrow> iter_blocks_after (Some c) q = Some zs"
proof -
  have walk: "iter_walk q (next_free_block q a) [] = Some ws"
    if "linked q a ws FakeTail" "FakeTail \<notin> set ws" for a ws
    using that iter_walk_linked [of q "hd ws" "tl ws" "[]"]
    by (cases ws) (simp_all add: iter_walk.simps [of q "Some FakeTail"])
  show "iter_blocks_after None q = Some xs"
    using walk queue_repD(3,4) [OF assms] by (simp add: iter_blocks_after_def)
  show "iter_blocks_after (Some c) q = Some zs" if "xs = ys @ c # zs"
    using walk [of c zs] queue_repD(3,4) [OF assms] that
    by (simp add: iter_blocks_after_def linked_append)
qed

section \<open>Leading null blocks\<close>

declare null_search.simps [simp del]

lemma null_search_bounds:
  "lo \<le> hi \<Longrightarrow> lo \<le> null_search nul bs lo hi \<and> null_search nul bs lo hi \<le> hi \<and>
     (null_search nul bs lo hi = hi \<or> \<not> nul (bs ! null_search nul bs lo hi))"
proof (induction nul bs lo hi rule: null_search.induct)
  case (1 nul bs lo hi)
  show ?case
  proof (cases "lo < hi")
    case True
    define mid where "mid = (lo + hi) div 2"
    have mid: "lo \<le> mid" "mid < hi" using True by (auto simp: mid_def)
    show ?thesis
    proof (cases "nul (bs ! mid)")
      case n: True
      have "null_search nul bs lo hi = null_search nul bs (mid + 1) hi"
        using True n by (simp add: null_search.simps [of nul bs lo hi] mid_def Let_def)
      with "1.IH"(1) [OF True mid_def n] mid show ?thesis by auto
    next
      case n: False
      have "null_search nul bs lo hi = null_search nul bs lo mid"
        using True n by (simp add: null_search.simps [of nul bs lo hi] mid_def Let_def)
      with "1.IH"(2) [OF True mid_def n] mid n show ?thesis by auto
    qed
  next
    case False
    with 1 show ?thesis by (auto simp: null_search.simps [of nul bs hi hi])
  qed
qed

lemma first_non_null_eq:
  "\<exists>b \<in> set bs. \<not> nul b \<Longrightarrow> first_non_null nul i bs = Inr (i + length (takeWhile nul bs))"
  by (induction bs arbitrary: i) auto

lemma count_list_full: "count_list xs y = length xs \<Longrightarrow> x \<in> set xs \<Longrightarrow> x = y"
proof (induction xs)
  case (Cons a xs)
  then show ?case using count_le_length [of xs y] by (auto split: if_splits)
qed simp

lemma null_head_len_eq:
  assumes "\<And>b. b \<in> set bs \<Longrightarrow> nul b \<Longrightarrow> b = nb"
  shows "null_head_len nul bs = Inr (length (takeWhile nul bs))"
proof (cases "bs = [] \<or> \<not> nul (hd bs)")
  case True
  then show ?thesis by (cases bs) (auto simp: null_head_len_def)
next
  case False
  then have bs: "bs \<noteq> []" "nul (hd bs)" by auto
  define lo where "lo = null_search nul bs (Suc 0) (length bs)"
  have lo: "1 \<le> lo" "lo \<le> length bs" "lo = length bs \<or> \<not> nul (bs ! lo)"
    using null_search_bounds [of 1 "length bs" nul bs] bs(1) by (auto simp: lo_def Suc_le_eq)
  show ?thesis
  proof (cases "count_list (take lo bs) (hd bs) = lo")
    case True
    then have all: "\<forall>b \<in> set (take lo bs). nul b"
      using count_list_full [of "take lo bs" "hd bs"] lo(2) bs(2) by auto
    have "length (takeWhile nul bs) = lo"
    proof -
      have "takeWhile nul (take lo bs @ drop lo bs) = take lo bs @ takeWhile nul (drop lo bs)"
        using all by (intro takeWhile_append2) auto
      moreover have "takeWhile nul (drop lo bs) = []"
        using lo(2,3) by (cases "lo = length bs") (auto simp: takeWhile_eq_Nil_iff hd_drop_conv_nth)
      ultimately show ?thesis using lo(2) by (simp del: takeWhile_append)
    qed
    with True False show ?thesis by (simp add: null_head_len_def Let_def lo_def [symmetric])
  next
    case ne: False
    have "\<exists>b \<in> set bs. \<not> nul b"
    proof (rule ccontr)
      assume "\<not> ?thesis"
      then have "\<forall>b \<in> set (take lo bs). b = hd bs"
        using assms bs by (metis hd_in_set in_set_takeD)
      then have "count_list (take lo bs) (hd bs) = length (take lo bs)"
        by (induction "take lo bs") (simp_all add: count_list_eq_length_filter)
      with ne lo(2) show False by simp
    qed
    with ne False show ?thesis
      using first_non_null_eq [of bs nul 0] by (simp add: null_head_len_def Let_def lo_def [symmetric])
  qed
qed

lemma trim_null_head_eq:
  assumes "\<And>b. b \<in> set bs \<Longrightarrow> nul b \<Longrightarrow> b = nb"
  shows "trim_null_head nul bs = Inr (dropWhile nul bs)"
  using null_head_len_eq [OF assms]
  by (simp add: trim_null_head_def dropWhile_eq_drop)

section \<open>The interface the block pool relies on\<close>

text \<open>
  What \<open>BlockPool\<close> needs of its free list: a representation of a duplicate-free list of blocks,
  a count, removal of the first \<open>n\<close> blocks or of one block anywhere, and insertion of fresh
  blocks at either end.
\<close>

locale free_list =
  fixes rep :: "'q \<Rightarrow> 'b list \<Rightarrow> bool"
    and usable :: "'b \<Rightarrow> bool"
    and count :: "'q \<Rightarrow> int"
    and pop_n :: "int \<Rightarrow> 'q \<Rightarrow> ('b list \<times> 'q) result"
    and take_out :: "'b \<Rightarrow> 'q \<Rightarrow> 'q result"
    and push_front :: "'b list \<Rightarrow> 'q \<Rightarrow> 'q result"
    and push_back :: "'b list \<Rightarrow> 'q \<Rightarrow> 'q result"
  assumes rep_distinct: "rep q xs \<Longrightarrow> distinct xs"
    and rep_usable: "rep q xs \<Longrightarrow> b \<in> set xs \<Longrightarrow> usable b"
    and count_rep: "rep q xs \<Longrightarrow> count q = int (length xs)"
    and pop_n_rep: "rep q xs \<Longrightarrow> n \<le> length xs \<Longrightarrow>
      \<exists>q'. pop_n (int n) q = Inr (take n xs, q') \<and> rep q' (drop n xs)"
    and pop_n_short: "rep q xs \<Longrightarrow> int (length xs) < k \<Longrightarrow> pop_n k q = Inl AssertionError"
    and take_out_rep: "rep q xs \<Longrightarrow> b \<in> set xs \<Longrightarrow>
      \<exists>q'. take_out b q = Inr q' \<and> rep q' (remove1 b xs)"
    and take_out_absent: "rep q xs \<Longrightarrow> b \<notin> set xs \<Longrightarrow> take_out b q = Inl RuntimeError"
    and push_front_rep: "rep q xs \<Longrightarrow> distinct bs \<Longrightarrow> set bs \<inter> set xs = {} \<Longrightarrow>
      list_all usable bs \<Longrightarrow> \<exists>q'. push_front bs q = Inr q' \<and> rep q' (bs @ xs)"
    and push_back_rep: "rep q xs \<Longrightarrow> distinct bs \<Longrightarrow> set bs \<inter> set xs = {} \<Longrightarrow>
      list_all usable bs \<Longrightarrow> \<exists>q'. push_back bs q = Inr q' \<and> rep q' (xs @ bs)"
begin

lemma pop_nE:
  assumes "rep q xs" "pop_n (int n) q = Inr (bs, q')"
  shows "n \<le> length xs" "bs = take n xs" "rep q' (drop n xs)"
proof -
  show n: "n \<le> length xs" using pop_n_short [OF assms(1), of "int n"] assms(2) by fastforce
  show "bs = take n xs" "rep q' (drop n xs)"
    using pop_n_rep [OF assms(1) n] assms(2) by auto
qed

lemma take_outE:
  assumes "rep q xs" "take_out b q = Inr q'"
  shows "b \<in> set xs" "rep q' (remove1 b xs)"
proof -
  show b: "b \<in> set xs" using take_out_absent [OF assms(1), of b] assms(2) by fastforce
  show "rep q' (remove1 b xs)" using take_out_rep [OF assms(1) b] assms(2) by auto
qed

text \<open>Blocks put at the front are the next ones handed out, and the rest is untouched.\<close>

lemma push_front_pop:
  assumes "rep q xs" "distinct bs" "set bs \<inter> set xs = {}" "list_all usable bs"
  shows "\<exists>q1 q2. push_front bs q = Inr q1 \<and> pop_n (int (length bs)) q1 = Inr (bs, q2) \<and> rep q2 xs"
proof -
  obtain q1 where q1: "push_front bs q = Inr q1" "rep q1 (bs @ xs)"
    using push_front_rep [OF assms] by auto
  then show ?thesis using pop_n_rep [OF q1(2), of "length bs"] by auto
qed

text \<open>Blocks put at the back are handed out last: only after everything already free.\<close>

lemma push_back_pop:
  assumes "rep q xs" "distinct bs" "set bs \<inter> set xs = {}" "list_all usable bs" "n \<le> length xs"
  shows "\<exists>q1 q2. push_back bs q = Inr q1 \<and> pop_n (int n) q1 = Inr (take n xs, q2) \<and>
           rep q2 (drop n xs @ bs)"
proof -
  obtain q1 where q1: "push_back bs q = Inr q1" "rep q1 (xs @ bs)"
    using push_back_rep [OF assms(1-4)] by auto
  then show ?thesis using pop_n_rep [OF q1(2), of n] assms(5) by auto
qed

end

fun is_blk :: "block_ref \<Rightarrow> bool" where
  "is_blk (Blk i) = True"
| "is_blk r = False"

lemma is_blk_iff: "is_blk r \<longleftrightarrow> r \<noteq> FakeHead \<and> r \<noteq> FakeTail"
  by (cases r) simp_all

interpretation fq: free_list queue_rep is_blk num_free_blocks popleft_n queue_remove prepend_n append_n
proof (unfold_locales, goal_cases)
  case (6 q xs b)
  then obtain ys zs where s: "xs = ys @ b # zs" "b \<notin> set ys"
    by (meson split_list_first)
  with queue_rep_remove [of q ys b zs] 6 show ?case by (simp add: remove1_append)
qed (auto simp: is_blk_iff list_all_iff intro!: popleft_n_short queue_remove_absent
       queue_rep_popleft_n queue_rep_prepend_n queue_rep_append_n dest: queue_repD)

section \<open>Sequences of operations\<close>

datatype queue_op =
    PopN nat
  | TakeOut block_ref
  | PushFront "block_ref list"
  | PushBack "block_ref list"

fun queue_step :: "queue_op \<Rightarrow> free_queue \<Rightarrow> (block_ref list \<times> free_queue) result" where
  "queue_step (PopN n) q = popleft_n (int n) q"
| "queue_step (TakeOut b) q = rbind (queue_remove b q) (\<lambda>q'. Inr ([], q'))"
| "queue_step (PushFront bs) q = rbind (prepend_n bs q) (\<lambda>q'. Inr ([], q'))"
| "queue_step (PushBack bs) q = rbind (append_n bs q) (\<lambda>q'. Inr ([], q'))"

text \<open>The same operations on a plain list of free blocks.\<close>

fun list_step :: "queue_op \<Rightarrow> block_ref list \<Rightarrow> (block_ref list \<times> block_ref list) result" where
  "list_step (PopN n) xs =
     (if n \<le> length xs then Inr (take n xs, drop n xs) else Inl AssertionError)"
| "list_step (TakeOut b) xs = (if b \<in> set xs then Inr ([], remove1 b xs) else Inl RuntimeError)"
| "list_step (PushFront bs) xs = Inr ([], bs @ xs)"
| "list_step (PushBack bs) xs = Inr ([], xs @ bs)"

text \<open>Callers put back only blocks that are not free, each once.\<close>

fun op_ok :: "queue_op \<Rightarrow> block_ref list \<Rightarrow> bool" where
  "op_ok (PushFront bs) xs \<longleftrightarrow> distinct bs \<and> set bs \<inter> set xs = {} \<and> list_all is_blk bs"
| "op_ok (PushBack bs) xs \<longleftrightarrow> distinct bs \<and> set bs \<inter> set xs = {} \<and> list_all is_blk bs"
| "op_ok _ xs \<longleftrightarrow> True"

fun run_ops :: "(queue_op \<Rightarrow> 's \<Rightarrow> (block_ref list \<times> 's) result) \<Rightarrow> queue_op list \<Rightarrow> 's \<Rightarrow>
    (block_ref list \<times> 's) result" where
  "run_ops step [] s = Inr ([], s)"
| "run_ops step (op # ops) s =
     rbind (step op s) (\<lambda>(out, s'). rbind (run_ops step ops s') (\<lambda>(out', s''). Inr (out @ out', s'')))"

fun ops_ok :: "queue_op list \<Rightarrow> block_ref list \<Rightarrow> bool" where
  "ops_ok [] xs \<longleftrightarrow> True"
| "ops_ok (op # ops) xs \<longleftrightarrow>
     op_ok op xs \<and> (case list_step op xs of Inl _ \<Rightarrow> True | Inr (_, xs') \<Rightarrow> ops_ok ops xs')"

text \<open>A result on the store agrees with a result on the list.\<close>

fun queue_agrees ::
  "(block_ref list \<times> free_queue) result \<Rightarrow> (block_ref list \<times> block_ref list) result \<Rightarrow> bool" where
  "queue_agrees (Inl e) (Inl e') \<longleftrightarrow> e = e'"
| "queue_agrees (Inr (out, q)) (Inr (out', xs)) \<longleftrightarrow> out = out' \<and> queue_rep q xs"
| "queue_agrees _ _ \<longleftrightarrow> False"

lemma queue_step_agrees:
  assumes "queue_rep q xs" "op_ok op xs"
  shows "queue_agrees (queue_step op q) (list_step op xs)"
proof (cases op)
  case (PopN n)
  then show ?thesis
    using fq.pop_n_rep [OF assms(1), of n] fq.pop_n_short [OF assms(1), of "int n"]
    by (cases "n \<le> length xs") auto
next
  case (TakeOut b)
  then show ?thesis
    using fq.take_out_rep [OF assms(1), of b] fq.take_out_absent [OF assms(1), of b] by auto
next
  case (PushFront bs)
  then show ?thesis
    using fq.push_front_rep [OF assms(1), of bs] assms(2) by auto
next
  case (PushBack bs)
  then show ?thesis
    using fq.push_back_rep [OF assms(1), of bs] assms(2) by auto
qed

lemma queue_rep_three: "queue_rep (free_queue_init [Blk 0, Blk 1, Blk 2]) [Blk 0, Blk 1, Blk 2]"
  by (rule queue_rep_init) simp_all

section \<open>Properties\<close>

text \<open>C7. Any sequence of operations on the linked free list (allocation of \<open>n\<close> blocks, removal of
  a block from the middle, insertion at the front and at the back) returns the same blocks or
  raises the same error as the same sequence on a plain list, and leaves the links representing
  that list.\<close>

theorem free_queue_refines_list:
  assumes "queue_rep q xs" "ops_ok ops xs"
  shows "queue_agrees (run_ops queue_step ops q) (run_ops list_step ops xs)"
  using assms
proof (induction ops arbitrary: q xs)
  case (Cons op ops)
  have agree: "queue_agrees (queue_step op q) (list_step op xs)"
    using Cons.prems by (intro queue_step_agrees) auto
  show ?case
  proof (cases "list_step op xs")
    case (Inl e)
    with agree show ?thesis by (cases "queue_step op q") auto
  next
    case (Inr p)
    obtain out xs' where p: "p = (out, xs')" by fastforce
    with agree Inr obtain q' where q': "queue_step op q = Inr (out, q')" "queue_rep q' xs'"
      by (cases "queue_step op q") auto
    have "queue_agrees (run_ops queue_step ops q') (run_ops list_step ops xs')"
      using Cons.prems Inr p q'(2) by (intro Cons.IH) auto
    then show ?thesis
      unfolding run_ops.simps q'(1) Inr p
      by (cases "run_ops queue_step ops q'"; cases "run_ops list_step ops xs'") auto
  qed
qed simp

theorem free_queue_refines_list_witness:
  "queue_agrees
     (run_ops queue_step [PopN 2, TakeOut (Blk 2), PushBack [Blk 1], PushFront [Blk 0], PopN 3]
        (free_queue_init [Blk 0, Blk 1, Blk 2]))
     (Inl AssertionError)"
  using free_queue_refines_list [OF queue_rep_three,
      of "[PopN 2, TakeOut (Blk 2), PushBack [Blk 1], PushFront [Blk 0], PopN 3]"]
  by simp

text \<open>C18. A free list built from distinct blocks holds exactly those blocks in that order, and
  walking its links terminates and returns them.\<close>

theorem free_queue_init_walk:
  assumes "distinct bs" "list_all is_blk bs"
  shows "queue_rep (free_queue_init bs) bs \<and>
    num_free_blocks (free_queue_init bs) = int (length bs) \<and>
    get_all_free_blocks (free_queue_init bs) = Some (Inr bs)"
proof -
  have "queue_rep (free_queue_init bs) bs"
    using assms by (intro queue_rep_init) (auto simp: list_all_iff)
  then show ?thesis
    using get_all_free_blocks_rep fq.count_rep by blast
qed

theorem free_queue_init_walk_witness:
  "get_all_free_blocks (free_queue_init [Blk 4, Blk 2]) = Some (Inr [Blk 4, Blk 2])"
  using free_queue_init_walk [of "[Blk 4, Blk 2]"] by simp

text \<open>C19. The binary search for leading null blocks finds exactly the run of null entries at the
  head, provided all null entries are one object, as they are in a block pool.\<close>

theorem trim_null_head_spec:
  assumes "\<And>b. b \<in> set bs \<Longrightarrow> nul b \<Longrightarrow> b = nb"
  shows "null_head_len nul bs = Inr (length (takeWhile nul bs)) \<and>
    trim_null_head nul bs = Inr (dropWhile nul bs)"
  using null_head_len_eq [OF assms] trim_null_head_eq [OF assms] by blast

theorem trim_null_head_spec_witness:
  "trim_null_head (\<lambda>b. b = 0) [0, 0, 0, 7, 0, 8 :: nat] = Inr [7, 0, 8]"
  using trim_null_head_spec [of "[0, 0, 0, 7, 0, 8 :: nat]" "\<lambda>b. b = 0" 0] by simp

end
