(* ===== verification/Request_Model.thy ===== *)
theory Request_Model
  imports Complex_Main Vllm_Prelude
begin

text \<open>
  The request a scheduler works on: \<open>Request\<close> and \<open>RequestStatus\<close> of \<open>vllm/v1/request.py\<close>, the
  sampling parameters they read, the placeholder ranges of multimodal inputs
  (\<open>vllm/multimodal/inputs.py\<close>) and the structured-output key
  (\<open>vllm/v1/structured_output/request.py\<close>). The block hasher a request calls is an argument of
  the operations that call it; \<open>Block_Hash\<close> provides it. Times are rationals (every finite
  float is one), and \<open>object_id\<close> stands for Python's \<open>id(self)\<close>.
\<close>

section \<open>Status\<close>

datatype request_status =
    WAITING
  | WAITING_FOR_STRUCTURED_OUTPUT_GRAMMAR
  | WAITING_FOR_REMOTE_KVS
  | WAITING_FOR_STREAMING_REQ
  | RUNNING
  | PREEMPTED
  | FINISHED_STOPPED
  | FINISHED_LENGTH_CAPPED
  | FINISHED_ABORTED
  | FINISHED_IGNORED
  | FINISHED_ERROR
  | FINISHED_REPETITION

datatype finish_reason =
    REASON_STOP | REASON_LENGTH | REASON_ABORT | REASON_ERROR | REASON_REPETITION

text \<open>\<open>RequestStatus\<close> is an \<open>IntEnum\<close> whose members count up from 1 in this order.\<close>

fun status_value :: "request_status \<Rightarrow> nat" where
  "status_value WAITING = 1"
| "status_value WAITING_FOR_STRUCTURED_OUTPUT_GRAMMAR = 2"
| "status_value WAITING_FOR_REMOTE_KVS = 3"
| "status_value WAITING_FOR_STREAMING_REQ = 4"
| "status_value RUNNING = 5"
| "status_value PREEMPTED = 6"
| "status_value FINISHED_STOPPED = 7"
| "status_value FINISHED_LENGTH_CAPPED = 8"
| "status_value FINISHED_ABORTED = 9"
| "status_value FINISHED_IGNORED = 10"
| "status_value FINISHED_ERROR = 11"
| "status_value FINISHED_REPETITION = 12"

lemma status_value_inject: "status_value s = status_value t \<Longrightarrow> s = t"
  by (cases s; cases t) simp_all

instantiation request_status :: linorder
begin

definition less_eq_request_status :: "request_status \<Rightarrow> request_status \<Rightarrow> bool" where
  "less_eq_request_status s t \<longleftrightarrow> status_value s \<le> status_value t"

definition less_request_status :: "request_status \<Rightarrow> request_status \<Rightarrow> bool" where
  "less_request_status s t \<longleftrightarrow> status_value s < status_value t"

instance
  by standard
    (auto simp: less_eq_request_status_def less_request_status_def intro: status_value_inject)

end

definition status_is_finished :: "request_status \<Rightarrow> bool" where
  "status_is_finished s \<longleftrightarrow> s > PREEMPTED"

fun status_finished_reason :: "request_status \<Rightarrow> finish_reason option" where
  "status_finished_reason FINISHED_STOPPED = Some REASON_STOP"
| "status_finished_reason FINISHED_LENGTH_CAPPED = Some REASON_LENGTH"
| "status_finished_reason FINISHED_ABORTED = Some REASON_ABORT"
| "status_finished_reason FINISHED_IGNORED = Some REASON_LENGTH"
| "status_finished_reason FINISHED_ERROR = Some REASON_ERROR"
| "status_finished_reason WAITING_FOR_STREAMING_REQ = Some REASON_STOP"
| "status_finished_reason FINISHED_REPETITION = Some REASON_REPETITION"
| "status_finished_reason _ = None"

section \<open>Parameters and inputs\<close>

record structured_outputs_params =
  so_json :: "py_value option"
  so_regex :: "string option"
  so_choice :: "py_value option"
  so_grammar :: "string option"
  so_json_object :: "bool option"
  so_structural_tag :: "string option"

definition constraint_count :: "structured_outputs_params \<Rightarrow> nat" where
  "constraint_count p =
     length (filter id [so_json p \<noteq> None, so_regex p \<noteq> None, so_choice p \<noteq> None,
       so_grammar p \<noteq> None, so_json_object p \<noteq> None, so_structural_tag p \<noteq> None])"

text \<open>The constructor's check: exactly one constraint, \<open>VLLMValidationError\<close> (a \<open>ValueError\<close>)
  otherwise.\<close>

definition structured_outputs_post_init :: "structured_outputs_params \<Rightarrow> unit result" where
  "structured_outputs_post_init p =
     (if constraint_count p > 1 then Inl ValueError
      else if constraint_count p < 1 then Inl ValueError
      else Inr ())"

definition all_constraints_none :: "structured_outputs_params \<Rightarrow> bool" where
  "all_constraints_none p \<longleftrightarrow>
     so_json p = None \<and> so_regex p = None \<and> so_choice p = None \<and> so_grammar p = None \<and>
     so_json_object p = None \<and> so_structural_tag p = None"

datatype structured_output_option =
    OPT_JSON | OPT_JSON_OBJECT | OPT_REGEX | OPT_CHOICE | OPT_GRAMMAR | OPT_STRUCTURAL_TAG

text \<open>\<open>json.dumps\<close> with its default separators and \<open>ensure_ascii\<close>.\<close>

definition hex_digit :: "nat \<Rightarrow> char" where
  "hex_digit n = ''0123456789abcdef'' ! n"

definition json_escape :: "char \<Rightarrow> string" where
  "json_escape c =
     (let n = of_char c :: nat in
      if n = 34 then [CHR 0x5C, CHR 0x22]
      else if n = 92 then [CHR 0x5C, CHR 0x5C]
      else if n = 10 then CHR 0x5C # ''n''
      else if n = 13 then CHR 0x5C # ''r''
      else if n = 9 then CHR 0x5C # ''t''
      else if n = 12 then CHR 0x5C # ''f''
      else if n = 8 then CHR 0x5C # ''b''
      else if n < 32 \<or> n > 126 then CHR 0x5C # ''u00'' @ [hex_digit (n div 16), hex_digit (n mod 16)]
      else [c])"

definition json_string :: "string \<Rightarrow> string" where
  "json_string s = CHR 0x22 # concat (map json_escape s) @ [CHR 0x22]"

fun nat_digits :: "nat \<Rightarrow> string" where
  "nat_digits n = (if n < 10 then [hex_digit n] else nat_digits (n div 10) @ [hex_digit (n mod 10)])"

declare nat_digits.simps [simp del]

definition json_int :: "int \<Rightarrow> string" where
  "json_int i = (if i < 0 then ''-'' @ nat_digits (nat (- i)) else nat_digits (nat i))"

fun comma_sep :: "string list \<Rightarrow> string" where
  "comma_sep [] = []"
| "comma_sep [s] = s"
| "comma_sep (s # t # ts) = s @ '', '' @ comma_sep (t # ts)"

fun json_dumps :: "py_value \<Rightarrow> string" where
  "json_dumps PyNone = ''null''"
| "json_dumps (PyBool b) = (if b then ''true'' else ''false'')"
| "json_dumps (PyInt i) = json_int i"
| "json_dumps (PyStr s) = json_string s"
| "json_dumps (PyList vs) = ''['' @ comma_sep (map json_dumps vs) @ '']''"
| "json_dumps (PyDict kvs) =
     ''{'' @ comma_sep (map (\<lambda>(k, v). json_string k @ '': '' @ json_dumps v) kvs) @ ''}''"

definition text_or_dumps :: "py_value \<Rightarrow> string" where
  "text_or_dumps v = (case v of PyStr s \<Rightarrow> s | _ \<Rightarrow> json_dumps v)"

definition get_structured_output_key ::
  "structured_outputs_params \<Rightarrow> (structured_output_option \<times> string) result" where
  "get_structured_output_key p =
     (case so_json p of Some v \<Rightarrow> Inr (OPT_JSON, text_or_dumps v) | None \<Rightarrow>
      if so_json_object p = Some True then Inr (OPT_JSON_OBJECT, []) else
      case so_regex p of Some s \<Rightarrow> Inr (OPT_REGEX, s) | None \<Rightarrow>
      case so_choice p of Some v \<Rightarrow> Inr (OPT_CHOICE, text_or_dumps v) | None \<Rightarrow>
      case so_grammar p of Some s \<Rightarrow> Inr (OPT_GRAMMAR, s) | None \<Rightarrow>
      case so_structural_tag p of Some s \<Rightarrow> Inr (OPT_STRUCTURAL_TAG, s) | None \<Rightarrow>
      Inl ValueError)"

text \<open>The grammar a request waits for is filled in by another thread; here it is not yet
  compiled, being compiled, compiled, or failed.\<close>

datatype grammar_state =
    NoGrammar
  | GrammarPending
  | GrammarDone nat
  | GrammarFailed py_error

record structured_output_req =
  sor_params :: structured_outputs_params
  sor_grammar :: grammar_state
  sor_reasoning_ended :: "bool option"
  sor_reasoning_parser_kwargs :: "(string, py_value) dict option"

record repetition_detection_params =
  max_pattern_size :: int
  min_pattern_size :: int
  min_count :: int

definition repetition_detection_post_init :: "repetition_detection_params \<Rightarrow> unit result" where
  "repetition_detection_post_init p =
     (if max_pattern_size p < 0 \<or> min_pattern_size p < 0 \<or> min_pattern_size p > max_pattern_size p
      then Inl ValueError
      else if max_pattern_size p > 0 \<and> min_count p < 2 then Inl ValueError
      else Inr ())"

datatype request_output_kind = CUMULATIVE | DELTA | FINAL_ONLY

record sampling_params =
  sp_n :: int
  sp_seed :: "int option"
  sp_output_kind :: request_output_kind
  sp_max_tokens :: "int option"
  sp_min_tokens :: int
  sp_eos_token_id :: "int option"
  sp_stop_token_ids :: "int list option"
  sp_repetition_detection :: "repetition_detection_params option"
  sp_structured_outputs :: "structured_outputs_params option"
  sp_skip_reading_prefix_cache :: "bool option"
  sp_prompt_logprobs :: "int option"
  sp_prompt_logprob_token_ids :: "int list option"
  sp_prompt_logprob_start :: "int option"
  sp_extra_args :: "(string, py_value) dict option"

record pooling_params =
  pp_skip_reading_prefix_cache :: "bool option"

record lora_request =
  lora_name :: string
  lora_int_id :: int
  lora_path :: string

record placeholder_range =
  pr_offset :: int
  pr_length :: int
  pr_is_embed :: "bool list option"

definition embeds_cumsum :: "placeholder_range \<Rightarrow> int list option" where
  "embeds_cumsum p =
     map_option (\<lambda>m. map (\<lambda>i. \<Sum>b \<leftarrow> take (i + 1) m. of_bool b) [0..<length m])
       (pr_is_embed p)"

definition get_num_embeds :: "placeholder_range \<Rightarrow> int" where
  "get_num_embeds p =
     (case embeds_cumsum p of
        None \<Rightarrow> pr_length p
      | Some cs \<Rightarrow> (if cs \<noteq> [] then last cs else 0))"

definition get_embeds_indices_in_range ::
  "placeholder_range \<Rightarrow> int \<Rightarrow> int \<Rightarrow> (int \<times> int) result" where
  "get_embeds_indices_in_range p start_idx end_idx =
     (case embeds_cumsum p of
        None \<Rightarrow> Inr (start_idx, end_idx)
      | Some cs \<Rightarrow>
          rbind (if start_idx > 0 then py_index cs (start_idx - 1) else Inr 0)
            (\<lambda>s. rbind (if end_idx > 0 then py_index cs (end_idx - 1) else Inr 0)
              (\<lambda>e. Inr (s, e))))"

record mm_feature =
  modality :: string
  mm_identifier :: string
  mm_position :: placeholder_range
  mm_hash :: "string option"

section \<open>Requests\<close>

datatype stop_reason = StopToken int | StopText string

datatype engine_core_event_type = EV_QUEUED | EV_SCHEDULED | EV_PREEMPTED

record prefill_stats =
  ps_num_prompt_tokens :: int
  ps_num_computed_tokens :: int
  ps_num_cached_tokens :: int
  ps_num_local_cached_tokens :: int
  ps_num_external_cached_tokens :: int
  ps_num_cache_creation_tokens :: int

definition prefill_stats_init :: prefill_stats where
  "prefill_stats_init =
     \<lparr>ps_num_prompt_tokens = 0, ps_num_computed_tokens = 0, ps_num_cached_tokens = 0,
      ps_num_local_cached_tokens = 0, ps_num_external_cached_tokens = 0,
      ps_num_cache_creation_tokens = 0\<rparr>"

definition prefill_stats_set :: "int \<Rightarrow> int \<Rightarrow> int \<Rightarrow> prefill_stats \<Rightarrow> prefill_stats result" where
  "prefill_stats_set prompt local_cached external_cached s =
     (let cached = local_cached + external_cached
      in rbind (py_assert (cached \<le> prompt)) (\<lambda>_.
           Inr (s\<lparr>ps_num_prompt_tokens := prompt, ps_num_computed_tokens := prompt - cached,
                  ps_num_cached_tokens := cached, ps_num_local_cached_tokens := local_cached,
                  ps_num_external_cached_tokens := external_cached\<rparr>)))"

definition prefill_stats_finalize :: "int \<Rightarrow> prefill_stats \<Rightarrow> prefill_stats result" where
  "prefill_stats_finalize cached s =
     rbind (py_assert (cached \<ge> 0)) (\<lambda>_.
       Inr (s\<lparr>ps_num_cache_creation_tokens :=
              max 0 (min cached (ps_num_prompt_tokens s) - ps_num_cached_tokens s)\<rparr>))"

record spec_decode_metrics =
  sd_num_spec_tokens :: int
  sd_histogram :: "int list"
  sd_num_draft_tokens :: int
  sd_per_step_accepted :: "int list"
  sd_per_step_drafted :: "int list"

definition spec_decode_metrics_new :: "int \<Rightarrow> spec_decode_metrics" where
  "spec_decode_metrics_new n =
     \<lparr>sd_num_spec_tokens = n, sd_histogram = replicate (nat (n + 1)) 0, sd_num_draft_tokens = 0,
      sd_per_step_accepted = [], sd_per_step_drafted = []\<rparr>"

definition spec_decode_metrics_observe ::
  "int \<Rightarrow> int \<Rightarrow> bool \<Rightarrow> spec_decode_metrics \<Rightarrow> spec_decode_metrics result" where
  "spec_decode_metrics_observe drafted accepted detailed m =
     rbind (py_index (sd_histogram m) accepted) (\<lambda>c.
       let i = (if accepted < 0 then accepted + int (length (sd_histogram m)) else accepted);
           m' = m\<lparr>sd_histogram := (sd_histogram m)[nat i := c + 1],
                  sd_num_draft_tokens := sd_num_draft_tokens m + drafted\<rparr>
       in Inr (if detailed
               then m'\<lparr>sd_per_step_accepted := sd_per_step_accepted m @ [accepted],
                       sd_per_step_drafted := sd_per_step_drafted m @ [drafted]\<rparr>
               else m'))"

record streaming_update =
  su_mm_features :: "mm_feature list"
  su_prompt_token_ids :: "int list option"
  su_max_tokens :: int
  su_arrival_time :: rat
  su_sampling_params :: "sampling_params option"

type_synonym embeds_memo = "((int \<times> int), bytes) dict"

text \<open>A tensor of prompt embeddings: its rows, each a list of raw element values.\<close>

type_synonym embeds = "int list list"

text \<open>\<open>kv_cache_report_mode\<close> is \<open>None\<close> where the constructor does not set the attribute (a pooling
  request).\<close>

record request =
  request_id :: string
  object_id :: nat
  client_index :: int
  priority :: int
  sampling_params :: "sampling_params option"
  pooling_params :: "pooling_params option"
  lora_request :: "lora_request option"
  structured_output_request :: "structured_output_req option"
  arrival_time :: rat
  status :: request_status
  events :: "(engine_core_event_type \<times> rat) list"
  stop_reason :: "stop_reason option"
  kv_transfer_params :: "py_value option"
  ec_transfer_params :: "py_value option"
  kv_cache_report_mode :: "py_value option"
  max_tokens :: int
  prompt_token_ids :: "int list option"
  prompt_embeds :: "embeds option"
  prompt_is_token_ids :: "bool list option"
  prompt_embeds_per_block_hashes :: embeds_memo
  num_prompt_tokens :: nat
  output_token_ids :: "int list"
  all_token_ids :: "int list"
  num_output_placeholders :: int
  num_stale_output_tokens :: int
  drop_stale_output :: bool
  num_in_flight_tokens :: int
  next_decode_eligible_step :: int
  last_sched_seq :: int
  spec_token_ids :: "int list"
  num_computed_tokens :: int
  cache_salt :: "string option"
  mm_features :: "mm_feature list"
  trace_headers :: "(string, string) dict option"
  session_id :: "string option"
  kv_hints :: "py_value option"
  is_prefill_chunk :: bool
  shared_prefix_boundary :: int
  replay_start :: int
  num_nans_in_logits :: int
  num_preemptions :: int
  prefill_stats :: "prefill_stats option"
  spec_decode_metrics :: "spec_decode_metrics option"
  block_hashes :: "bytes list"
  prefix_cache_hit_limit :: "int option"
  resumable :: bool
  streaming_queue :: "streaming_update option list option"
  abort_immediately :: bool

text \<open>A block hasher reads the request, may fill its memo of prompt-embedding digests, and
  returns the hashes of the blocks that are new.\<close>

type_synonym block_hasher = "request \<Rightarrow> (bytes list \<times> embeds_memo) result"

definition streaming_update_from_request :: "request \<Rightarrow> streaming_update option" where
  "streaming_update_from_request r =
     (if \<not> resumable r then None
      else Some \<lparr>su_mm_features = mm_features r, su_prompt_token_ids = prompt_token_ids r,
                 su_max_tokens = max_tokens r, su_arrival_time = arrival_time r,
                 su_sampling_params = sampling_params r\<rparr>)"

definition length_from_prompt_token_ids_or_embeds ::
  "int list option \<Rightarrow> embeds option \<Rightarrow> nat result" where
  "length_from_prompt_token_ids_or_embeds toks embs =
     (let prompt_token_len = map_option length toks; prompt_embeds_len = map_option length embs
      in case prompt_token_len of
           None \<Rightarrow> (case prompt_embeds_len of None \<Rightarrow> Inl ValueError | Some m \<Rightarrow> Inr m)
         | Some n \<Rightarrow>
             (if prompt_embeds_len \<noteq> None \<and> prompt_embeds_len \<noteq> Some n then Inl ValueError
              else Inr n))"

definition structured_output_from_sampling_params ::
  "sampling_params option \<Rightarrow> structured_output_req option" where
  "structured_output_from_sampling_params sp =
     (case sp of
        None \<Rightarrow> None
      | Some p \<Rightarrow>
          (case sp_structured_outputs p of
             None \<Rightarrow> None
           | Some params \<Rightarrow>
               (if all_constraints_none params then None
                else Some \<lparr>sor_params = params, sor_grammar = NoGrammar,
                           sor_reasoning_ended = None, sor_reasoning_parser_kwargs = None\<rparr>)))"

text \<open>A parameter object is always true, so \<open>sampling_params or pooling_params\<close> is the first that
  is set.\<close>

definition get_prefix_cache_hit_limit :: "request \<Rightarrow> int option" where
  "get_prefix_cache_hit_limit r =
     (let skip = (case sampling_params r of
                    Some sp \<Rightarrow> sp_skip_reading_prefix_cache sp
                  | None \<Rightarrow>
                      (case pooling_params r of
                         Some pp \<Rightarrow> pp_skip_reading_prefix_cache pp
                       | None \<Rightarrow> None))
      in if skip = Some True then Some 0
         else case sampling_params r of
                None \<Rightarrow> None
              | Some sp \<Rightarrow>
                  (if sp_prompt_logprobs sp \<noteq> None \<or> sp_prompt_logprob_token_ids sp \<noteq> None
                   then Some (case sp_prompt_logprob_start sp of None \<Rightarrow> 0 | Some k \<Rightarrow> k)
                   else None))"

definition update_block_hashes :: "block_hasher option \<Rightarrow> request \<Rightarrow> request result" where
  "update_block_hashes hasher r =
     (case hasher of
        None \<Rightarrow> Inr r
      | Some h \<Rightarrow>
          rbind (h r) (\<lambda>(hs, memo).
            Inr (r\<lparr>block_hashes := block_hashes r @ hs,
                  prompt_embeds_per_block_hashes := memo\<rparr>)))"

text \<open>The token list the constructor builds: zeros where only embeddings are given.\<close>

definition initial_token_ids :: "int list option \<Rightarrow> bool list option \<Rightarrow> nat \<Rightarrow> int list" where
  "initial_token_ids toks is_tok_mask n =
     (case toks of
        None \<Rightarrow> replicate n 0
      | Some ts \<Rightarrow>
          (case is_tok_mask of
             None \<Rightarrow> ts
           | Some ms \<Rightarrow> map (\<lambda>(t, is_tok). if is_tok then t else 0) (zip ts ms)))"

text \<open>The keyword arguments of the constructor, the hasher apart.\<close>

record request_args =
  a_request_id :: string
  a_prompt_token_ids :: "int list option"
  a_sampling_params :: "sampling_params option"
  a_pooling_params :: "pooling_params option"
  a_client_index :: int
  a_arrival_time :: "rat option"
  a_prompt_embeds :: "embeds option"
  a_prompt_is_token_ids :: "bool list option"
  a_mm_features :: "mm_feature list option"
  a_lora_request :: "lora_request option"
  a_cache_salt :: "string option"
  a_priority :: int
  a_trace_headers :: "(string, string) dict option"
  a_resumable :: bool
  a_session_id :: "string option"
  a_reasoning_ended :: "bool option"
  a_reasoning_parser_kwargs :: "(string, py_value) dict option"
  a_abort_immediately :: bool
  a_kv_hints :: "py_value option"
  a_block_hashes :: "bytes list option"

text \<open>What the parameter objects decide: token limit, first status and the connector
  parameters.\<close>

definition params_setup ::
  "pooling_params option \<Rightarrow> sampling_params option \<Rightarrow> bool \<Rightarrow>
   (int \<times> request_status \<times> py_value option \<times> py_value option \<times> py_value option) result" where
  "params_setup pp sp structured =
     (case pp of
        Some _ \<Rightarrow> Inr (1, WAITING, None, None, None)
      | None \<Rightarrow>
          (case sp of
             None \<Rightarrow> Inl ValueError
           | Some p \<Rightarrow>
               rbind (of_option AssertionError (sp_max_tokens p)) (\<lambda>m.
                 let st = (if structured then WAITING_FOR_STRUCTURED_OUTPUT_GRAMMAR else WAITING)
                 in case sp_extra_args p of
                      None \<Rightarrow> Inr (m, st, None, None, Some (PyStr ''incremental''))
                    | Some ea \<Rightarrow>
                        Inr (m, st, dict_get ea ''kv_transfer_params'',
                             dict_get ea ''ec_transfer_params'',
                             (case dict_get ea ''kv_cache_report_mode'' of
                                None \<Rightarrow> Some (PyStr ''incremental'')
                              | Some v \<Rightarrow> Some v)))))"

definition request_init ::
  "request_args \<Rightarrow> nat \<Rightarrow> rat \<Rightarrow> block_hasher option \<Rightarrow> request result" where
  "request_init a oid now hasher =
     (let so = map_option (\<lambda>q. q\<lparr>sor_reasoning_ended := a_reasoning_ended a,
                                sor_reasoning_parser_kwargs := a_reasoning_parser_kwargs a\<rparr>)
                 (structured_output_from_sampling_params (a_sampling_params a))
      in rbind (params_setup (a_pooling_params a) (a_sampling_params a) (so \<noteq> None))
        (\<lambda>(mt, st, kvp, ecp, mode).
          rbind (length_from_prompt_token_ids_or_embeds (a_prompt_token_ids a) (a_prompt_embeds a))
            (\<lambda>n.
              rbind (update_block_hashes hasher
                \<lparr>request_id = a_request_id a, object_id = oid,
                 client_index = a_client_index a, priority = a_priority a,
                 sampling_params = a_sampling_params a, pooling_params = a_pooling_params a,
                 lora_request = a_lora_request a, structured_output_request = so,
                 arrival_time = (case a_arrival_time a of Some t \<Rightarrow> t | None \<Rightarrow> now),
                 status = st, events = [], stop_reason = None,
                 kv_transfer_params = kvp, ec_transfer_params = ecp,
                 kv_cache_report_mode = mode, max_tokens = mt,
                 prompt_token_ids = a_prompt_token_ids a, prompt_embeds = a_prompt_embeds a,
                 prompt_is_token_ids = a_prompt_is_token_ids a,
                 prompt_embeds_per_block_hashes = [], num_prompt_tokens = n,
                 output_token_ids = [],
                 all_token_ids =
                   initial_token_ids (a_prompt_token_ids a) (a_prompt_is_token_ids a) n,
                 num_output_placeholders = 0, num_stale_output_tokens = 0,
                 drop_stale_output = False, num_in_flight_tokens = 0,
                 next_decode_eligible_step = 0, last_sched_seq = 0, spec_token_ids = [],
                 num_computed_tokens = 0, cache_salt = a_cache_salt a,
                 mm_features = (case a_mm_features a of Some fs \<Rightarrow> fs | None \<Rightarrow> []),
                 trace_headers = a_trace_headers a, session_id = a_session_id a,
                 kv_hints = a_kv_hints a, is_prefill_chunk = False, shared_prefix_boundary = 0,
                 replay_start = 0, num_nans_in_logits = 0, num_preemptions = 0,
                 prefill_stats = Some prefill_stats_init, spec_decode_metrics = None,
                 block_hashes = (case a_block_hashes a of Some hs \<Rightarrow> hs | None \<Rightarrow> []),
                 prefix_cache_hit_limit = None, resumable = a_resumable a,
                 streaming_queue = None, abort_immediately = a_abort_immediately a\<rparr>)
              (\<lambda>r. Inr (r\<lparr>prefix_cache_hit_limit := get_prefix_cache_hit_limit r\<rparr>)))))"

text \<open>\<open>append_output_token_ids\<close> takes one token or a list; one token is a list of one.\<close>

definition append_output_token_ids ::
  "block_hasher option \<Rightarrow> int list \<Rightarrow> request \<Rightarrow> request result" where
  "append_output_token_ids hasher toks r =
     update_block_hashes hasher
       (r\<lparr>output_token_ids := output_token_ids r @ toks,
          all_token_ids := all_token_ids r @ toks\<rparr>)"

definition num_tokens :: "request \<Rightarrow> int" where
  "num_tokens r = int (length (all_token_ids r))"

definition num_tokens_with_spec :: "request \<Rightarrow> int" where
  "num_tokens_with_spec r = int (length (all_token_ids r)) + int (length (spec_token_ids r))"

definition num_output_tokens :: "request \<Rightarrow> int" where
  "num_output_tokens r = int (length (output_token_ids r))"

definition truncate_block_hashes :: "int \<Rightarrow> int \<Rightarrow> request \<Rightarrow> request result" where
  "truncate_block_hashes hash_block_size num_hash_lookahead_tokens r =
     (if hash_block_size = 0 then Inl ZeroDivisionError
      else let num_valid_hashes =
                 max 0 (num_tokens r - num_hash_lookahead_tokens) div hash_block_size
           in Inr (r\<lparr>block_hashes :=
                       take (py_bound (length (block_hashes r)) num_valid_hashes) (block_hashes r),
                     prompt_embeds_per_block_hashes := []\<rparr>))"

definition use_structured_output :: "request \<Rightarrow> bool" where
  "use_structured_output r \<longleftrightarrow> structured_output_request r \<noteq> None"

definition num_encoder_inputs :: "request \<Rightarrow> nat" where
  "num_encoder_inputs r = length (mm_features r)"

definition has_encoder_inputs :: "request \<Rightarrow> bool" where
  "has_encoder_inputs r \<longleftrightarrow> num_encoder_inputs r > 0"

definition get_max_cache_hit_length :: "request \<Rightarrow> int option \<Rightarrow> int" where
  "get_max_cache_hit_length r upper =
     fold (\<lambda>limit acc. case limit of None \<Rightarrow> acc | Some l \<Rightarrow> min acc l)
       [prefix_cache_hit_limit r, upper] (num_tokens r - 1)"

definition skip_reading_external_kv :: "request \<Rightarrow> bool" where
  "skip_reading_external_kv r \<longleftrightarrow> prefix_cache_hit_limit r \<noteq> None"

definition is_finished :: "request \<Rightarrow> bool" where
  "is_finished r = status_is_finished (status r)"

definition get_finished_reason :: "request \<Rightarrow> finish_reason option" where
  "get_finished_reason r = status_finished_reason (status r)"

definition get_num_encoder_embeds :: "request \<Rightarrow> int \<Rightarrow> int result" where
  "get_num_encoder_embeds r input_id =
     rbind (py_assert (input_id < int (length (mm_features r)))) (\<lambda>_.
       rbind (py_index (mm_features r) input_id) (\<lambda>f. Inr (get_num_embeds (mm_position f))))"

text \<open>\<open>now\<close> is the monotonic clock, read when no timestamp is given.\<close>

definition record_event ::
  "engine_core_event_type \<Rightarrow> rat option \<Rightarrow> rat \<Rightarrow> request \<Rightarrow> request" where
  "record_event ev timestamp now r =
     r\<lparr>events := events r @ [(ev, case timestamp of None \<Rightarrow> now | Some t \<Rightarrow> t)]\<rparr>"

definition request_take_events ::
  "request \<Rightarrow> (engine_core_event_type \<times> rat) list option \<times> request" where
  "request_take_events r =
     (if events r = [] then (None, r) else (Some (events r), r\<lparr>events := []\<rparr>))"

definition take_prefill_stats :: "request \<Rightarrow> prefill_stats option \<times> request" where
  "take_prefill_stats r =
     (case prefill_stats r of
        None \<Rightarrow> (None, r)
      | Some s \<Rightarrow> (Some s, r\<lparr>prefill_stats := None\<rparr>))"

text \<open>\<open>str.__lt__\<close> and \<open>Request.__lt__\<close>: priority, then arrival, then the request id, then the
  object.\<close>

fun string_less :: "string \<Rightarrow> string \<Rightarrow> bool" where
  "string_less s [] = False"
| "string_less [] (c # cs) = True"
| "string_less (b # bs) (c # cs) =
     (if b = c then string_less bs cs else (of_char b :: nat) < of_char c)"

definition request_lt :: "request \<Rightarrow> request \<Rightarrow> bool" where
  "request_lt r s =
     (if priority r \<noteq> priority s then priority r < priority s
      else if arrival_time r \<noteq> arrival_time s then arrival_time r < arrival_time s
      else if request_id r \<noteq> request_id s then string_less (request_id r) (request_id s)
      else object_id r < object_id s)"

section \<open>Lemmas\<close>

lemma status_is_finished_iff:
  "status_is_finished s \<longleftrightarrow>
     s \<in> {FINISHED_STOPPED, FINISHED_LENGTH_CAPPED, FINISHED_ABORTED, FINISHED_IGNORED,
          FINISHED_ERROR, FINISHED_REPETITION}"
  by (cases s) (simp_all add: status_is_finished_def less_request_status_def)

lemma status_finished_reason_Some_iff:
  "status_finished_reason s \<noteq> None \<longleftrightarrow> status_is_finished s \<or> s = WAITING_FOR_STREAMING_REQ"
  by (cases s) (simp_all add: status_is_finished_iff)

subsection \<open>The order of requests\<close>

lemma string_less_irrefl [simp]: "\<not> string_less s s"
  by (induction s) simp_all

lemma string_less_total: "s \<noteq> t \<Longrightarrow> string_less s t \<or> string_less t s"
proof (induction s t rule: string_less.induct)
  case (1 s)
  then show ?case by (cases s) simp_all
next
  case (3 b bs c cs)
  have "b \<noteq> c \<Longrightarrow> (of_char b :: nat) \<noteq> of_char c"
    by simp
  with 3 show ?case
    by (cases "b = c") (use linorder_neqE_nat [of "of_char b" "of_char c"] in auto)
qed simp

lemma string_less_trans: "string_less s t \<Longrightarrow> string_less t u \<Longrightarrow> string_less s u"
proof (induction s t arbitrary: u rule: string_less.induct)
  case (2 c cs)
  then show ?case by (cases u) simp_all
next
  case (3 b bs c cs)
  then show ?case by (cases u) (auto split: if_splits)
qed simp

lemma request_lt_irrefl [simp]: "\<not> request_lt r r"
  by (simp add: request_lt_def)

lemma request_lt_trans: "request_lt r s \<Longrightarrow> request_lt s t \<Longrightarrow> request_lt r t"
  using string_less_trans [of "request_id r" "request_id s" "request_id t"]
  by (auto simp: request_lt_def split: if_splits)

lemma request_lt_total: "object_id r \<noteq> object_id s \<Longrightarrow> request_lt r s \<or> request_lt s r"
  using string_less_total [of "request_id r" "request_id s"]
  by (auto simp: request_lt_def)

lemma request_lt_asym: "request_lt r s \<Longrightarrow> \<not> request_lt s r"
  using request_lt_trans request_lt_irrefl by blast

subsection \<open>Tokens\<close>

lemma update_block_hashes_tokens:
  assumes "update_block_hashes hasher r = Inr r'"
  shows "all_token_ids r' = all_token_ids r" "output_token_ids r' = output_token_ids r"
    "num_prompt_tokens r' = num_prompt_tokens r" "mm_features r' = mm_features r"
    "status r' = status r" "sampling_params r' = sampling_params r" "request_id r' = request_id r"
    "prefix_cache_hit_limit r' = prefix_cache_hit_limit r" "max_tokens r' = max_tokens r"
    "pooling_params r' = pooling_params r"
  using assms by (auto simp: update_block_hashes_def rbind_Inr_iff split: option.splits prod.splits)

lemma update_block_hashes_frame:
  assumes "update_block_hashes hasher r = Inr r'"
  shows "num_computed_tokens r' = num_computed_tokens r"
    "num_output_placeholders r' = num_output_placeholders r" "stop_reason r' = stop_reason r"
  using assms by (auto simp: update_block_hashes_def rbind_Inr_iff split: option.splits prod.splits)

text \<open>The tokens of a request are its prompt followed by its output.\<close>

definition tokens_wf :: "request \<Rightarrow> bool" where
  "tokens_wf r \<longleftrightarrow>
     length (all_token_ids r) = num_prompt_tokens r + length (output_token_ids r) \<and>
     drop (num_prompt_tokens r) (all_token_ids r) = output_token_ids r"

lemma length_initial_token_ids:
  assumes "length_from_prompt_token_ids_or_embeds toks embs = Inr n"
    and "\<And>ts ms. toks = Some ts \<Longrightarrow> tmask = Some ms \<Longrightarrow> length ms = length ts"
  shows "length (initial_token_ids toks tmask n) = n"
  using assms
  by (auto simp: initial_token_ids_def length_from_prompt_token_ids_or_embeds_def Let_def
      split: option.splits if_splits)

lemma get_prefix_cache_hit_limit_update [simp]:
  "get_prefix_cache_hit_limit (r\<lparr>prefix_cache_hit_limit := l\<rparr>) = get_prefix_cache_hit_limit r"
  by (simp add: get_prefix_cache_hit_limit_def cong: option.case_cong)

lemma request_init_Inr:
  assumes "request_init a oid now hasher = Inr r"
  obtains n where
    "length_from_prompt_token_ids_or_embeds (a_prompt_token_ids a) (a_prompt_embeds a) = Inr n"
    "num_prompt_tokens r = n" "output_token_ids r = []"
    "all_token_ids r = initial_token_ids (a_prompt_token_ids a) (a_prompt_is_token_ids a) n"
    "request_id r = a_request_id a"
    "prefix_cache_hit_limit r = get_prefix_cache_hit_limit r"
proof -
  from assms obtain n r0 r1 where
    n: "length_from_prompt_token_ids_or_embeds (a_prompt_token_ids a) (a_prompt_embeds a) = Inr n"
    and up: "update_block_hashes hasher r0 = Inr r1"
    and r: "r = r1\<lparr>prefix_cache_hit_limit := get_prefix_cache_hit_limit r1\<rparr>"
    and r0: "num_prompt_tokens r0 = n" "output_token_ids r0 = []" "request_id r0 = a_request_id a"
      "all_token_ids r0 = initial_token_ids (a_prompt_token_ids a) (a_prompt_is_token_ids a) n"
    unfolding request_init_def Let_def by (fastforce simp: rbind_Inr_iff split: prod.splits)
  show thesis
    by (rule that [OF n]) (simp_all add: r r0 update_block_hashes_tokens [OF up])
qed

lemma request_init_tokens_wf:
  assumes "request_init a oid now hasher = Inr r"
    and "\<And>ts ms. a_prompt_token_ids a = Some ts \<Longrightarrow> a_prompt_is_token_ids a = Some ms \<Longrightarrow>
           length ms = length ts"
  shows "tokens_wf r"
  using assms(1)
proof (rule request_init_Inr)
  fix n
  assume n: "length_from_prompt_token_ids_or_embeds (a_prompt_token_ids a) (a_prompt_embeds a) = Inr n"
    and r: "num_prompt_tokens r = n" "output_token_ids r = []"
      "all_token_ids r = initial_token_ids (a_prompt_token_ids a) (a_prompt_is_token_ids a) n"
  show ?thesis
    using length_initial_token_ids [OF n assms(2)] r by (simp add: tokens_wf_def)
qed

lemma append_output_tokens:
  assumes "append_output_token_ids hasher toks r = Inr r'"
  shows "all_token_ids r' = all_token_ids r @ toks"
    and "output_token_ids r' = output_token_ids r @ toks"
    and "num_prompt_tokens r' = num_prompt_tokens r"
  using update_block_hashes_tokens [OF assms [unfolded append_output_token_ids_def]] by simp_all

lemma append_output_tokens_wf:
  "append_output_token_ids hasher toks r = Inr r' \<Longrightarrow> tokens_wf r \<Longrightarrow> tokens_wf r'"
  by (auto simp: tokens_wf_def append_output_tokens)

lemma get_max_cache_hit_length_less: "get_max_cache_hit_length r u < num_tokens r"
  by (auto simp: get_max_cache_hit_length_def split: option.splits)

subsection \<open>Placeholder ranges\<close>

lemma get_num_embeds_mask:
  "pr_is_embed p = Some m \<Longrightarrow> get_num_embeds p = int (length (filter id m))"
proof -
  have count: "(\<Sum>b \<leftarrow> m. of_bool b) = int (length (filter id m))" for m
    by (induction m) simp_all
  assume "pr_is_embed p = Some m"
  then show ?thesis
    by (cases "m = []") (simp_all add: get_num_embeds_def embeds_cumsum_def last_map count)
qed

lemma get_num_embeds_nonneg: "0 \<le> pr_length p \<Longrightarrow> 0 \<le> get_num_embeds p"
  by (cases "pr_is_embed p")
    (simp add: get_num_embeds_def embeds_cumsum_def, simp add: get_num_embeds_mask)

section \<open>Concrete requests\<close>

definition sample_params :: sampling_params where
  "sample_params =
     \<lparr>sp_n = 1, sp_seed = None, sp_output_kind = CUMULATIVE, sp_max_tokens = Some 16,
      sp_min_tokens = 0, sp_eos_token_id = Some 2, sp_stop_token_ids = None,
      sp_repetition_detection = None, sp_structured_outputs = None,
      sp_skip_reading_prefix_cache = None, sp_prompt_logprobs = None,
      sp_prompt_logprob_token_ids = None, sp_prompt_logprob_start = None, sp_extra_args = None\<rparr>"

definition sample_args :: "int list \<Rightarrow> request_args" where
  "sample_args toks =
     \<lparr>a_request_id = ''req'', a_prompt_token_ids = Some toks, a_sampling_params = Some sample_params,
      a_pooling_params = None, a_client_index = 0, a_arrival_time = Some 0, a_prompt_embeds = None,
      a_prompt_is_token_ids = None, a_mm_features = None, a_lora_request = None,
      a_cache_salt = Some ''s'', a_priority = 0, a_trace_headers = None, a_resumable = False,
      a_session_id = None, a_reasoning_ended = None, a_reasoning_parser_kwargs = None,
      a_abort_immediately = False, a_kv_hints = None, a_block_hashes = None\<rparr>"

text \<open>A request without a hasher, by object, priority and arrival time.\<close>

definition plain_request :: "nat \<Rightarrow> int \<Rightarrow> rat \<Rightarrow> int list \<Rightarrow> request" where
  "plain_request oid prio arrival toks =
     (case request_init ((sample_args toks)\<lparr>a_priority := prio, a_arrival_time := Some arrival\<rparr>) oid 0
             None of
        Inr r \<Rightarrow> r | Inl _ \<Rightarrow> undefined)"



end
