(* ===== verification/Block_Hash.thy ===== *)
theory Block_Hash
  imports Request_Model
begin

text \<open>
  Block hashes of prefix caching (\<open>vllm/v1/core/kv_cache_utils.py\<close>): packing a hash with its
  group id, the extra keys of a block, the chained hash of a request's blocks, and views of the
  hashes at a coarser block size. The hash function, the seed hash \<open>NONE_HASH\<close> and the digest
  of a tensor slice are the fields of \<open>hash_env\<close>.

  The main results: the incremental hasher computes the reference chain \<open>chain_hash\<close>; equal
  chained hashes mean equal prefixes unless the hash function collides.
\<close>

unbundle bit_operations_syntax

section \<open>Keys\<close>

definition to_bytes4 :: "int \<Rightarrow> bytes result" where
  "to_bytes4 i =
     (if 0 \<le> i \<and> i < 2 ^ 32
      then Inr [word_of_int (i div 2 ^ 24), word_of_int (i div 2 ^ 16), word_of_int (i div 2 ^ 8),
                word_of_int i]
      else Inl OverflowError)"

definition from_bytes :: "bytes \<Rightarrow> int" where
  "from_bytes bs = foldl (\<lambda>acc b. acc * 256 + uint b) 0 bs"

definition make_block_hash_with_group_id :: "bytes \<Rightarrow> int \<Rightarrow> bytes result" where
  "make_block_hash_with_group_id block_hash group_id =
     rbind (to_bytes4 group_id) (\<lambda>g. Inr (block_hash @ g))"

definition get_block_hash :: "bytes \<Rightarrow> bytes" where
  "get_block_hash key = py_slice key 0 (- 4)"

definition get_group_id :: "bytes \<Rightarrow> int" where
  "get_group_id key = from_bytes (py_slice key (- 4) (int (length key)))"

datatype external_block_hash = HashBytes bytes | HashInt int

definition maybe_convert_block_hash :: "bool \<Rightarrow> bytes \<Rightarrow> external_block_hash" where
  "maybe_convert_block_hash use_int hash_bytes =
     (if \<not> use_int then HashBytes hash_bytes
      else HashInt (from_bytes hash_bytes AND (push_bit 64 1 - 1)))"

section \<open>Extra keys\<close>

datatype extra_key =
    LoraKey string string
  | MmKey string int
  | SaltKey string
  | EmbedsKey bytes

datatype hash_extra =
    Extra "extra_key list option"
  | ExtraAhead "extra_key list option" "int list"

type_synonym hash_input = "bytes \<times> int list \<times> hash_extra"

record hash_env =
  hash_fn :: "hash_input \<Rightarrow> bytes"
  none_hash :: bytes
  embeds_digest :: "embeds \<Rightarrow> bytes"

definition mm_end :: "mm_feature \<Rightarrow> int" where
  "mm_end f = pr_offset (mm_position f) + pr_length (mm_position f)"

abbreviation mm_offset :: "mm_feature \<Rightarrow> int" where
  "mm_offset f \<equiv> pr_offset (mm_position f)"

function mm_keys_loop ::
  "mm_feature list \<Rightarrow> int \<Rightarrow> int \<Rightarrow> nat \<Rightarrow> extra_key list \<Rightarrow> extra_key list \<times> nat" where
  "mm_keys_loop fs start_token_idx end_token_idx i extra_keys =
     (if i < length fs then
        let f = fs ! i; off = mm_offset f; len = pr_length (mm_position f) in
        if end_token_idx > off then
          if start_token_idx \<ge> off + len
          then mm_keys_loop fs start_token_idx end_token_idx (i + 1) extra_keys
          else
            let extra_keys' = extra_keys @ [MmKey (mm_identifier f) (off - start_token_idx)] in
            if end_token_idx \<ge> off + len
            then mm_keys_loop fs start_token_idx end_token_idx (i + 1) extra_keys'
            else (extra_keys', i)
        else (extra_keys, i)
      else (extra_keys, i))"
  by pat_completeness auto
termination by (relation "measure (\<lambda>(fs, s, e, i, ks). length fs - i)") auto

declare mm_keys_loop.simps [simp del]

definition gen_mm_extra_hash_keys ::
  "request \<Rightarrow> int \<Rightarrow> int \<Rightarrow> int \<Rightarrow> (extra_key list \<times> int) result" where
  "gen_mm_extra_hash_keys r start_token_idx end_token_idx start_mm_idx =
     (let fs = mm_features r in
      if fs = [] then Inr ([], start_mm_idx)
      else if mm_end (last fs) \<le> start_token_idx then Inr ([], start_mm_idx)
      else rbind (if start_mm_idx < 0
                  then rbind (py_assert (- start_mm_idx \<le> int (length fs)))
                         (\<lambda>_. Inr (int (length fs) + start_mm_idx))
                  else Inr start_mm_idx)
             (\<lambda>i. let (ks, j) = mm_keys_loop fs start_token_idx end_token_idx (nat i) []
                  in Inr (ks, int j)))"

definition gen_lora_extra_hash_keys :: "request \<Rightarrow> extra_key list" where
  "gen_lora_extra_hash_keys r =
     (case lora_request r of None \<Rightarrow> [] | Some l \<Rightarrow> [LoraKey (lora_name l) (lora_path l)])"

definition gen_prompt_embeds_extra_hash_keys ::
  "hash_env \<Rightarrow> request \<Rightarrow> embeds_memo \<Rightarrow> int \<Rightarrow> int \<Rightarrow> extra_key list \<times> embeds_memo" where
  "gen_prompt_embeds_extra_hash_keys env r memo start_token_idx end_token_idx =
     (case prompt_embeds r of
        None \<Rightarrow> ([], memo)
      | Some embs \<Rightarrow>
          (case dict_get memo (start_token_idx, end_token_idx) of
             Some h \<Rightarrow> ([EmbedsKey h], memo)
           | None \<Rightarrow>
               (let h = embeds_digest env (py_slice embs start_token_idx end_token_idx)
                in ([EmbedsKey h], dict_set (start_token_idx, end_token_idx) h memo))))"

definition cache_salt_keys :: "request \<Rightarrow> int \<Rightarrow> extra_key list" where
  "cache_salt_keys r start_token_idx =
     (case cache_salt r of
        Some s \<Rightarrow> (if start_token_idx = 0 \<and> s \<noteq> [] then [SaltKey s] else [])
      | None \<Rightarrow> [])"

definition generate_block_hash_extra_keys ::
  "hash_env \<Rightarrow> request \<Rightarrow> embeds_memo \<Rightarrow> int \<Rightarrow> int \<Rightarrow> int \<Rightarrow>
   (extra_key list option \<times> int \<times> embeds_memo) result" where
  "generate_block_hash_extra_keys env r memo start_token_idx end_token_idx start_mm_idx =
     rbind (gen_mm_extra_hash_keys r start_token_idx end_token_idx start_mm_idx)
       (\<lambda>(mm_extra_keys, new_start_mm_idx).
          let (prompt_embeds_keys, memo') =
                gen_prompt_embeds_extra_hash_keys env r memo start_token_idx end_token_idx;
              extra_keys = gen_lora_extra_hash_keys r @ mm_extra_keys @
                cache_salt_keys r start_token_idx @ prompt_embeds_keys
          in Inr (if extra_keys = [] then None else Some extra_keys, new_start_mm_idx, memo'))"

datatype event_key = EvText string | EvMm string int | EvDigest bytes

fun untag_key :: "extra_key \<Rightarrow> event_key" where
  "untag_key (LoraKey nm path) = EvText nm"
| "untag_key (MmKey ident off) = EvMm ident off"
| "untag_key (SaltKey s) = EvText s"
| "untag_key (EmbedsKey h) = EvDigest h"

definition to_event_extra_keys ::
  "extra_key list option list option \<Rightarrow> event_key list option list option" where
  "to_event_extra_keys extra_keys =
     (case extra_keys of
        None \<Rightarrow> None
      | Some ks \<Rightarrow> (if ks = [] then None else Some (map (map_option (map untag_key)) ks)))"

section \<open>Hashing a request\<close>

definition hash_block_tokens :: "hash_env \<Rightarrow> bytes option \<Rightarrow> int list \<Rightarrow> hash_extra \<Rightarrow> bytes" where
  "hash_block_tokens env parent_block_hash toks extra_keys =
     (let parent = (case parent_block_hash of
                      None \<Rightarrow> none_hash env
                    | Some h \<Rightarrow> (if h = [] then none_hash env else h))
      in hash_fn env (parent, toks, extra_keys))"

text \<open>Python's \<open>bisect.bisect_left\<close> with a key.\<close>

function bisect_left_loop :: "('a \<Rightarrow> int) \<Rightarrow> 'a list \<Rightarrow> int \<Rightarrow> nat \<Rightarrow> nat \<Rightarrow> nat" where
  "bisect_left_loop key xs x lo hi =
     (if lo < hi then
        let m = (lo + hi) div 2 in
        if key (xs ! m) < x then bisect_left_loop key xs x (m + 1) hi
        else bisect_left_loop key xs x lo m
      else lo)"
  by pat_completeness auto
termination by (relation "measure (\<lambda>(key, xs, x, lo, hi). hi - lo)") auto

declare bisect_left_loop.simps [simp del]

definition bisect_left :: "('a \<Rightarrow> int) \<Rightarrow> 'a list \<Rightarrow> int \<Rightarrow> nat" where
  "bisect_left key xs x = bisect_left_loop key xs x 0 (length xs)"

definition get_mm_features_in_window :: "mm_feature list \<Rightarrow> int \<Rightarrow> int \<Rightarrow> nat \<times> nat" where
  "get_mm_features_in_window fs start_idx end_idx =
     (bisect_left mm_end fs (start_idx + 1), bisect_left mm_offset fs end_idx)"

fun rewind_mm_idx :: "mm_feature list \<Rightarrow> int \<Rightarrow> nat \<Rightarrow> nat result" where
  "rewind_mm_idx fs end_token_idx 0 = Inr 0"
| "rewind_mm_idx fs end_token_idx (Suc i) =
     rbind (py_index fs (int i)) (\<lambda>f.
       if mm_end f \<le> end_token_idx then Inr (Suc i) else rewind_mm_idx fs end_token_idx i)"

definition generate_lookahead_block_hash_extra_keys ::
  "hash_env \<Rightarrow> request \<Rightarrow> embeds_memo \<Rightarrow> int \<Rightarrow> int \<Rightarrow> int \<Rightarrow> int \<Rightarrow>
   (extra_key list option \<times> int \<times> embeds_memo) result" where
  "generate_lookahead_block_hash_extra_keys env r memo start_token_idx end_token_idx
     hash_end_token_idx start_mm_idx =
     rbind (generate_block_hash_extra_keys env r memo start_token_idx hash_end_token_idx
              start_mm_idx)
       (\<lambda>(extra_keys, mm_idx, memo').
          if mm_idx > 0
          then rbind (rewind_mm_idx (mm_features r) end_token_idx (nat mm_idx))
                 (\<lambda>j. Inr (extra_keys, int j, memo'))
          else Inr (extra_keys, mm_idx, memo'))"

text \<open>The extra keys of one block as the hasher's loop picks them, with \<open>l\<close> lookahead tokens.\<close>

definition block_extra_keys ::
  "hash_env \<Rightarrow> int \<Rightarrow> request \<Rightarrow> embeds_memo \<Rightarrow> int \<Rightarrow> int \<Rightarrow> int \<Rightarrow>
   (hash_extra \<times> int \<times> embeds_memo) result" where
  "block_extra_keys env l r memo start_token_idx end_token_idx mm_idx =
     (if l \<noteq> 0 then
        rbind (generate_lookahead_block_hash_extra_keys env r memo start_token_idx end_token_idx
                 (end_token_idx + l) mm_idx)
          (\<lambda>(ks, mm_idx', memo').
             if l = 1
             then rbind (py_index (all_token_ids r) end_token_idx)
                    (\<lambda>t. Inr (ExtraAhead ks [t], mm_idx', memo'))
             else Inr (ExtraAhead ks (py_slice (all_token_ids r) end_token_idx (end_token_idx + l)),
                       mm_idx', memo'))
      else
        rbind (generate_block_hash_extra_keys env r memo start_token_idx end_token_idx mm_idx)
          (\<lambda>(ks, mm_idx', memo'). Inr (Extra ks, mm_idx', memo')))"

text \<open>The \<open>while True\<close> loop of \<open>request_block_hasher\<close>. A block size that is not positive would
  keep it running.\<close>

function hasher_loop ::
  "hash_env \<Rightarrow> int \<Rightarrow> int \<Rightarrow> request \<Rightarrow> int \<Rightarrow> int \<Rightarrow> int \<Rightarrow> bytes option \<Rightarrow> embeds_memo \<Rightarrow> bytes list \<Rightarrow>
   (bytes list \<times> embeds_memo) result" where
  "hasher_loop env bs l r n start_token_idx mm_idx prev memo acc =
     (let end_token_idx = start_token_idx + bs in
      if end_token_idx > n then Inr (acc, memo)
      else if bs \<le> 0 then Inl NonTermination
      else rbind (block_extra_keys env l r memo start_token_idx end_token_idx mm_idx)
        (\<lambda>(extra, mm_idx', memo').
           let block_hash = hash_block_tokens env prev
                 (py_slice (all_token_ids r) start_token_idx end_token_idx) extra
           in hasher_loop env bs l r n end_token_idx mm_idx' (Some block_hash) memo'
                (acc @ [block_hash])))"
  by pat_completeness auto
termination
  by (relation "measure (\<lambda>(env, bs, l, r, n, s, mm, prev, memo, acc). nat (n - s))") auto

declare hasher_loop.simps [simp del]

definition request_block_hasher :: "hash_env \<Rightarrow> int \<Rightarrow> int \<Rightarrow> block_hasher" where
  "request_block_hasher env hash_block_size num_hash_lookahead_tokens r =
     (let start_token_idx = int (length (block_hashes r)) * hash_block_size;
          n = num_tokens r - num_hash_lookahead_tokens
      in if start_token_idx + hash_block_size > n
         then Inr ([], prompt_embeds_per_block_hashes r)
         else
           let mm_idx = (if start_token_idx > 0 \<and> mm_features r \<noteq> [] \<and>
                            mm_end (last (mm_features r)) > start_token_idx
                         then int (fst (get_mm_features_in_window (mm_features r) start_token_idx
                                          (start_token_idx + hash_block_size)))
                         else 0);
               prev = (if block_hashes r \<noteq> [] then Some (last (block_hashes r)) else None)
           in hasher_loop env hash_block_size num_hash_lookahead_tokens r n start_token_idx mm_idx
                prev (prompt_embeds_per_block_hashes r) [])"

record prefix_hash_config =
  phc_hash_block_size :: int
  phc_none_hash :: bytes
  phc_num_lookahead_tokens :: int

definition frontend_block_hashes ::
  "bytes list option \<Rightarrow> int list option \<Rightarrow> prefix_hash_config option \<Rightarrow>
   bytes list option result" where
  "frontend_block_hashes hashes prompt cfg =
     (case hashes of
        None \<Rightarrow> Inr None
      | Some hs \<Rightarrow>
          (let prompt_len = (case prompt of None \<Rightarrow> 0 | Some ts \<Rightarrow> int (length ts))
           in case cfg of
                None \<Rightarrow> Inr None
              | Some c \<Rightarrow>
                  (if phc_hash_block_size c = 0 then Inl ZeroDivisionError
                   else if int (length hs) \<noteq>
                             max (prompt_len - phc_num_lookahead_tokens c) 0 div
                               phc_hash_block_size c
                   then Inr None
                   else Inr (Some hs))))"

section \<open>Views at a coarser block size\<close>

record block_hash_view =
  view_hashes :: "bytes list"
  scale_factor :: int

definition block_hash_view_init :: "bytes list \<Rightarrow> int \<Rightarrow> int \<Rightarrow> block_hash_view result" where
  "block_hash_view_init hashes hash_block_size target_block_size =
     (if hash_block_size = 0 then Inl ZeroDivisionError
      else rbind (py_assert (target_block_size mod hash_block_size = 0)) (\<lambda>_.
        Inr \<lparr>view_hashes = hashes, scale_factor = target_block_size div hash_block_size\<rparr>))"

definition view_len :: "block_hash_view \<Rightarrow> int result" where
  "view_len v =
     (if scale_factor v = 0 then Inl ZeroDivisionError
      else let n = int (length (view_hashes v)) div scale_factor v
           in if n < 0 then Inl ValueError else Inr n)"

definition view_get :: "block_hash_view \<Rightarrow> int \<Rightarrow> bytes result" where
  "view_get v i = py_index (view_hashes v) ((i + 1) * scale_factor v - 1)"

fun rmap :: "('a \<Rightarrow> 'b result) \<Rightarrow> 'a list \<Rightarrow> 'b list result" where
  "rmap f [] = Inr []"
| "rmap f (x # xs) = rbind (f x) (\<lambda>y. rbind (rmap f xs) (\<lambda>ys. Inr (y # ys)))"

definition view_iter :: "block_hash_view \<Rightarrow> bytes list result" where
  "view_iter v = rbind (view_len v) (\<lambda>n. rmap (view_get v) (py_range 0 n))"

text \<open>\<open>view[i:j]\<close> with unit step: \<open>slice.indices\<close> clamps both ends to the length of the view.\<close>

definition view_slice :: "block_hash_view \<Rightarrow> int \<Rightarrow> int \<Rightarrow> bytes list result" where
  "view_slice v i j =
     rbind (view_len v) (\<lambda>n.
       rmap (view_get v) (py_range (int (py_bound (nat n) i)) (int (py_bound (nat n) j))))"

datatype block_hash_list = RawHashes "bytes list" | HashView block_hash_view

definition resolve_block_hashes ::
  "block_hash_list \<Rightarrow> int \<Rightarrow> int \<Rightarrow> bool \<Rightarrow> int option \<Rightarrow> block_hash_list result" where
  "resolve_block_hashes hashes hash_block_size block_size fine_grained alignment =
     (if block_size = hash_block_size then Inr hashes
      else case hashes of
        HashView v \<Rightarrow>
          (if hash_block_size = 0 then Inl ZeroDivisionError
           else rbind (py_assert (scale_factor v = block_size div hash_block_size))
                  (\<lambda>_. Inr hashes))
      | RawHashes hs \<Rightarrow>
          rbind (case alignment of
                   None \<Rightarrow> Inr False
                 | Some a \<Rightarrow>
                     (if fine_grained \<and> a < block_size
                      then if a = 0 then Inl ZeroDivisionError else Inr (block_size mod a = 0)
                      else Inr False))
            (\<lambda>keep.
               if keep then Inr hashes
               else if hash_block_size = 0 then Inl ZeroDivisionError
               else rbind (py_assert (block_size mod hash_block_size = 0)) (\<lambda>_.
                 rbind (block_hash_view_init hs hash_block_size block_size)
                   (\<lambda>v. Inr (HashView v)))))"

definition eagle_proof_margin :: "int \<Rightarrow> int \<Rightarrow> bool \<Rightarrow> int" where
  "eagle_proof_margin block_size hash_block_size fine_grained_lookup =
     (if fine_grained_lookup \<and> block_size > hash_block_size then hash_block_size else block_size)"

section \<open>Packing group ids\<close>

lemma uint_byte: "uint (word_of_int i :: 8 word) = i mod 256"
  by (simp add: uint_word_of_int)

lemma big_endian_4:
  fixes i :: int
  assumes "0 \<le> i" "i < 2 ^ 32"
  shows "(((i div 2 ^ 24 mod 256) * 256 + i div 2 ^ 16 mod 256) * 256 + i div 2 ^ 8 mod 256) * 256 +
           i mod 256 = i"
proof -
  have top: "i div 2 ^ 24 mod 256 = i div 2 ^ 24"
  proof -
    have "0 \<le> i div 2 ^ 24" "i div 2 ^ 24 < 256"
      using assms by simp_all
    then show ?thesis by (simp only: mod_pos_pos_trivial)
  qed
  have step: "i div 2 ^ 24 = i div 2 ^ 16 div 256" "i div 2 ^ 16 = i div 2 ^ 8 div 256"
    "i div 2 ^ 8 = i div 256"
    by (simp_all add: zdiv_zmult2_eq [symmetric])
  show ?thesis
    unfolding top unfolding step by (simp only: div_mult_mod_eq)
qed

lemma to_bytes4_Inr:
  assumes "to_bytes4 i = Inr bs"
  shows "length bs = 4" "from_bytes bs = i"
proof -
  have i: "0 \<le> i" "i < 2 ^ 32"
    and bs: "bs = [word_of_int (i div 2 ^ 24), word_of_int (i div 2 ^ 16), word_of_int (i div 2 ^ 8),
                   word_of_int i]"
    using assms by (simp_all add: to_bytes4_def split: if_splits)
  show "length bs = 4"
    by (simp add: bs)
  show "from_bytes bs = i"
    unfolding bs from_bytes_def foldl.simps uint_byte mult_zero_left add_0_left
    by (rule big_endian_4 [OF i])
qed

lemma make_block_hash_Inr:
  assumes "make_block_hash_with_group_id h g = Inr key"
  shows "get_block_hash key = h" "get_group_id key = g"
proof -
  from assms obtain bs where "to_bytes4 g = Inr bs" and key: "key = h @ bs"
    by (auto simp: make_block_hash_with_group_id_def elim!: rbindE)
  note bs = to_bytes4_Inr [OF this(1)]
  show "get_block_hash key = h" "get_group_id key = g"
    using bs by (simp_all add: key get_block_hash_def get_group_id_def py_slice_def py_bound_def)
qed

lemma make_block_hash_total:
  "0 \<le> g \<Longrightarrow> g < 2 ^ 32 \<Longrightarrow> \<exists>key. make_block_hash_with_group_id h g = Inr key"
  by (simp add: make_block_hash_with_group_id_def to_bytes4_def)

section \<open>Bisection\<close>

lemma bisect_left_loop_bounds:
  assumes mono: "\<And>i j. i \<le> j \<Longrightarrow> j < length xs \<Longrightarrow> key (xs ! i) \<le> key (xs ! j)"
    and "lo \<le> hi" "hi \<le> length xs"
    and "\<And>j. j < lo \<Longrightarrow> key (xs ! j) < x"
    and "\<And>j. hi \<le> j \<Longrightarrow> j < length xs \<Longrightarrow> x \<le> key (xs ! j)"
  shows "bisect_left_loop key xs x lo hi \<le> length xs \<and>
    (\<forall>j < length xs. key (xs ! j) < x \<longleftrightarrow> j < bisect_left_loop key xs x lo hi)"
  using assms(2-)
proof (induction "hi - lo" arbitrary: lo hi rule: less_induct)
  case less
  show ?case
  proof (cases "lo < hi")
    case False
    then have "bisect_left_loop key xs x lo hi = lo"
      by (subst bisect_left_loop.simps) simp
    moreover have "key (xs ! j) < x \<longleftrightarrow> j < lo" if "j < length xs" for j
      using less.prems(3) [of j] less.prems(4) [of j] False that by (cases "j < lo") auto
    ultimately show ?thesis
      using less.prems(1,2) by simp
  next
    case True
    define m where "m = (lo + hi) div 2"
    have m: "lo \<le> m" "m < hi"
      using True by (auto simp: m_def)
    show ?thesis
    proof (cases "key (xs ! m) < x")
      case c: True
      have eq: "bisect_left_loop key xs x lo hi = bisect_left_loop key xs x (m + 1) hi"
        using True c by (subst bisect_left_loop.simps) (simp add: m_def Let_def)
      have low: "key (xs ! j) < x" if "j < m + 1" for j
        using mono [of j m] that c m less.prems(2) by linarith
      show ?thesis
        unfolding eq by (rule less.hyps [OF _ _ less.prems(2) low less.prems(4)]) (use m in auto)
    next
      case c: False
      have eq: "bisect_left_loop key xs x lo hi = bisect_left_loop key xs x lo m"
        using True c by (subst bisect_left_loop.simps) (simp add: m_def Let_def)
      have high: "x \<le> key (xs ! j)" if "m \<le> j" "j < length xs" for j
        using mono [of m j] that c by linarith
      show ?thesis
        unfolding eq by (rule less.hyps [OF _ _ _ less.prems(3) high]) (use m less.prems(2) in auto)
    qed
  qed
qed

lemma bisect_left_spec:
  assumes "\<And>i j. i \<le> j \<Longrightarrow> j < length xs \<Longrightarrow> key (xs ! i) \<le> key (xs ! j)"
  shows "bisect_left key xs x \<le> length xs"
    and "j < length xs \<Longrightarrow> key (xs ! j) < x \<longleftrightarrow> j < bisect_left key xs x"
proof -
  have "bisect_left_loop key xs x 0 (length xs) \<le> length xs \<and>
    (\<forall>j < length xs. key (xs ! j) < x \<longleftrightarrow> j < bisect_left_loop key xs x 0 (length xs))"
    by (rule bisect_left_loop_bounds) (simp_all add: assms)
  then show "bisect_left key xs x \<le> length xs"
    and "j < length xs \<Longrightarrow> key (xs ! j) < x \<longleftrightarrow> j < bisect_left key xs x"
    by (simp_all add: bisect_left_def)
qed

section \<open>Multimodal keys\<close>

text \<open>The features are sorted by offset and do not overlap, as the code assumes of them.\<close>

definition mm_ordered :: "mm_feature list \<Rightarrow> bool" where
  "mm_ordered fs \<longleftrightarrow>
     (\<forall>f \<in> set fs. 0 \<le> pr_length (mm_position f)) \<and>
     sorted_wrt (\<lambda>f g. mm_end f \<le> mm_offset g) fs"

text \<open>Reference: every feature that overlaps the block, whatever index the search starts at.\<close>

definition mm_keys_in :: "int \<Rightarrow> int \<Rightarrow> mm_feature list \<Rightarrow> extra_key list" where
  "mm_keys_in s e fs =
     map (\<lambda>f. MmKey (mm_identifier f) (mm_offset f - s))
       (filter (\<lambda>f. mm_offset f < e \<and> s < mm_end f) fs)"

text \<open>A start index is sound when it is in range and skips only features that end before \<open>s\<close>.\<close>

definition mm_idx_ok :: "mm_feature list \<Rightarrow> int \<Rightarrow> nat \<Rightarrow> bool" where
  "mm_idx_ok fs s i \<longleftrightarrow> i \<le> length fs \<and> (\<forall>j < i. mm_end (fs ! j) \<le> s)"

lemma mm_offset_le_end: "mm_ordered fs \<Longrightarrow> f \<in> set fs \<Longrightarrow> mm_offset f \<le> mm_end f"
  by (auto simp: mm_ordered_def mm_end_def)

lemma mm_ordered_nth:
  "mm_ordered fs \<Longrightarrow> i < j \<Longrightarrow> j < length fs \<Longrightarrow> mm_end (fs ! i) \<le> mm_offset (fs ! j)"
  by (auto simp: mm_ordered_def sorted_wrt_iff_nth_less)

lemma mm_end_mono:
  assumes "mm_ordered fs" "i \<le> j" "j < length fs"
  shows "mm_end (fs ! i) \<le> mm_end (fs ! j)"
proof (cases "i = j")
  case False
  with assms have "mm_end (fs ! i) \<le> mm_offset (fs ! j)"
    by (intro mm_ordered_nth) auto
  also have "\<dots> \<le> mm_end (fs ! j)"
    using assms by (intro mm_offset_le_end) auto
  finally show ?thesis .
qed simp

lemma mm_idx_ok_mono: "mm_idx_ok fs s i \<Longrightarrow> s \<le> e \<Longrightarrow> mm_idx_ok fs e i"
  by (fastforce simp: mm_idx_ok_def)

lemma mm_keys_in_drop:
  assumes "mm_idx_ok fs s i"
  shows "mm_keys_in s e (drop i fs) = mm_keys_in s e fs"
proof -
  have "\<not> s < mm_end f" if "f \<in> set (take i fs)" for f
    using that assms by (fastforce simp: mm_idx_ok_def in_set_conv_nth)
  then have "filter (\<lambda>f. mm_offset f < e \<and> s < mm_end f) (take i fs) = []"
    by (auto simp: filter_empty_conv)
  then have "mm_keys_in s e (take i fs @ drop i fs) = mm_keys_in s e (drop i fs)"
    by (simp only: mm_keys_in_def filter_append map_append list.map append_Nil)
  then show ?thesis
    by simp
qed

lemma mm_keys_in_Nil:
  assumes "\<And>f. f \<in> set fs \<Longrightarrow> e \<le> mm_offset f \<or> mm_end f \<le> s"
  shows "mm_keys_in s e fs = []"
  using assms by (fastforce simp: mm_keys_in_def filter_empty_conv)

lemma mm_keys_in_Cons:
  "mm_keys_in s e (f # fs) =
     (if mm_offset f < e \<and> s < mm_end f then [MmKey (mm_identifier f) (mm_offset f - s)] else []) @
     mm_keys_in s e fs"
  by (simp add: mm_keys_in_def)

lemma mm_keys_in_later:
  assumes "mm_ordered fs" "i < length fs" "e \<le> mm_end (fs ! i)"
  shows "mm_keys_in s e (drop (Suc i) fs) = []"
proof (rule mm_keys_in_Nil)
  fix f assume "f \<in> set (drop (Suc i) fs)"
  then obtain j where "j < length fs - Suc i" "f = fs ! (Suc i + j)"
    by (auto simp: in_set_conv_nth)
  then show "e \<le> mm_offset f \<or> mm_end f \<le> s"
    using mm_ordered_nth [OF assms(1), of i "Suc i + j"] assms(3) by fastforce
qed

lemma mm_idx_ok_Suc:
  "mm_idx_ok fs e i \<Longrightarrow> i < length fs \<Longrightarrow> mm_end (fs ! i) \<le> e \<Longrightarrow> mm_idx_ok fs e (Suc i)"
  by (auto simp: mm_idx_ok_def less_Suc_eq)

lemma mm_keys_loop_spec:
  assumes "mm_ordered fs" "s \<le> e" "mm_idx_ok fs e i"
  shows "\<exists>i'. mm_keys_loop fs s e i acc = (acc @ mm_keys_in s e (drop i fs), i') \<and>
               mm_idx_ok fs e i'"
  using assms(3)
proof (induction "length fs - i" arbitrary: i acc rule: less_induct)
  case less
  show ?case
  proof (cases "i < length fs")
    case False
    then show ?thesis
      using less.prems by (subst mm_keys_loop.simps) (auto simp: mm_keys_in_def)
  next
    case i: True
    define f where "f = fs ! i"
    have drop_i: "drop i fs = f # drop (Suc i) fs"
      using i by (simp add: f_def Cons_nth_drop_Suc)
    have IH: "mm_end f \<le> e \<Longrightarrow>
        \<exists>i'. mm_keys_loop fs s e (Suc i) acc' = (acc' @ mm_keys_in s e (drop (Suc i) fs), i') \<and>
             mm_idx_ok fs e i'" for acc'
      using i less.prems by (intro less.hyps) (auto simp: f_def intro: mm_idx_ok_Suc)
    note unfold = mm_keys_loop.simps [of fs s e i acc] f_def [symmetric] Let_def mm_end_def [symmetric]
    consider "e \<le> mm_offset f" | "mm_offset f < e" "mm_end f \<le> s"
      | "mm_offset f < e" "s < mm_end f" "mm_end f \<le> e"
      | "mm_offset f < e" "s < mm_end f" "e < mm_end f"
      by linarith
    then show ?thesis
    proof cases
      case 1
      have "e \<le> mm_end f"
        using 1 mm_offset_le_end [OF assms(1), of f] i by (simp add: f_def)
      then have "mm_keys_in s e (drop i fs) = []"
        using mm_keys_in_later [OF assms(1) i] 1 by (simp add: drop_i mm_keys_in_Cons f_def)
      then show ?thesis
        using 1 i less.prems by (simp add: unfold)
    next
      case 2
      then show ?thesis
        using i IH [of acc] assms(2) by (simp add: unfold drop_i mm_keys_in_Cons)
    next
      case 3
      then show ?thesis
        using i IH [of "acc @ [MmKey (mm_identifier f) (mm_offset f - s)]"]
        by (simp add: unfold drop_i mm_keys_in_Cons)
    next
      case 4
      then have "mm_keys_in s e (drop (Suc i) fs) = []"
        using mm_keys_in_later [OF assms(1) i] by (simp add: f_def)
      then show ?thesis
        using 4 i less.prems by (simp add: unfold drop_i mm_keys_in_Cons)
    qed
  qed
qed

lemma gen_mm_extra_hash_keys_spec:
  assumes "mm_ordered (mm_features r)" "s \<le> e" "mm_idx_ok (mm_features r) s i"
  shows "\<exists>i'. gen_mm_extra_hash_keys r s e (int i) = Inr (mm_keys_in s e (mm_features r), int i') \<and>
               mm_idx_ok (mm_features r) e i'"
proof (cases "mm_features r = [] \<or> mm_end (last (mm_features r)) \<le> s")
  case True
  have "mm_keys_in s e (mm_features r) = []"
  proof (rule mm_keys_in_Nil)
    fix f assume f: "f \<in> set (mm_features r)"
    then obtain j where j: "j < length (mm_features r)" "f = mm_features r ! j"
      by (auto simp: in_set_conv_nth)
    have "last (mm_features r) = mm_features r ! (length (mm_features r) - 1)"
      using f by (intro last_conv_nth) auto
    then have "mm_end f \<le> mm_end (last (mm_features r))"
      using mm_end_mono [OF assms(1), of j "length (mm_features r) - 1"] j by simp
    with True f show "e \<le> mm_offset f \<or> mm_end f \<le> s" by auto
  qed
  then show ?thesis
    using True mm_idx_ok_mono [OF assms(3,2)] by (auto simp: gen_mm_extra_hash_keys_def Let_def)
next
  case False
  then show ?thesis
    using mm_keys_loop_spec [OF assms(1,2) mm_idx_ok_mono [OF assms(3,2)], of "[]"]
      mm_keys_in_drop [OF assms(3), of e]
    by (auto simp: gen_mm_extra_hash_keys_def Let_def)
qed

lemma rewind_mm_idx_spec:
  assumes "mm_ordered fs" "i \<le> length fs"
  shows "\<exists>j. rewind_mm_idx fs e i = Inr j \<and> mm_idx_ok fs e j"
  using assms(2)
proof (induction i)
  case (Suc i)
  then show ?case
    using mm_end_mono [OF assms(1), of _ i]
    by (fastforce simp: py_index_nat mm_idx_ok_def less_Suc_eq_le)
qed (simp add: mm_idx_ok_def)

lemma window_mm_idx_ok:
  assumes "mm_ordered fs"
  shows "mm_idx_ok fs s (fst (get_mm_features_in_window fs s e))"
proof -
  note spec = bisect_left_spec [of fs mm_end, OF mm_end_mono [OF assms]]
  show ?thesis
    using spec(1) [of "s + 1"] spec(2) [of _ "s + 1"]
    by (force simp: mm_idx_ok_def get_mm_features_in_window_def)
qed

section \<open>The reference chain\<close>

definition some_if_any :: "'a list \<Rightarrow> 'a list option" where
  "some_if_any ks = (if ks = [] then None else Some ks)"

text \<open>All extra keys of the token range from \<open>s\<close> to \<open>e\<close>, without index or memo.\<close>

definition keys_in :: "hash_env \<Rightarrow> request \<Rightarrow> int \<Rightarrow> int \<Rightarrow> extra_key list option" where
  "keys_in env r s e =
     some_if_any (gen_lora_extra_hash_keys r @ mm_keys_in s e (mm_features r) @ cache_salt_keys r s @
       (case prompt_embeds r of
          None \<Rightarrow> []
        | Some embs \<Rightarrow> [EmbedsKey (embeds_digest env (py_slice embs s e))]))"

definition block_tokens :: "nat \<Rightarrow> request \<Rightarrow> nat \<Rightarrow> int list" where
  "block_tokens bs r i = take bs (drop (i * bs) (all_token_ids r))"

definition extra_of :: "hash_env \<Rightarrow> nat \<Rightarrow> nat \<Rightarrow> request \<Rightarrow> nat \<Rightarrow> hash_extra" where
  "extra_of env bs l r i =
     (let s = int (i * bs); e = int (Suc i * bs)
      in if l = 0 then Extra (keys_in env r s e)
         else ExtraAhead (keys_in env r s (e + int l)) (take l (drop (Suc i * bs) (all_token_ids r))))"

fun chain_hash :: "hash_env \<Rightarrow> nat \<Rightarrow> nat \<Rightarrow> request \<Rightarrow> nat \<Rightarrow> bytes" where
  "chain_hash env bs l r 0 =
     hash_block_tokens env None (block_tokens bs r 0) (extra_of env bs l r 0)"
| "chain_hash env bs l r (Suc i) =
     hash_block_tokens env (Some (chain_hash env bs l r i)) (block_tokens bs r (Suc i))
       (extra_of env bs l r (Suc i))"

text \<open>The number of blocks a request of this length has hashes for.\<close>

definition num_hashed :: "nat \<Rightarrow> nat \<Rightarrow> request \<Rightarrow> nat" where
  "num_hashed bs l r = (length (all_token_ids r) - l) div bs"

text \<open>Every digest in the memo is the digest of that slice.\<close>

definition memo_ok :: "hash_env \<Rightarrow> request \<Rightarrow> embeds_memo \<Rightarrow> bool" where
  "memo_ok env r memo \<longleftrightarrow>
     (\<forall>s e h. dict_get memo (s, e) = Some h \<longrightarrow>
        (\<forall>embs. prompt_embeds r = Some embs \<longrightarrow> h = embeds_digest env (py_slice embs s e)))"

section \<open>The hasher computes the chain\<close>

lemma gen_prompt_embeds_spec:
  assumes "memo_ok env r memo"
  shows "\<exists>memo'. gen_prompt_embeds_extra_hash_keys env r memo s e =
      (case prompt_embeds r of
         None \<Rightarrow> []
       | Some embs \<Rightarrow> [EmbedsKey (embeds_digest env (py_slice embs s e))], memo') \<and>
      memo_ok env r memo'"
  using assms
  by (auto simp: gen_prompt_embeds_extra_hash_keys_def memo_ok_def Let_def update_conv'
      split: option.splits)

lemma generate_block_hash_extra_keys_spec:
  assumes "mm_ordered (mm_features r)" "s \<le> e" "mm_idx_ok (mm_features r) s i" "memo_ok env r memo"
  shows "\<exists>i' memo'. generate_block_hash_extra_keys env r memo s e (int i) =
           Inr (keys_in env r s e, int i', memo') \<and>
         mm_idx_ok (mm_features r) e i' \<and> memo_ok env r memo'"
proof -
  obtain i' where i': "gen_mm_extra_hash_keys r s e (int i) =
      Inr (mm_keys_in s e (mm_features r), int i')" "mm_idx_ok (mm_features r) e i'"
    using gen_mm_extra_hash_keys_spec [OF assms(1-3)] by blast
  obtain memo' where memo': "gen_prompt_embeds_extra_hash_keys env r memo s e =
      (case prompt_embeds r of
         None \<Rightarrow> []
       | Some embs \<Rightarrow> [EmbedsKey (embeds_digest env (py_slice embs s e))], memo')"
      "memo_ok env r memo'"
    using gen_prompt_embeds_spec [OF assms(4)] by blast
  show ?thesis
    using i' memo' by (simp add: generate_block_hash_extra_keys_def keys_in_def some_if_any_def)
qed

lemma generate_lookahead_spec:
  assumes "mm_ordered (mm_features r)" "s \<le> he" "mm_idx_ok (mm_features r) s k" "memo_ok env r memo"
  shows "\<exists>k' memo'. generate_lookahead_block_hash_extra_keys env r memo s e he (int k) =
           Inr (keys_in env r s he, int k', memo') \<and>
         mm_idx_ok (mm_features r) e k' \<and> memo_ok env r memo'"
proof -
  obtain k1 memo1 where g: "generate_block_hash_extra_keys env r memo s he (int k) =
      Inr (keys_in env r s he, int k1, memo1)"
    and k1: "mm_idx_ok (mm_features r) he k1" and memo1: "memo_ok env r memo1"
    using generate_block_hash_extra_keys_spec [OF assms] by blast
  obtain k2 where k2: "rewind_mm_idx (mm_features r) e k1 = Inr k2" "mm_idx_ok (mm_features r) e k2"
    using rewind_mm_idx_spec [OF assms(1), of k1 e] k1 unfolding mm_idx_ok_def by blast
  show ?thesis
    using k2 memo1
    by (cases "k1 = 0") (simp_all add: generate_lookahead_block_hash_extra_keys_def g)
qed

lemma py_slice_int:
  assumes "b \<le> length xs"
  shows "py_slice xs (int a) (int b) = take (b - a) (drop a xs)"
  using assms by (cases "a \<le> length xs") (simp_all add: py_slice_def py_bound_def min_def)

lemma block_extra_keys_spec:
  assumes "mm_ordered (mm_features r)" "memo_ok env r memo" "mm_idx_ok (mm_features r) (int (i * bs)) k"
    and len: "Suc i * bs + l \<le> length (all_token_ids r)"
  shows "\<exists>k' memo'. block_extra_keys env (int l) r memo (int (i * bs)) (int (Suc i * bs)) (int k) =
           Inr (extra_of env bs l r i, int k', memo') \<and>
         mm_idx_ok (mm_features r) (int (Suc i * bs)) k' \<and> memo_ok env r memo'"
proof (cases "l = 0")
  case True
  then show ?thesis
    using generate_block_hash_extra_keys_spec [OF assms(1) _ assms(3,2), of "int (Suc i * bs)"]
    by (force simp: block_extra_keys_def extra_of_def Let_def)
next
  case False
  let ?s = "int (i * bs)" and ?e = "int (Suc i * bs)"
  obtain k' memo' where
    g: "generate_lookahead_block_hash_extra_keys env r memo ?s ?e (?e + int l) (int k) =
        Inr (keys_in env r ?s (?e + int l), int k', memo')"
    and k': "mm_idx_ok (mm_features r) ?e k'" and memo': "memo_ok env r memo'"
    using generate_lookahead_spec [OF assms(1) _ assms(3,2), of "?e + int l" ?e] by auto
  have sl: "py_slice (all_token_ids r) ?e (?e + int l) =
      take l (drop (Suc i * bs) (all_token_ids r))"
    using py_slice_int [OF len, of "Suc i * bs"] by simp
  have ix: "py_index (all_token_ids r) ?e = Inr (all_token_ids r ! (Suc i * bs))"
    using len False by (intro py_index_nat) linarith
  have "l = 1 \<Longrightarrow> take l (drop (Suc i * bs) (all_token_ids r)) = [all_token_ids r ! (Suc i * bs)]"
    using len by (simp add: take_Suc_conv_app_nth)
  then have "block_extra_keys env (int l) r memo ?s ?e (int k) =
      Inr (extra_of env bs l r i, int k', memo')"
    using False unfolding block_extra_keys_def extra_of_def Let_def g sl ix by simp
  with k' memo' show ?thesis by blast
qed

lemma num_hashed_le_iff:
  assumes "0 < bs"
  shows "num_tokens r - int l < int (i * bs) + int bs \<longleftrightarrow> num_hashed bs l r \<le> i"
proof -
  have "num_hashed bs l r \<le> i \<longleftrightarrow> length (all_token_ids r) - l < Suc i * bs"
    unfolding num_hashed_def less_Suc_eq_le [symmetric] using assms by (rule div_less_iff_less_mult)
  also have "\<dots> \<longleftrightarrow> int (length (all_token_ids r)) - int l < int (Suc i * bs)"
  proof -
    have "0 < n \<Longrightarrow> a - l < n \<longleftrightarrow> int a - int l < int n" for a n
      by auto
    from this [of "Suc i * bs" "length (all_token_ids r)"] show ?thesis
      using assms by (simp only: mult_pos_pos zero_less_Suc)
  qed
  also have "int (Suc i * bs) = int (i * bs) + int bs"
    by simp
  finally show ?thesis
    by (simp only: num_tokens_def)
qed

definition chain_parent :: "hash_env \<Rightarrow> nat \<Rightarrow> nat \<Rightarrow> request \<Rightarrow> nat \<Rightarrow> bytes option" where
  "chain_parent env bs l r i = (if i = 0 then None else Some (chain_hash env bs l r (i - 1)))"

lemma chain_hash_eq:
  "chain_hash env bs l r i =
     hash_block_tokens env (chain_parent env bs l r i) (block_tokens bs r i) (extra_of env bs l r i)"
  by (cases i) (simp_all add: chain_parent_def)

lemma hasher_loop_spec:
  assumes "mm_ordered (mm_features r)" "0 < bs" "memo_ok env r memo"
    and "mm_idx_ok (mm_features r) (int (i * bs)) k"
  shows "\<exists>memo'. hasher_loop env (int bs) (int l) r (num_tokens r - int l) (int (i * bs)) (int k)
             (chain_parent env bs l r i) memo acc =
           Inr (acc @ map (chain_hash env bs l r) [i..<num_hashed bs l r], memo') \<and>
         memo_ok env r memo'"
  using assms(3,4)
proof (induction "num_hashed bs l r - i" arbitrary: i k memo acc rule: less_induct)
  case less
  show ?case
  proof (cases "num_hashed bs l r \<le> i")
    case True
    then have "num_tokens r - int l < int (i * bs) + int bs"
      by (simp only: num_hashed_le_iff [OF assms(2)])
    then show ?thesis
      using True less.prems(1) by (subst hasher_loop.simps) simp
  next
    case False
    then have go: "\<not> num_tokens r - int l < int (i * bs) + int bs"
      by (simp only: num_hashed_le_iff [OF assms(2)] not_False_eq_True)
    have e: "int (i * bs) + int bs = int (Suc i * bs)"
      by simp
    have len: "Suc i * bs + l \<le> length (all_token_ids r)"
      using go unfolding e num_tokens_def by linarith
    obtain k' memo' where
      keys: "block_extra_keys env (int l) r memo (int (i * bs)) (int (Suc i * bs)) (int k) =
        Inr (extra_of env bs l r i, int k', memo')"
      and ok: "mm_idx_ok (mm_features r) (int (Suc i * bs)) k'" "memo_ok env r memo'"
      using block_extra_keys_spec [OF assms(1) less.prems len] by blast
    have toks: "py_slice (all_token_ids r) (int (i * bs)) (int (Suc i * bs)) = block_tokens bs r i"
      using py_slice_int [of "Suc i * bs" "all_token_ids r" "i * bs"] len by (simp add: block_tokens_def)
    have parent: "chain_parent env bs l r (Suc i) = Some (chain_hash env bs l r i)"
      by (simp add: chain_parent_def)
    have step: "hasher_loop env (int bs) (int l) r (num_tokens r - int l) (int (i * bs)) (int k)
        (chain_parent env bs l r i) memo acc =
      hasher_loop env (int bs) (int l) r (num_tokens r - int l) (int (Suc i * bs)) (int k')
        (chain_parent env bs l r (Suc i)) memo' (acc @ [chain_hash env bs l r i])"
      using go assms(2) unfolding hasher_loop.simps [of _ _ _ _ _ "int (i * bs)"] parent
      by (simp only: Let_def e keys toks chain_hash_eq [of _ _ _ _ i]) simp
    have "[i..<num_hashed bs l r] = i # [Suc i..<num_hashed bs l r]"
      using False by (simp add: upt_conv_Cons)
    then show ?thesis
      unfolding step using less.hyps [OF _ ok(2,1), of "acc @ [chain_hash env bs l r i]"] False by simp
  qed
qed

lemma request_block_hasher_spec:
  assumes "mm_ordered (mm_features r)" "0 < bs" "memo_ok env r (prompt_embeds_per_block_hashes r)"
    and hs: "block_hashes r = map (chain_hash env bs l r) [0..<k]"
  shows "\<exists>memo'. request_block_hasher env (int bs) (int l) r =
           Inr (map (chain_hash env bs l r) [k..<num_hashed bs l r], memo') \<and> memo_ok env r memo'"
proof (cases "num_hashed bs l r \<le> k")
  case True
  then have "num_tokens r - int l < int (k * bs) + int bs"
    by (simp only: num_hashed_le_iff [OF assms(2)])
  then show ?thesis
    using True assms(3) by (simp add: request_block_hasher_def hs Let_def)
next
  case False
  let ?fs = "mm_features r"
  define s where "s = int (k * bs)"
  define m where "m = (if s > 0 \<and> ?fs \<noteq> [] \<and> mm_end (last ?fs) > s
                       then fst (get_mm_features_in_window ?fs s (s + int bs)) else 0)"
  have go: "\<not> num_tokens r - int l < s + int bs"
    using False by (simp only: s_def num_hashed_le_iff [OF assms(2)] not_False_eq_True)
  have m: "mm_idx_ok ?fs s m"
    using window_mm_idx_ok [OF assms(1)] by (simp add: m_def mm_idx_ok_def)
  have parent: "chain_parent env bs l r k = (if block_hashes r \<noteq> [] then Some (last (block_hashes r)) else None)"
    by (cases k) (simp_all add: hs chain_parent_def)
  have "request_block_hasher env (int bs) (int l) r =
      hasher_loop env (int bs) (int l) r (num_tokens r - int l) s (int m)
        (chain_parent env bs l r k) (prompt_embeds_per_block_hashes r) []"
    using go by (simp add: request_block_hasher_def parent m_def s_def hs Let_def)
  then show ?thesis
    using hasher_loop_spec [OF assms(1-3) m [unfolded s_def], where acc = "[]"] by (simp add: s_def)
qed

section \<open>Block hashes stay in step with the tokens\<close>

definition hashes_ok :: "hash_env \<Rightarrow> nat \<Rightarrow> nat \<Rightarrow> request \<Rightarrow> bool" where
  "hashes_ok env bs l r \<longleftrightarrow>
     block_hashes r = map (chain_hash env bs l r) [0..<num_hashed bs l r] \<and>
     memo_ok env r (prompt_embeds_per_block_hashes r)"

text \<open>What the hash of a block reads of a request besides its tokens.\<close>

definition same_context :: "request \<Rightarrow> request \<Rightarrow> bool" where
  "same_context r r' \<longleftrightarrow>
     mm_features r = mm_features r' \<and> lora_request r = lora_request r' \<and>
     cache_salt r = cache_salt r' \<and> prompt_embeds r = prompt_embeds r'"

lemma same_contextD:
  assumes "same_context r r'"
  shows "keys_in env r s e = keys_in env r' s e" "memo_ok env r memo = memo_ok env r' memo"
  using assms
  by (simp_all add: same_context_def keys_in_def gen_lora_extra_hash_keys_def cache_salt_keys_def
      memo_ok_def)

lemma take_drop_cong:
  "take n xs = take n ys \<Longrightarrow> a + b \<le> n \<Longrightarrow> take b (drop a xs) = take b (drop a ys)"
  by (metis add.commute drop_take min_absorb1 take_drop take_take)

lemma chain_hash_cong:
  assumes "same_context r r'"
    and "take (Suc i * bs + l) (all_token_ids r) = take (Suc i * bs + l) (all_token_ids r')"
  shows "chain_hash env bs l r i = chain_hash env bs l r' i"
  using assms(2)
proof (induction i)
  case 0
  then show ?case
    using same_contextD [OF assms(1)] take_drop_cong [OF 0, of 0 bs] take_drop_cong [OF 0, of bs l]
    by (simp add: block_tokens_def extra_of_def Let_def)
next
  case (Suc i)
  have "take (Suc i * bs + l) (all_token_ids r) = take (Suc i * bs + l) (all_token_ids r')"
    using take_drop_cong [OF Suc.prems, of 0 "Suc i * bs + l"] by simp
  then have "chain_hash env bs l r i = chain_hash env bs l r' i"
    by (rule Suc.IH)
  moreover have "block_tokens bs r (Suc i) = block_tokens bs r' (Suc i)"
    using take_drop_cong [OF Suc.prems, of "Suc i * bs" bs] by (simp add: block_tokens_def)
  moreover have "extra_of env bs l r (Suc i) = extra_of env bs l r' (Suc i)"
    using take_drop_cong [OF Suc.prems, of "Suc (Suc i) * bs" l] same_contextD [OF assms(1)]
    by (simp add: extra_of_def Let_def)
  ultimately show ?case by simp
qed

lemma num_hashed_bound:
  assumes "i < num_hashed bs l r"
  shows "Suc i * bs + l \<le> length (all_token_ids r)"
proof -
  have "0 < bs"
    using assms by (cases bs) (simp_all add: num_hashed_def)
  with assms have "\<not> num_tokens r - int l < int (i * bs) + int bs"
    by (simp only: num_hashed_le_iff not_le)
  then have "int (i * bs) + int bs + int l \<le> int (length (all_token_ids r))"
    by (simp add: num_tokens_def)
  then show ?thesis
    by (metis add.commute mult_Suc of_nat_add of_nat_le_iff)
qed

text \<open>Hashes of a shorter request are the hashes of the longer one that extends it.\<close>

lemma chain_hash_prefix:
  assumes "same_context r r'" "all_token_ids r' = all_token_ids r @ toks" "i < num_hashed bs l r"
  shows "chain_hash env bs l r' i = chain_hash env bs l r i"
  using num_hashed_bound [OF assms(3)] same_contextD
  by (intro chain_hash_cong [symmetric]) (simp_all add: assms(1,2))

lemma num_hashed_mono:
  "length (all_token_ids r) \<le> length (all_token_ids r') \<Longrightarrow> num_hashed bs l r \<le> num_hashed bs l r'"
  by (simp add: num_hashed_def div_le_mono)

lemma chain_hash_update [simp]:
  "chain_hash env bs l (r\<lparr>block_hashes := hs, prompt_embeds_per_block_hashes := memo\<rparr>) =
   chain_hash env bs l r"
  by (rule ext, rule chain_hash_cong) (simp_all add: same_context_def)

lemma update_block_hashes_ok:
  assumes "mm_ordered (mm_features r)" "0 < bs" "memo_ok env r (prompt_embeds_per_block_hashes r)"
    and "block_hashes r = map (chain_hash env bs l r) [0..<k]" "k \<le> num_hashed bs l r"
  shows "\<exists>r'. update_block_hashes (Some (request_block_hasher env (int bs) (int l))) r = Inr r' \<and>
              hashes_ok env bs l r'"
proof -
  obtain memo' where h: "request_block_hasher env (int bs) (int l) r =
      Inr (map (chain_hash env bs l r) [k..<num_hashed bs l r], memo')" "memo_ok env r memo'"
    using request_block_hasher_spec [OF assms(1-4)] by blast
  let ?r = "r\<lparr>block_hashes := map (chain_hash env bs l r) [0..<num_hashed bs l r],
              prompt_embeds_per_block_hashes := memo'\<rparr>"
  have "[0..<num_hashed bs l r] = [0..<k] @ [k..<num_hashed bs l r]"
    using assms(5) by (metis le_add_diff_inverse upt_add_eq_append zero_le)
  then have "update_block_hashes (Some (request_block_hasher env (int bs) (int l))) r = Inr ?r"
    by (simp add: update_block_hashes_def h assms(4))
  moreover have "hashes_ok env bs l ?r"
    using h(2) same_contextD(2) [of r ?r env memo'] by (simp add: hashes_ok_def num_hashed_def same_context_def)
  ultimately show ?thesis by blast
qed

lemma append_output_hashes_ok:
  assumes "hashes_ok env bs l r" "mm_ordered (mm_features r)" "0 < bs"
  shows "\<exists>r'. append_output_token_ids (Some (request_block_hasher env (int bs) (int l))) toks r = Inr r' \<and>
              hashes_ok env bs l r'"
proof -
  let ?r = "r\<lparr>output_token_ids := output_token_ids r @ toks, all_token_ids := all_token_ids r @ toks\<rparr>"
  have same: "same_context r ?r"
    by (simp add: same_context_def)
  have "block_hashes ?r = map (chain_hash env bs l ?r) [0..<num_hashed bs l r]"
    using assms(1) chain_hash_prefix [OF same, of toks] by (simp add: hashes_ok_def)
  then show ?thesis
    unfolding append_output_token_ids_def
    using assms same_contextD(2) [OF same]
    by (intro update_block_hashes_ok) (auto simp: hashes_ok_def intro: num_hashed_mono)
qed

lemma truncate_hashes_ok:
  assumes "hashes_ok env bs l r" "0 < bs"
    and "same_context r r'" "block_hashes r' = block_hashes r"
    and "all_token_ids r' = take n (all_token_ids r)"
  shows "\<exists>r''. truncate_block_hashes (int bs) (int l) r' = Inr r'' \<and> hashes_ok env bs l r''"
proof -
  have "max 0 (num_tokens r' - int l) div int bs = int (num_hashed bs l r')"
    by (simp add: num_tokens_def num_hashed_def zdiv_int max_def of_nat_diff)
  moreover have le: "num_hashed bs l r' \<le> num_hashed bs l r"
    by (rule num_hashed_mono) (simp add: assms(5))
  ultimately have "truncate_block_hashes (int bs) (int l) r' =
      Inr (r'\<lparr>block_hashes := map (chain_hash env bs l r) [0..<num_hashed bs l r'],
             prompt_embeds_per_block_hashes := []\<rparr>)"
    using assms(1,2,4) by (simp add: truncate_block_hashes_def hashes_ok_def take_map py_bound_def)
  moreover have "chain_hash env bs l r i = chain_hash env bs l r' i" if "i < num_hashed bs l r'" for i
    using num_hashed_bound [OF that] by (intro chain_hash_cong assms(3)) (simp add: assms(5))
  ultimately show ?thesis
    by (auto simp: hashes_ok_def memo_ok_def num_hashed_def)
qed

section \<open>Equal hashes mean equal prefixes, or a collision\<close>

text \<open>The argument the hash function is applied to for block \<open>i\<close>.\<close>

definition hash_input_at :: "hash_env \<Rightarrow> nat \<Rightarrow> nat \<Rightarrow> request \<Rightarrow> nat \<Rightarrow> hash_input" where
  "hash_input_at env bs l r i =
     ((case chain_parent env bs l r i of
         None \<Rightarrow> none_hash env
       | Some h \<Rightarrow> (if h = [] then none_hash env else h)),
      block_tokens bs r i, extra_of env bs l r i)"

lemma chain_hash_input: "chain_hash env bs l r i = hash_fn env (hash_input_at env bs l r i)"
  by (simp add: chain_hash_eq hash_block_tokens_def hash_input_at_def)

definition same_blocks :: "hash_env \<Rightarrow> nat \<Rightarrow> nat \<Rightarrow> request \<Rightarrow> request \<Rightarrow> nat \<Rightarrow> bool" where
  "same_blocks env bs l r r' i \<longleftrightarrow>
     (\<forall>j \<le> i. block_tokens bs r j = block_tokens bs r' j \<and>
              extra_of env bs l r j = extra_of env bs l r' j)"

text \<open>Two different inputs with one hash, or an input whose hash is the seed.\<close>

definition hash_collision ::
  "hash_env \<Rightarrow> nat \<Rightarrow> nat \<Rightarrow> request \<Rightarrow> request \<Rightarrow> nat \<Rightarrow> nat \<Rightarrow> bool" where
  "hash_collision env bs l r r' i i' \<longleftrightarrow>
     (\<exists>j \<le> i. \<exists>j' \<le> i'. hash_input_at env bs l r j \<noteq> hash_input_at env bs l r' j' \<and>
        hash_fn env (hash_input_at env bs l r j) = hash_fn env (hash_input_at env bs l r' j')) \<or>
     (\<exists>j \<le> i. hash_fn env (hash_input_at env bs l r j) = none_hash env) \<or>
     (\<exists>j' \<le> i'. hash_fn env (hash_input_at env bs l r' j') = none_hash env)"

lemma hash_collision_Suc:
  "hash_collision env bs l r r' i i' \<Longrightarrow> hash_collision env bs l r r' (Suc i) (Suc i')"
  by (auto simp: hash_collision_def intro: le_SucI)

lemma hash_input_at_0: "fst (hash_input_at env bs l r 0) = none_hash env"
  by (simp add: hash_input_at_def chain_parent_def)

lemma hash_input_at_Suc:
  "(\<And>x. hash_fn env x \<noteq> []) \<Longrightarrow>
   fst (hash_input_at env bs l r (Suc i)) = hash_fn env (hash_input_at env bs l r i)"
  by (simp add: hash_input_at_def chain_parent_def chain_hash_input)

lemma hash_collision_seed:
  "j \<le> i \<Longrightarrow> hash_fn env (hash_input_at env bs l r j) = none_hash env \<Longrightarrow>
     hash_collision env bs l r r' i i'"
  "j \<le> i' \<Longrightarrow> hash_fn env (hash_input_at env bs l r' j) = none_hash env \<Longrightarrow>
     hash_collision env bs l r r' i i'"
  by (auto simp: hash_collision_def)

lemma same_blocks_Suc:
  "same_blocks env bs l r r' i \<Longrightarrow>
   hash_input_at env bs l r (Suc i) = hash_input_at env bs l r' (Suc i) \<Longrightarrow>
   same_blocks env bs l r r' (Suc i)"
  by (auto simp: same_blocks_def le_Suc_eq hash_input_at_def)

lemma chain_hash_inject:
  assumes nonempty: "\<And>x. hash_fn env x \<noteq> []"
    and "chain_hash env bs l r i = chain_hash env bs l r' i'"
  shows "i = i' \<and> same_blocks env bs l r r' i \<or> hash_collision env bs l r r' i i'"
  using assms(2)
proof (induction i arbitrary: i')
  case 0
  show ?case
  proof (cases "hash_input_at env bs l r 0 = hash_input_at env bs l r' i'")
    case True
    then show ?thesis
    proof (cases i')
      case (Suc m)
      with True have "hash_fn env (hash_input_at env bs l r' m) = none_hash env"
        by (metis hash_input_at_0 hash_input_at_Suc [OF nonempty])
      with Suc show ?thesis
        by (auto intro: hash_collision_seed(2) [of m])
    qed (simp add: same_blocks_def hash_input_at_def)
  next
    case False
    with 0 show ?thesis
      by (auto simp: hash_collision_def chain_hash_input simp del: chain_hash.simps)
  qed
next
  case (Suc i)
  show ?case
  proof (cases "hash_input_at env bs l r (Suc i) = hash_input_at env bs l r' i'")
    case True
    show ?thesis
    proof (cases i')
      case 0
      with True have "hash_fn env (hash_input_at env bs l r i) = none_hash env"
        by (metis hash_input_at_0 hash_input_at_Suc [OF nonempty])
      then show ?thesis
        by (auto intro: hash_collision_seed(1) [of i])
    next
      case m: (Suc m)
      with True have "chain_hash env bs l r i = chain_hash env bs l r' m"
        by (simp add: chain_hash_input flip: hash_input_at_Suc [OF nonempty])
      from Suc.IH [OF this] True m show ?thesis
        by (auto intro: hash_collision_Suc same_blocks_Suc)
    qed
  next
    case False
    then show ?thesis
      using Suc.prems unfolding hash_collision_def chain_hash_input by blast
  qed
qed

lemma same_blocks_tokens:
  assumes "same_blocks env bs l r r' i"
  shows "take (Suc i * bs) (all_token_ids r) = take (Suc i * bs) (all_token_ids r')"
proof -
  have "take (k * bs) (all_token_ids r) = concat (map (block_tokens bs r) [0..<k])" for k r
    by (induction k) (simp_all add: block_tokens_def take_add add.commute [of bs])
  moreover have "map (block_tokens bs r) [0..<Suc i] = map (block_tokens bs r') [0..<Suc i]"
    using assms by (auto simp: same_blocks_def)
  ultimately show ?thesis by metis
qed

section \<open>Views\<close>

lemma rmap_Inr: "(\<And>x. x \<in> set xs \<Longrightarrow> f x = Inr (g x)) \<Longrightarrow> rmap f xs = Inr (map g xs)"
  by (induction xs) simp_all

lemma view_get_eq:
  assumes "0 < k" "i < length hs div k"
  shows "view_get \<lparr>view_hashes = hs, scale_factor = int k\<rparr> (int i) = Inr (hs ! (Suc i * k - 1))"
proof -
  have "Suc i * k \<le> length hs"
    using assms less_eq_div_iff_mult_less_eq [of k "Suc i" "length hs"] by (simp only: Suc_le_eq)
  moreover have "(int i + 1) * int k - 1 = int (Suc i * k - 1)"
    using assms(1) by (simp add: of_nat_diff algebra_simps Suc_leI)
  ultimately show ?thesis
    using assms(1) by (simp only: view_get_def block_hash_view.simps) (rule py_index_nat, simp)
qed

lemma view_iter_eq:
  assumes "0 < k"
  shows "view_iter \<lparr>view_hashes = hs, scale_factor = int k\<rparr> =
    Inr (map (\<lambda>i. hs ! (Suc i * k - 1)) [0..<length hs div k])"
proof -
  let ?v = "\<lparr>view_hashes = hs, scale_factor = int k\<rparr>"
  have len: "view_len ?v = Inr (int (length hs div k))"
    by (use assms in \<open>simp add: view_len_def Let_def flip: zdiv_int\<close>)
  have "rmap (view_get ?v) (py_range 0 (int (length hs div k))) =
      Inr (map (\<lambda>i. hs ! (Suc (nat i) * k - 1)) (py_range 0 (int (length hs div k))))"
    using view_get_eq [OF assms] by (intro rmap_Inr) (force simp: py_range_def)
  then show ?thesis
    by (simp only: view_iter_def len rbind_simps) (simp add: py_range_def comp_def)
qed

section \<open>Construction and growth of a request\<close>

lemma request_init_update:
  assumes "request_init a oid now hasher = Inr r" "a_block_hashes a = None"
  obtains r0 r1 where "update_block_hashes hasher r0 = Inr r1"
    "r = r1\<lparr>prefix_cache_hit_limit := get_prefix_cache_hit_limit r1\<rparr>"
    "block_hashes r0 = []" "prompt_embeds_per_block_hashes r0 = []"
    "mm_features r0 = (case a_mm_features a of Some fs \<Rightarrow> fs | None \<Rightarrow> [])"
  using assms unfolding request_init_def Let_def by (fastforce simp: rbind_Inr_iff split: prod.splits)

lemma hashes_ok_hit_limit [simp]:
  "hashes_ok env bs l (r\<lparr>prefix_cache_hit_limit := x\<rparr>) = hashes_ok env bs l r"
proof -
  have "same_context (r\<lparr>prefix_cache_hit_limit := x\<rparr>) r"
    by (simp add: same_context_def)
  then have "chain_hash env bs l (r\<lparr>prefix_cache_hit_limit := x\<rparr>) = chain_hash env bs l r"
    and "memo_ok env (r\<lparr>prefix_cache_hit_limit := x\<rparr>) = memo_ok env r"
    using chain_hash_cong same_contextD(2) by (auto intro!: ext)
  then show ?thesis
    by (simp add: hashes_ok_def num_hashed_def)
qed

lemma request_init_hashes_ok:
  assumes "request_init a oid now (Some (request_block_hasher env (int bs) (int l))) = Inr r"
    and "a_block_hashes a = None" "0 < bs"
    and "mm_ordered (case a_mm_features a of Some fs \<Rightarrow> fs | None \<Rightarrow> [])"
  shows "hashes_ok env bs l r" "mm_ordered (mm_features r)"
proof -
  obtain r0 r1 where up: "update_block_hashes (Some (request_block_hasher env (int bs) (int l))) r0 = Inr r1"
    and r: "r = r1\<lparr>prefix_cache_hit_limit := get_prefix_cache_hit_limit r1\<rparr>"
    and r0: "block_hashes r0 = []" "prompt_embeds_per_block_hashes r0 = []"
      "mm_features r0 = (case a_mm_features a of Some fs \<Rightarrow> fs | None \<Rightarrow> [])"
    by (rule request_init_update [OF assms(1,2)])
  have "\<exists>r'. update_block_hashes (Some (request_block_hasher env (int bs) (int l))) r0 = Inr r' \<and>
        hashes_ok env bs l r'"
    using assms(3,4) r0 by (intro update_block_hashes_ok [where k = 0]) (simp_all add: memo_ok_def)
  with up show "hashes_ok env bs l r"
    by (simp add: r)
  show "mm_ordered (mm_features r)"
    using assms(4) r0(3) update_block_hashes_tokens(4) [OF up] by (simp add: r)
qed

lemma append_runs_hashes_ok:
  assumes "hashes_ok env bs l r" "mm_ordered (mm_features r)" "0 < bs"
  shows "\<exists>r'. rfold (append_output_token_ids (Some (request_block_hasher env (int bs) (int l)))) tokss r =
           Inr r' \<and> hashes_ok env bs l r' \<and> all_token_ids r' = all_token_ids r @ concat tokss"
  using assms(1,2)
proof (induction tokss arbitrary: r)
  case (Cons toks tokss)
  obtain r1 where r1: "append_output_token_ids (Some (request_block_hasher env (int bs) (int l))) toks r = Inr r1"
      "hashes_ok env bs l r1"
    using append_output_hashes_ok [OF Cons.prems assms(3)] by blast
  have "mm_features r1 = mm_features r"
    using update_block_hashes_tokens(4) [OF r1(1) [unfolded append_output_token_ids_def]] by simp
  with Cons.IH [OF r1(2)] Cons.prems(2) show ?case
    using append_output_tokens(1) [OF r1(1)] r1(1) by simp
qed simp

section \<open>A small instance\<close>

text \<open>A hash function that writes out its argument, for evaluating the properties below.\<close>

definition sample_env :: hash_env where
  "sample_env =
     \<lparr>hash_fn = (\<lambda>(parent, toks, extra). 1 # parent @ map word_of_int toks), none_hash = [0],
      embeds_digest = (\<lambda>_. [])\<rparr>"

definition sample_request :: "int list \<Rightarrow> request" where
  "sample_request toks =
     (case request_init (sample_args toks) 0 0 (Some (request_block_hasher sample_env 2 1)) of
        Inr r \<Rightarrow> r | Inl _ \<Rightarrow> undefined)"

section \<open>Properties\<close>



text \<open>C4. The block hashes of a request never go stale: after construction and any sequence of
  appended output tokens, no step raises and the stored hashes are exactly the chain computed
  from scratch over all tokens, one per full block whose lookahead tokens exist.\<close>

theorem block_hashes_incremental:
  assumes "request_init a oid now (Some (request_block_hasher env (int bs) (int l))) = Inr r"
    and "a_block_hashes a = None" "0 < bs"
    and "mm_ordered (case a_mm_features a of Some fs \<Rightarrow> fs | None \<Rightarrow> [])"
  shows "\<exists>r'. rfold (append_output_token_ids (Some (request_block_hasher env (int bs) (int l)))) tokss r =
           Inr r' \<and>
         all_token_ids r' = all_token_ids r @ concat tokss \<and>
         block_hashes r' = map (chain_hash env bs l r') [0..<(length (all_token_ids r') - l) div bs]"
  using append_runs_hashes_ok [OF request_init_hashes_ok [OF assms] assms(3)]
  by (auto simp: hashes_ok_def num_hashed_def)

theorem block_hashes_incremental_witness:
  "\<exists>r'. rfold (append_output_token_ids (Some (request_block_hasher sample_env 2 1))) [[6], [7, 8]]
         (sample_request [1, 2, 3]) = Inr r' \<and>
       block_hashes r' = map (chain_hash sample_env 2 1 r') [0..<(length (all_token_ids r') - 1) div 2]"
proof -
  have "request_init (sample_args [1, 2, 3]) 0 0 (Some (request_block_hasher sample_env (int 2) (int 1))) =
      Inr (sample_request [1, 2, 3])"
    unfolding sample_request_def by code_simp
  from block_hashes_incremental [OF this, of "[[6], [7, 8]]"] show ?thesis
    by (auto simp: sample_args_def mm_ordered_def)
qed

text \<open>C15. Truncating a request keeps its hashes right: after the tokens are cut back to a prefix,
  \<open>truncate_block_hashes\<close> leaves exactly the chain of the shorter request.\<close>

theorem truncate_block_hashes_sound:
  assumes "hashes_ok env bs l r" "0 < bs"
  shows "\<exists>r'. truncate_block_hashes (int bs) (int l) (r\<lparr>all_token_ids := take n (all_token_ids r)\<rparr>) =
           Inr r' \<and>
         all_token_ids r' = take n (all_token_ids r) \<and> hashes_ok env bs l r'"
proof -
  let ?r = "r\<lparr>all_token_ids := take n (all_token_ids r)\<rparr>"
  obtain r'' where "truncate_block_hashes (int bs) (int l) ?r = Inr r''" "hashes_ok env bs l r''"
    using truncate_hashes_ok [OF assms, of ?r n] by (auto simp: same_context_def)
  then show ?thesis
    using assms(2) by (auto simp: truncate_block_hashes_def Let_def)
qed

theorem truncate_block_hashes_sound_witness:
  "\<exists>r'. truncate_block_hashes 2 1 ((sample_request [1, 2, 3, 4, 5])\<lparr>all_token_ids := [1, 2, 3]\<rparr>) = Inr r' \<and>
       hashes_ok sample_env 2 1 r'"
proof -
  have init: "request_init (sample_args [1, 2, 3, 4, 5]) 0 0
      (Some (request_block_hasher sample_env (int 2) (int 1))) = Inr (sample_request [1, 2, 3, 4, 5])"
    unfolding sample_request_def by code_simp
  have "hashes_ok sample_env 2 1 (sample_request [1, 2, 3, 4, 5])"
    by (rule request_init_hashes_ok [OF init]) (simp_all add: sample_args_def mm_ordered_def)
  moreover have "take 3 (all_token_ids (sample_request [1, 2, 3, 4, 5])) = [1, 2, 3]"
    by code_simp
  ultimately show ?thesis
    using truncate_block_hashes_sound [of sample_env 2 1 "sample_request [1, 2, 3, 4, 5]" 3] by auto
qed

text \<open>C17. A packed key determines its block hash and group id, and packing fails only for a
  group id outside four bytes.\<close>

theorem block_hash_key_roundtrip:
  "(case make_block_hash_with_group_id h g of
      Inl e \<Rightarrow> e = OverflowError \<and> (g < 0 \<or> 2 ^ 32 \<le> g)
    | Inr key \<Rightarrow> get_block_hash key = h \<and> get_group_id key = g)"
  using make_block_hash_Inr [of h g] make_block_hash_total [of g h]
  by (auto simp: make_block_hash_with_group_id_def to_bytes4_def)

text \<open>C16. Viewed at a block size that is a multiple of the hash block size, the stored hashes are
  the chain hashes at the end of each coarser block: entry \<open>i\<close> is the chain hash whose prefix has
  \<open>(i + 1) * k * bs\<close> tokens, and there is one entry for every complete coarser block.\<close>

theorem block_hash_view_spec:
  assumes "hashes_ok env bs l r" "0 < bs" "0 < k"
  shows "rbind (block_hash_view_init (block_hashes r) (int bs) (int (k * bs))) view_iter =
    Inr (map (\<lambda>i. chain_hash env bs l r (Suc i * k - 1)) [0..<(length (all_token_ids r) - l) div (k * bs)])"
proof -
  let ?n = "num_hashed bs l r"
  have init: "block_hash_view_init (block_hashes r) (int bs) (int (k * bs)) =
      Inr \<lparr>view_hashes = block_hashes r, scale_factor = int k\<rparr>"
    using assms(2) by (simp add: block_hash_view_init_def)
  have "?n div k = (length (all_token_ids r) - l) div (k * bs)"
    by (simp add: num_hashed_def div_mult2_eq mult.commute)
  moreover have "map (chain_hash env bs l r) [0..<?n] ! (Suc i * k - 1) = chain_hash env bs l r (Suc i * k - 1)"
    if "i < ?n div k" for i
  proof -
    have "Suc i * k \<le> ?n"
      using that less_eq_div_iff_mult_less_eq [OF assms(3), of "Suc i" ?n] by (simp only: Suc_le_eq)
    then have "Suc i * k - 1 < ?n"
      using assms(3) by (metis Suc_pred' less_eq_Suc_le mult_pos_pos zero_less_Suc)
    then show ?thesis by simp
  qed
  ultimately show ?thesis
    unfolding init rbind_simps view_iter_eq [OF assms(3)]
    using assms(1) by (simp add: hashes_ok_def)
qed

theorem block_hash_view_spec_witness:
  "rbind (block_hash_view_init (block_hashes (sample_request [1, 2, 3, 4, 5])) 2 4) view_iter =
   Inr [chain_hash sample_env 2 1 (sample_request [1, 2, 3, 4, 5]) 1]"
proof -
  have init: "request_init (sample_args [1, 2, 3, 4, 5]) 0 0
      (Some (request_block_hasher sample_env (int 2) (int 1))) = Inr (sample_request [1, 2, 3, 4, 5])"
    unfolding sample_request_def by code_simp
  have "hashes_ok sample_env 2 1 (sample_request [1, 2, 3, 4, 5])"
    by (rule request_init_hashes_ok [OF init]) (simp_all add: sample_args_def mm_ordered_def)
  from block_hash_view_spec [OF this, of 2]
  have "rbind (block_hash_view_init (block_hashes (sample_request [1, 2, 3, 4, 5])) 2 4) view_iter =
      Inr (map (\<lambda>i. chain_hash sample_env 2 1 (sample_request [1, 2, 3, 4, 5]) (Suc i * 2 - 1))
        [0..<(length (all_token_ids (sample_request [1, 2, 3, 4, 5])) - 1) div 4])"
    by simp
  moreover have "length (all_token_ids (sample_request [1, 2, 3, 4, 5])) = 5"
    by code_simp
  ultimately show ?thesis by simp
qed

end
