(* ===== verification/Block_Map.thy ===== *)
theory Block_Map
  imports Block_Hash
begin

text \<open>
  The prefix-cache index \<open>BlockHashToBlockMap\<close> of \<open>vllm/v1/core/block_pool.py\<close>: a dictionary from
  packed hash keys to one block or to a dictionary of blocks. A block is named by its id. The
  locale \<open>block_index\<close> states what the pool relies on: the blocks stored under a key, in the order
  they were inserted; it is interpreted on the model's operations.
\<close>

section \<open>Operations\<close>

text \<open>\<open>Many\<close> is the inner dictionary \<open>{block_id: block}\<close>, given by its keys in insertion order.\<close>

datatype cached_blocks = One nat | Many "nat list"

type_synonym block_map = "(bytes, cached_blocks) dict"

definition get_one_block :: "block_map \<Rightarrow> bytes \<Rightarrow> nat option result" where
  "get_one_block c key =
     (case dict_get c key of
        None \<Rightarrow> Inr None
      | Some (One b) \<Rightarrow> Inr (Some b)
      | Some (Many bs) \<Rightarrow> (case bs of [] \<Rightarrow> Inl StopIteration | b # _ \<Rightarrow> Inr (Some b)))"

definition map_contain :: "block_map \<Rightarrow> bytes \<Rightarrow> nat \<Rightarrow> bool" where
  "map_contain c key block_id =
     (case dict_get c key of
        None \<Rightarrow> False
      | Some (One b) \<Rightarrow> b = block_id
      | Some (Many bs) \<Rightarrow> block_id \<in> set bs)"

definition map_insert :: "bytes \<Rightarrow> nat \<Rightarrow> block_map \<Rightarrow> block_map" where
  "map_insert key b c =
     (case dict_get c key of
        None \<Rightarrow> dict_set key (One b) c
      | Some (One b0) \<Rightarrow> dict_set key (Many (if b0 = b then [b] else [b0, b])) c
      | Some (Many bs) \<Rightarrow> dict_set key (Many (if b \<in> set bs then bs else bs @ [b])) c)"

definition map_pop :: "bytes \<Rightarrow> nat \<Rightarrow> block_map \<Rightarrow> nat option \<times> block_map" where
  "map_pop key block_id c =
     (let c' = dict_del key c in
      case dict_get c key of
        None \<Rightarrow> (None, c')
      | Some (One b) \<Rightarrow>
          (if b = block_id then (Some b, c') else (None, dict_set key (One b) c'))
      | Some (Many bs) \<Rightarrow>
          (let bs' = remove1 block_id bs
           in (if block_id \<in> set bs then Some block_id else None,
               if bs' \<noteq> [] then dict_set key (Many bs') c' else c')))"

section \<open>The interface\<close>

locale block_index =
  fixes ids :: "'c \<Rightarrow> 'k \<Rightarrow> 'b list"
    and wf :: "'c \<Rightarrow> bool"
    and empty :: 'c
    and first :: "'c \<Rightarrow> 'k \<Rightarrow> 'b option result"
    and has :: "'c \<Rightarrow> 'k \<Rightarrow> 'b \<Rightarrow> bool"
    and ins :: "'k \<Rightarrow> 'b \<Rightarrow> 'c \<Rightarrow> 'c"
    and rem :: "'k \<Rightarrow> 'b \<Rightarrow> 'c \<Rightarrow> 'b option \<times> 'c"
  assumes wf_empty: "wf empty"
    and ids_empty: "ids empty k = []"
    and ids_distinct: "wf c \<Longrightarrow> distinct (ids c k)"
    and first_ids: "wf c \<Longrightarrow> first c k = Inr (case ids c k of [] \<Rightarrow> None | b # _ \<Rightarrow> Some b)"
    and has_ids: "wf c \<Longrightarrow> has c k b \<longleftrightarrow> b \<in> set (ids c k)"
    and wf_ins: "wf c \<Longrightarrow> wf (ins k b c)"
    and ids_ins: "wf c \<Longrightarrow> ids (ins k b c) k' =
      (if k' = k \<and> b \<notin> set (ids c k) then ids c k @ [b] else ids c k')"
    and wf_rem: "wf c \<Longrightarrow> wf (snd (rem k b c))"
    and ids_rem: "wf c \<Longrightarrow> ids (snd (rem k b c)) k' = (if k' = k then remove1 b (ids c k) else ids c k')"
    and rem_result: "wf c \<Longrightarrow> fst (rem k b c) = (if b \<in> set (ids c k) then Some b else None)"
begin

text \<open>The blocks under a key as a set: insertion and removal are exact.\<close>

lemma has_ins: "wf c \<Longrightarrow> has (ins k b c) k' b' \<longleftrightarrow> has c k' b' \<or> k' = k \<and> b' = b"
  by (auto simp: has_ids wf_ins ids_ins)

lemma has_rem: "wf c \<Longrightarrow> has (snd (rem k b c)) k' b' \<longleftrightarrow> has c k' b' \<and> \<not> (k' = k \<and> b' = b)"
  by (auto simp: has_ids wf_rem ids_rem ids_distinct)

lemma rem_found: "wf c \<Longrightarrow> fst (rem k b c) \<noteq> None \<longleftrightarrow> has c k b"
  by (simp add: rem_result has_ids)

lemma first_has: "wf c \<Longrightarrow> first c k = Inr (Some b) \<Longrightarrow> has c k b"
  by (auto simp: first_ids has_ids split: list.splits)

lemma first_None_iff: "wf c \<Longrightarrow> first c k = Inr None \<longleftrightarrow> (\<forall>b. \<not> has c k b)"
  by (auto simp: first_ids has_ids split: list.splits)

lemma first_total: "wf c \<Longrightarrow> \<exists>x. first c k = Inr x"
  by (simp add: first_ids)

lemma has_empty: "\<not> has empty k b"
  by (simp add: has_ids wf_empty ids_empty)

text \<open>A key keeps serving its oldest block: inserting another does not change the answer.\<close>

lemma first_ins_stable:
  "wf c \<Longrightarrow> first c k = Inr (Some b) \<Longrightarrow> first (ins k' b' c) k = Inr (Some b)"
  by (auto simp: first_ids wf_ins ids_ins split: list.splits)

lemma first_ins_new:
  "wf c \<Longrightarrow> first c k = Inr None \<Longrightarrow> first (ins k b c) k = Inr (Some b)"
  by (auto simp: first_ids wf_ins ids_ins split: list.splits)

end

section \<open>The interpretation\<close>

fun blocks_of :: "cached_blocks option \<Rightarrow> nat list" where
  "blocks_of None = []"
| "blocks_of (Some (One b)) = [b]"
| "blocks_of (Some (Many bs)) = bs"

definition map_ids :: "block_map \<Rightarrow> bytes \<Rightarrow> nat list" where
  "map_ids c key = blocks_of (dict_get c key)"

definition map_wf :: "block_map \<Rightarrow> bool" where
  "map_wf c \<longleftrightarrow> (\<forall>key bs. dict_get c key = Some (Many bs) \<longrightarrow> bs \<noteq> [] \<and> distinct bs)"

lemma map_wfD: "map_wf c \<Longrightarrow> dict_get c key = Some (Many bs) \<Longrightarrow> bs \<noteq> [] \<and> distinct bs"
  by (simp add: map_wf_def)

interpretation bm: block_index map_ids map_wf "[]" get_one_block map_contain map_insert map_pop
proof (unfold_locales, goal_cases)
  case (3 c k)
  then show ?case
    by (cases "dict_get c k" rule: blocks_of.cases) (auto simp: map_ids_def dest: map_wfD)
next
  case (4 c k)
  then show ?case
    by (cases "dict_get c k" rule: blocks_of.cases)
      (auto simp: map_ids_def get_one_block_def dest: map_wfD split: list.split)
next
  case (5 c k b)
  then show ?case
    by (cases "dict_get c k" rule: blocks_of.cases) (auto simp: map_ids_def map_contain_def)
next
  case (6 c k b)
  then show ?case
    by (cases "dict_get c k" rule: blocks_of.cases)
      (auto simp: map_wf_def map_insert_def update_conv')
next
  case (7 c k b k')
  then show ?case
    by (cases "dict_get c k" rule: blocks_of.cases)
      (auto simp: map_ids_def map_insert_def update_conv')
next
  case (8 c k b)
  then show ?case
    by (cases "dict_get c k" rule: blocks_of.cases)
      (auto simp: map_wf_def map_pop_def update_conv' delete_conv' Let_def split: if_splits)
next
  case (9 c k b k')
  then show ?case
    by (cases "dict_get c k" rule: blocks_of.cases)
      (auto simp: map_ids_def map_pop_def update_conv' delete_conv' Let_def)
next
  case (10 c k b)
  then show ?case
    by (cases "dict_get c k" rule: blocks_of.cases) (auto simp: map_ids_def map_pop_def Let_def)
qed (simp_all add: map_ids_def map_wf_def)

end
