(* ===== verification/Block_Pool.thy ===== *)
theory Block_Pool
  imports Free_Queue Block_Map
begin

text \<open>
  \<open>BlockPool\<close> of \<open>vllm/v1/core/block_pool.py\<close>: allocation, reference counting, prefix-cache
  registration and eviction of KV-cache blocks. A block is named by its id, its index in
  \<open>pool_blocks\<close>; the free list is the linked structure of \<open>Free_Queue\<close> and the prefix-cache index
  the dictionary of \<open>Block_Map\<close>.

  Calls that leave the pool are recorded: \<open>reuse_log\<close> lists the callbacks fired by
  \<open>_notify_reuse\<close> and \<open>metrics_log\<close> the calls on the metrics collector, if there is one. The set
  of secondary hashes of a block is a list in insertion order; Python's iteration order of that
  set only decides the order of removal events. \<open>pool_env\<close> and \<open>int_event_hashes\<close> hold the hash
  functions and the environment flag the event code reads.
\<close>

section \<open>State\<close>

record kv_block =
  ref_cnt :: int
  block_hash :: "bytes option"
  block_hash_num_tokens :: "int option"
  is_null :: bool

record block_stored =
  bs_block_hashes :: "external_block_hash list option"
  bs_parent_block_hash :: "external_block_hash option"
  bs_token_ids :: "int list"
  bs_block_size :: int
  bs_lora_id :: "int option"
  bs_medium :: string
  bs_lora_name :: "string option"
  bs_extra_keys :: "event_key list option list option"
  bs_group_idx :: int
  bs_session_id :: "string option"
  bs_lookahead_token_ids :: "int list list option"

datatype kv_event =
    BlockStored block_stored
  | BlockRemoved "external_block_hash list" string int
  | AllBlocksCleared

datatype metric_event = OnAllocated nat | OnEvicted nat | OnAccessed nat | MetricsReset

record block_pool =
  num_gpu_blocks :: int
  pool_medium :: string
  enable_caching :: bool
  hash_block_size :: int
  num_hash_lookahead_tokens :: int
  pool_blocks :: "kv_block list"
  free_block_queue :: free_queue
  cached_block_hash_to_block :: block_map
  cached_block_hashes_by_block :: "(nat, bytes list) dict"
  null_block :: nat
  enable_kv_cache_events :: bool
  kv_event_queue :: "kv_event list"
  metrics_log :: "metric_event list option"
  reuse_watchers :: "(nat, nat) dict"
  reuse_log :: "(nat \<times> nat) list"
  pool_env :: hash_env
  int_event_hashes :: bool

abbreviation block_at :: "block_pool \<Rightarrow> nat \<Rightarrow> kv_block" where
  "block_at p b \<equiv> pool_blocks p ! b"

definition update_block :: "nat \<Rightarrow> (kv_block \<Rightarrow> kv_block) \<Rightarrow> block_pool \<Rightarrow> block_pool" where
  "update_block b f p = p\<lparr>pool_blocks := (pool_blocks p)[b := f (block_at p b)]\<rparr>"

definition log_metric :: "metric_event \<Rightarrow> block_pool \<Rightarrow> block_pool" where
  "log_metric ev p = p\<lparr>metrics_log := map_option (\<lambda>evs. evs @ [ev]) (metrics_log p)\<rparr>"

definition push_event :: "kv_event \<Rightarrow> block_pool \<Rightarrow> block_pool" where
  "push_event ev p = p\<lparr>kv_event_queue := kv_event_queue p @ [ev]\<rparr>"

fun blk_id :: "block_ref \<Rightarrow> nat" where
  "blk_id (Blk b) = b"

definition fresh_block :: kv_block where
  "fresh_block =
     \<lparr>ref_cnt = 0, block_hash = None, block_hash_num_tokens = None, is_null = False\<rparr>"

definition set_block_hash :: "bytes \<Rightarrow> int option \<Rightarrow> kv_block \<Rightarrow> kv_block result" where
  "set_block_hash h num_toks k =
     rbind (py_assert (block_hash k = None \<and> block_hash_num_tokens k = None)) (\<lambda>_.
       Inr (k\<lparr>block_hash := Some h, block_hash_num_tokens := num_toks\<rparr>))"

definition reset_hash :: "kv_block \<Rightarrow> kv_block" where
  "reset_hash k = k\<lparr>block_hash := None, block_hash_num_tokens := None\<rparr>"

section \<open>Construction\<close>

definition block_pool_init ::
  "hash_env \<Rightarrow> bool \<Rightarrow> int \<Rightarrow> bool \<Rightarrow> int \<Rightarrow> bool \<Rightarrow> bool \<Rightarrow> int \<Rightarrow> string \<Rightarrow> block_pool result" where
  "block_pool_init env use_int num caching hbs kv_events with_metrics lookahead med =
     rbind (py_assert (num > 0)) (\<lambda>_.
       let bs = replicate (nat num) fresh_block;
           q = free_queue_init (map Blk [0..<nat num])
       in rbind (popleft q) (\<lambda>(nb, q').
            Inr \<lparr>num_gpu_blocks = num, pool_medium = med, enable_caching = caching,
                 hash_block_size = hbs, num_hash_lookahead_tokens = lookahead,
                 pool_blocks = bs[blk_id nb := (bs ! blk_id nb)\<lparr>is_null := True\<rparr>],
                 free_block_queue = q', cached_block_hash_to_block = [],
                 cached_block_hashes_by_block = [], null_block = blk_id nb,
                 enable_kv_cache_events = kv_events, kv_event_queue = [],
                 metrics_log = (if with_metrics then Some [] else None),
                 reuse_watchers = [], reuse_log = [],
                 pool_env = env, int_event_hashes = use_int\<rparr>))"

section \<open>Lookup\<close>

fun get_cached_block :: "block_pool \<Rightarrow> bytes \<Rightarrow> int list \<Rightarrow> nat list option result" where
  "get_cached_block p h [] = Inr (Some [])"
| "get_cached_block p h (g # gs) =
     rbind (make_block_hash_with_group_id h g) (\<lambda>key.
       rbind (get_one_block (cached_block_hash_to_block p) key) (\<lambda>found.
         case found of
           None \<Rightarrow> Inr None
         | Some b \<Rightarrow> rbind (get_cached_block p h gs) (\<lambda>rest. Inr (map_option (Cons b) rest))))"

section \<open>Hash bookkeeping\<close>

fun pop_hashes :: "nat \<Rightarrow> bytes list \<Rightarrow> block_map \<Rightarrow> bytes list \<times> block_map" where
  "pop_hashes b [] c = ([], c)"
| "pop_hashes b (h # hs) c =
     (let (found, c') = map_pop h b c; (removed, c'') = pop_hashes b hs c'
      in (if found \<noteq> None then h # removed else removed, c''))"

definition secondary_hashes :: "block_pool \<Rightarrow> nat \<Rightarrow> bytes list" where
  "secondary_hashes p b =
     (case dict_get (cached_block_hashes_by_block p) b of None \<Rightarrow> [] | Some hs \<Rightarrow> hs)"

definition block_hash_keys :: "block_pool \<Rightarrow> nat \<Rightarrow> bytes list" where
  "block_hash_keys p b =
     (case block_hash (block_at p b) of None \<Rightarrow> [] | Some h \<Rightarrow> [h]) @ secondary_hashes p b"

definition remove_cached_block_hashes :: "nat \<Rightarrow> block_pool \<Rightarrow> bytes list \<times> block_pool" where
  "remove_cached_block_hashes b p =
     (let hs = block_hash_keys p b;
          p1 = p\<lparr>cached_block_hashes_by_block := dict_del b (cached_block_hashes_by_block p)\<rparr>
      in if hs = [] then ([], p1)
         else let (removed, c) = pop_hashes b hs (cached_block_hash_to_block p1)
              in (removed, update_block b reset_hash (p1\<lparr>cached_block_hash_to_block := c\<rparr>)))"

definition removed_event :: "block_pool \<Rightarrow> bytes \<Rightarrow> kv_event" where
  "removed_event p key =
     BlockRemoved [maybe_convert_block_hash (int_event_hashes p) (get_block_hash key)]
       (pool_medium p) (get_group_id key)"

definition emit_block_removed_events :: "bytes list \<Rightarrow> block_pool \<Rightarrow> block_pool" where
  "emit_block_removed_events hs p =
     (if \<not> enable_kv_cache_events p then p
      else p\<lparr>kv_event_queue := kv_event_queue p @ map (removed_event p) hs\<rparr>)"

definition insert_block_hash :: "bytes \<Rightarrow> nat \<Rightarrow> int option \<Rightarrow> block_pool \<Rightarrow> block_pool result" where
  "insert_block_hash key b num_toks p =
     (if block_hash (block_at p b) = Some key then Inr p
      else if map_contain (cached_block_hash_to_block p) key b then Inr p
      else rbind
        (if block_hash (block_at p b) = None
         then rbind (set_block_hash key num_toks (block_at p b)) (\<lambda>k. Inr (update_block b (\<lambda>_. k) p))
         else let hs = secondary_hashes p b
              in Inr (p\<lparr>cached_block_hashes_by_block :=
                         dict_set b (if key \<in> set hs then hs else hs @ [key])
                           (cached_block_hashes_by_block p)\<rparr>))
        (\<lambda>p'. Inr (p'\<lparr>cached_block_hash_to_block :=
                       map_insert key b (cached_block_hash_to_block p')\<rparr>)))"

definition move_block_hashes :: "nat \<Rightarrow> nat \<Rightarrow> block_pool \<Rightarrow> block_pool result" where
  "move_block_hashes src dst p =
     rbind (py_assert (block_hash (block_at p dst) = None)) (\<lambda>_.
       rbind (py_assert (dict_get (cached_block_hashes_by_block p) dst = None)) (\<lambda>_.
         let num_toks = block_hash_num_tokens (block_at p src);
             (removed, p') = remove_cached_block_hashes src p
         in rfold (\<lambda>h. insert_block_hash h dst num_toks) removed p'))"

section \<open>Events\<close>

definition generate_event_extra_keys ::
  "block_pool \<Rightarrow> request \<Rightarrow> int \<Rightarrow> int \<Rightarrow> int \<Rightarrow> (extra_key list option \<times> int \<times> embeds_memo) result" where
  "generate_event_extra_keys p r start_idx end_idx mm_idx =
     (if num_hash_lookahead_tokens p \<noteq> 0
      then generate_lookahead_block_hash_extra_keys (pool_env p) r (prompt_embeds_per_block_hashes r)
             start_idx end_idx (end_idx + num_hash_lookahead_tokens p) mm_idx
      else generate_block_hash_extra_keys (pool_env p) r (prompt_embeds_per_block_hashes r)
             start_idx end_idx mm_idx)"

definition get_lookahead_token_ids :: "block_pool \<Rightarrow> request \<Rightarrow> int \<Rightarrow> int list" where
  "get_lookahead_token_ids p r block_end =
     py_slice (all_token_ids r) block_end (block_end + num_hash_lookahead_tokens p)"

definition build_block_stored_event ::
  "block_pool \<Rightarrow> request \<Rightarrow> external_block_hash list option \<Rightarrow> external_block_hash option \<Rightarrow> int \<Rightarrow> int \<Rightarrow>
   int \<Rightarrow> int \<Rightarrow> extra_key list option list \<Rightarrow> int list list option \<Rightarrow> kv_event" where
  "build_block_stored_event p r hashes parent start_idx end_idx block_size group_id keys ahead =
     BlockStored
       \<lparr>bs_block_hashes = hashes, bs_parent_block_hash = parent,
        bs_token_ids = py_slice (all_token_ids r) start_idx end_idx,
        bs_block_size = block_size, bs_lora_id = map_option lora_int_id (lora_request r),
        bs_medium = pool_medium p, bs_lora_name = map_option lora_name (lora_request r),
        bs_extra_keys = to_event_extra_keys (Some keys), bs_group_idx = group_id,
        bs_session_id = session_id r, bs_lookahead_token_ids = ahead\<rparr>"

text \<open>Indexing and slicing a list of hashes or a view of one.\<close>

fun hash_list_get :: "block_hash_list \<Rightarrow> int \<Rightarrow> bytes result" where
  "hash_list_get (RawHashes hs) i = py_index hs i"
| "hash_list_get (HashView v) i = view_get v i"

fun hash_list_from :: "block_hash_list \<Rightarrow> int \<Rightarrow> bytes list result" where
  "hash_list_from (RawHashes hs) i = Inr (py_slice hs i (int (length hs)))"
| "hash_list_from (HashView v) i = rbind (view_len v) (\<lambda>n. view_slice v i n)"

text \<open>The extra keys and lookahead tokens of the block at index \<open>i\<close>; the request's digest memo is
  filled on the way.\<close>

definition event_block_keys ::
  "block_pool \<Rightarrow> int \<Rightarrow> nat \<Rightarrow> int \<Rightarrow> request \<Rightarrow>
   (extra_key list option \<times> int list \<times> int \<times> request) result" where
  "event_block_keys p block_size i mm_idx r =
     (let block_start = int i * block_size; block_end = block_start + block_size
      in rbind (generate_event_extra_keys p r block_start block_end mm_idx) (\<lambda>(ks, mm_idx', memo).
           Inr (ks, get_lookahead_token_ids p r block_end, mm_idx',
                r\<lparr>prompt_embeds_per_block_hashes := memo\<rparr>)))"

definition lookahead_list :: "block_pool \<Rightarrow> int list list \<Rightarrow> int list list option" where
  "lookahead_list p aheads = (if num_hash_lookahead_tokens p \<noteq> 0 then Some aheads else None)"

section \<open>Caching blocks\<close>

text \<open>Whether the block at position \<open>i\<close> is null or masked out; \<open>mask\<close> is aligned with the blocks
  from \<open>num_cached\<close> on.\<close>

definition block_skipped :: "block_pool \<Rightarrow> bool list option \<Rightarrow> nat \<Rightarrow> nat \<Rightarrow> bool" where
  "block_skipped p block_mask i b \<longleftrightarrow>
     is_null (block_at p b) \<or> (case block_mask of None \<Rightarrow> False | Some ms \<Rightarrow> \<not> ms ! i)"

fun store_event_loop ::
  "block_pool \<Rightarrow> int \<Rightarrow> nat list \<Rightarrow> bool list option \<Rightarrow> nat \<Rightarrow> nat list \<Rightarrow> int \<Rightarrow> request \<Rightarrow>
   (extra_key list option list \<times> int list list \<times> request) result" where
  "store_event_loop p block_size bs block_mask num_cached [] mm_idx r = Inr ([], [], r)"
| "store_event_loop p block_size bs block_mask num_cached (i # is) mm_idx r =
     rbind (py_index bs (int i)) (\<lambda>b.
       if block_skipped p block_mask (i - num_cached) b
       then store_event_loop p block_size bs block_mask num_cached is mm_idx r
       else rbind (event_block_keys p block_size i mm_idx r) (\<lambda>(ks, ahead, mm_idx', r').
         rbind (store_event_loop p block_size bs block_mask num_cached is mm_idx' r')
           (\<lambda>(kss, aheads, r''). Inr (ks # kss, ahead # aheads, r''))))"

text \<open>The body of the loop of \<open>cache_full_blocks\<close> for one block that is not skipped.\<close>

definition cache_one_full_block ::
  "int \<Rightarrow> bytes \<Rightarrow> int \<Rightarrow> nat \<Rightarrow> block_pool \<Rightarrow> block_pool result" where
  "cache_one_full_block group_id h num_hash_tokens b p =
     rbind (make_block_hash_with_group_id h group_id) (\<lambda>key.
       rbind
         (if block_hash (block_at p b) \<noteq> None
          then rbind (py_assert (case block_hash_num_tokens (block_at p b) of
                                   None \<Rightarrow> False | Some n \<Rightarrow> n < num_hash_tokens))
                 (\<lambda>_. let (removed, p') = remove_cached_block_hashes b p
                      in Inr (emit_block_removed_events removed p'))
          else Inr p)
         (insert_block_hash key b (Some num_hash_tokens)))"

fun cache_full_loop ::
  "bool list option \<Rightarrow> bytes list \<Rightarrow> nat \<Rightarrow> int \<Rightarrow> int \<Rightarrow> nat \<Rightarrow> nat list \<Rightarrow> external_block_hash list \<Rightarrow>
   block_pool \<Rightarrow> (external_block_hash list \<times> block_pool) result" where
  "cache_full_loop block_mask new_hashes num_cached block_size group_id i [] acc p = Inr (acc, p)"
| "cache_full_loop block_mask new_hashes num_cached block_size group_id i (b # bs) acc p =
     (if block_skipped p block_mask i b
      then cache_full_loop block_mask new_hashes num_cached block_size group_id (i + 1) bs acc p
      else rbind (py_index new_hashes (int i)) (\<lambda>h.
        rbind (cache_one_full_block group_id h (int (num_cached + i + 1) * block_size) b p) (\<lambda>p'.
          cache_full_loop block_mask new_hashes num_cached block_size group_id (i + 1) bs
            (acc @ [maybe_convert_block_hash (int_event_hashes p) h]) p')))"

definition cache_full_blocks ::
  "request \<Rightarrow> nat list \<Rightarrow> nat \<Rightarrow> nat \<Rightarrow> int \<Rightarrow> int \<Rightarrow> bool list option \<Rightarrow> block_pool \<Rightarrow>
   (request \<times> block_pool) result" where
  "cache_full_blocks r bs num_cached num_full block_size group_id block_mask p =
     (if num_cached \<ge> num_full then Inr (r, p)
      else let new_full = take (num_full - num_cached) (drop num_cached bs)
      in rbind (py_assert (case block_mask of None \<Rightarrow> True | Some ms \<Rightarrow> length ms = length new_full)) (\<lambda>_.
        rbind (resolve_block_hashes (RawHashes (block_hashes r)) (hash_block_size p) block_size False None)
          (\<lambda>hashes.
        rbind (hash_list_from hashes (int num_cached)) (\<lambda>new_hashes.
        rbind (cache_full_loop block_mask new_hashes num_cached block_size group_id 0 new_full [] p)
          (\<lambda>(stored, p1).
          if \<not> enable_kv_cache_events p1 then Inr (r, p1)
          else
            rbind (if num_cached = 0 then Inr None
                   else rbind (hash_list_get hashes (int num_cached - 1))
                          (\<lambda>h. Inr (Some (maybe_convert_block_hash (int_event_hashes p1) h))))
              (\<lambda>parent.
            rbind (store_event_loop p1 block_size bs block_mask num_cached [num_cached..<num_full] 0 r)
              (\<lambda>(kss, aheads, r').
                 Inr (r', push_event
                   (build_block_stored_event p1 r (Some stored) parent
                      (int num_cached * block_size) (int num_full * block_size) block_size group_id
                      kss (lookahead_list p1 aheads)) p1))))))))"

fun cached_event_loop ::
  "block_pool \<Rightarrow> int \<Rightarrow> block_hash_list \<Rightarrow> nat list \<Rightarrow> int \<Rightarrow> request \<Rightarrow>
   (external_block_hash list \<times> extra_key list option list \<times> int list list \<times> request) result" where
  "cached_event_loop p block_size hashes [] mm_idx r = Inr ([], [], [], r)"
| "cached_event_loop p block_size hashes (i # is) mm_idx r =
     rbind (hash_list_get hashes (int i)) (\<lambda>h.
       rbind (event_block_keys p block_size i mm_idx r) (\<lambda>(ks, ahead, mm_idx', r').
         rbind (cached_event_loop p block_size hashes is mm_idx' r') (\<lambda>(hs, kss, aheads, r'').
           Inr (maybe_convert_block_hash (int_event_hashes p) h # hs, ks # kss, ahead # aheads, r''))))"

definition emit_cached_block_events ::
  "request \<Rightarrow> nat \<Rightarrow> int \<Rightarrow> int \<Rightarrow> block_pool \<Rightarrow> (request \<times> block_pool) result" where
  "emit_cached_block_events r num_cached block_size group_id p =
     (if \<not> enable_kv_cache_events p \<or> num_cached = 0 then Inr (r, p)
      else
        rbind (resolve_block_hashes (RawHashes (block_hashes r)) (hash_block_size p) block_size False None)
          (\<lambda>hashes.
        rbind (cached_event_loop p block_size hashes [0..<num_cached] 0 r) (\<lambda>(hs, kss, aheads, r').
          if hs = [] then Inr (r', p)
          else Inr (r', push_event
            (build_block_stored_event p r (Some hs) None 0 (int num_cached * block_size) block_size
               group_id kss (lookahead_list p aheads)) p))))"

definition get_partial_block_hash :: "block_pool \<Rightarrow> request \<Rightarrow> int \<Rightarrow> bytes result" where
  "get_partial_block_hash p r num_toks =
     (if hash_block_size p = 0 then Inl ZeroDivisionError
      else rbind (py_assert (num_toks mod hash_block_size p = 0)) (\<lambda>_.
        let num_hash_blocks = num_toks div hash_block_size p
        in rbind (py_assert (0 < num_hash_blocks \<and> num_hash_blocks \<le> int (length (block_hashes r))))
             (\<lambda>_. py_index (block_hashes r) (num_hash_blocks - 1))))"

definition get_partial_block_parent_hash_and_start ::
  "block_pool \<Rightarrow> request \<Rightarrow> int \<Rightarrow> (bytes option \<times> int) result" where
  "get_partial_block_parent_hash_and_start p r num_toks =
     (let num_hash_blocks = num_toks div hash_block_size p
      in rbind (if num_hash_blocks > 1
                then rbind (py_index (block_hashes r) (num_hash_blocks - 2)) (\<lambda>h. Inr (Some h))
                else Inr None)
           (\<lambda>parent. Inr (parent, (num_hash_blocks - 1) * hash_block_size p)))"

definition partial_block_event ::
  "block_pool \<Rightarrow> request \<Rightarrow> bytes \<Rightarrow> int \<Rightarrow> int \<Rightarrow> (request \<times> kv_event) result" where
  "partial_block_event p r h num_toks group_id =
     rbind (get_partial_block_parent_hash_and_start p r num_toks) (\<lambda>(parent, block_start).
       let fs = mm_features r;
           mm_idx = (if block_start > 0 \<and> fs \<noteq> [] \<and> mm_end (last fs) > block_start
                     then int (fst (get_mm_features_in_window fs block_start num_toks)) else 0)
       in rbind (generate_event_extra_keys p r block_start num_toks mm_idx) (\<lambda>(ks, _, memo).
            Inr (r\<lparr>prompt_embeds_per_block_hashes := memo\<rparr>,
                 build_block_stored_event p r (Some [maybe_convert_block_hash (int_event_hashes p) h])
                   (map_option (maybe_convert_block_hash (int_event_hashes p)) parent)
                   block_start num_toks (num_toks - block_start) group_id [ks]
                   (lookahead_list p [get_lookahead_token_ids p r num_toks]))))"

definition cache_partial_block ::
  "request \<Rightarrow> nat \<Rightarrow> int \<Rightarrow> int \<Rightarrow> int \<Rightarrow> bool \<Rightarrow> block_pool \<Rightarrow>
   (bytes option \<times> request \<times> block_pool) result" where
  "cache_partial_block r b num_toks group_id block_size replace_existing p =
     (if is_null (block_at p b) then Inr (None, r, p)
      else if hash_block_size p = 0 then Inl ZeroDivisionError
      else
        rbind (py_assert (block_size mod hash_block_size p = 0)) (\<lambda>_.
        rbind (get_partial_block_hash p r num_toks) (\<lambda>h.
        rbind (make_block_hash_with_group_id h group_id) (\<lambda>key.
          let boundary = num_toks div hash_block_size p * hash_block_size p;
              present = block_hash (block_at p b) = Some key \<or>
                map_contain (cached_block_hash_to_block p) key b;
              drop_old = replace_existing \<or>
                \<not> present \<and> block_hash (block_at p b) \<noteq> None \<and>
                (case block_hash_num_tokens (block_at p b) of None \<Rightarrow> False | Some n \<Rightarrow> n < boundary);
              p1 = (if drop_old
                    then let (removed, p') = remove_cached_block_hashes b p
                         in emit_block_removed_events removed p'
                    else p);
              already_cached = (present \<and> \<not> replace_existing)
          in rbind (insert_block_hash key b (Some boundary) p1) (\<lambda>p2.
               if enable_kv_cache_events p2 \<and> \<not> already_cached
               then rbind (partial_block_event p2 r h num_toks group_id)
                      (\<lambda>(r', ev). Inr (Some key, r', push_event ev p2))
               else Inr (Some key, r, p2))))))"

section \<open>Allocation and release\<close>

definition get_num_free_blocks :: "block_pool \<Rightarrow> int" where
  "get_num_free_blocks p = num_free_blocks (free_block_queue p)"

definition notify_reuse :: "nat \<Rightarrow> block_pool \<Rightarrow> block_pool" where
  "notify_reuse b p =
     (case dict_get (reuse_watchers p) b of
        None \<Rightarrow> p
      | Some w \<Rightarrow> p\<lparr>reuse_watchers := dict_del b (reuse_watchers p),
                    reuse_log := reuse_log p @ [(w, b)]\<rparr>)"

definition maybe_evict_cached_block :: "nat \<Rightarrow> block_pool \<Rightarrow> bool \<times> block_pool" where
  "maybe_evict_cached_block b p =
     (let (evicted, p') = remove_cached_block_hashes b (log_metric (OnEvicted b) p)
      in if evicted = [] then (False, p') else (True, emit_block_removed_events evicted p'))"

definition take_block :: "nat \<Rightarrow> block_pool \<Rightarrow> block_pool result" where
  "take_block b p =
     (let p1 = (if enable_caching p then snd (maybe_evict_cached_block b p) else p)
      in rbind (py_assert (ref_cnt (block_at p1 b) = 0)) (\<lambda>_.
           Inr (log_metric (OnAllocated b)
                  (update_block b (\<lambda>k. k\<lparr>ref_cnt := ref_cnt k + 1\<rparr>) p1))))"

definition get_new_blocks :: "int \<Rightarrow> block_pool \<Rightarrow> (nat list \<times> block_pool) result" where
  "get_new_blocks num_blocks p =
     (if num_blocks > get_num_free_blocks p then Inl ValueError
      else rbind (popleft_n num_blocks (free_block_queue p)) (\<lambda>(refs, q).
        let ret = map blk_id refs; p1 = p\<lparr>free_block_queue := q\<rparr>;
            p2 = (if reuse_watchers p1 \<noteq> [] then fold notify_reuse ret p1 else p1)
        in rbind (rfold take_block ret p2) (\<lambda>p3. Inr (ret, p3))))"

fun unpin_loop :: "nat \<Rightarrow> nat list \<Rightarrow> nat list \<Rightarrow> block_pool \<Rightarrow> (nat list \<times> block_pool) result" where
  "unpin_loop w [] released p = Inr (released, p)"
| "unpin_loop w (b # bs) released p =
     rbind (py_assert (ref_cnt (block_at p b) > 0 \<and> \<not> is_null (block_at p b))) (\<lambda>_.
       let p1 = update_block b (\<lambda>k. k\<lparr>ref_cnt := ref_cnt k - 1\<rparr>) p;
           p2 = p1\<lparr>reuse_watchers := dict_set b w (reuse_watchers p1)\<rparr>
       in unpin_loop w bs (if ref_cnt (block_at p2 b) = 0 then released @ [b] else released) p2)"

definition unpin_blocks :: "nat list \<Rightarrow> nat \<Rightarrow> block_pool \<Rightarrow> block_pool result" where
  "unpin_blocks bs on_reuse p =
     rbind (unpin_loop on_reuse bs [] p) (\<lambda>(released, p').
       rbind (append_n (map Blk released) (free_block_queue p'))
         (\<lambda>q. Inr (p'\<lparr>free_block_queue := q\<rparr>)))"

definition touch_block :: "nat \<Rightarrow> block_pool \<Rightarrow> block_pool result" where
  "touch_block b p =
     (if is_null (block_at p b) then Inr p
      else rbind (if ref_cnt (block_at p b) = 0
                  then rbind (queue_remove (Blk b) (free_block_queue p))
                         (\<lambda>q. Inr (p\<lparr>free_block_queue := q\<rparr>))
                  else Inr p)
        (\<lambda>p1. Inr (log_metric (OnAccessed b)
                     (update_block b (\<lambda>k. k\<lparr>ref_cnt := ref_cnt k + 1\<rparr>) p1))))"

definition touch :: "nat list \<Rightarrow> block_pool \<Rightarrow> block_pool result" where
  "touch bs p = rfold touch_block bs p"

definition is_block_writable :: "block_pool \<Rightarrow> nat \<Rightarrow> bool" where
  "is_block_writable p b \<longleftrightarrow>
     \<not> is_null (block_at p b) \<and> ref_cnt (block_at p b) = 1 \<and> block_hash (block_at p b) = None"

text \<open>The loop of \<open>free_blocks\<close> over the blocks of this pool: the blocks to reuse first and last.\<close>

fun free_loop :: "nat list \<Rightarrow> nat list \<Rightarrow> nat list \<Rightarrow> block_pool \<Rightarrow> nat list \<times> nat list \<times> block_pool" where
  "free_loop [] evict_first evict_last p = (evict_first, evict_last, p)"
| "free_loop (b # bs) evict_first evict_last p =
     (if is_null (block_at p b) then free_loop bs evict_first evict_last p
      else
        let p1 = update_block b (\<lambda>k. k\<lparr>ref_cnt := ref_cnt k - 1\<rparr>) p; k = block_at p1 b in
        if ref_cnt k = 0
        then if block_hash k = None \<or> \<not> enable_caching p1
             then free_loop bs (evict_first @ [b]) evict_last p1
             else free_loop bs evict_first (evict_last @ [b]) p1
        else free_loop bs evict_first evict_last p1)"

definition free_own_blocks :: "nat list \<Rightarrow> block_pool \<Rightarrow> block_pool result" where
  "free_own_blocks bs p =
     (let (evict_first, evict_last, p1) = free_loop bs [] [] p
      in rbind (prepend_n (map Blk evict_first) (free_block_queue p1)) (\<lambda>q.
           rbind (append_n (map Blk evict_last) q) (\<lambda>q'. Inr (p1\<lparr>free_block_queue := q'\<rparr>))))"

text \<open>Blocks of other pools are collected per pool, in the order the pools first occur, and freed
  by their own pool afterwards. Pools are named by their index.\<close>

fun other_pool_blocks ::
  "block_pool list \<Rightarrow> nat \<Rightarrow> (nat \<times> nat) list \<Rightarrow> (nat, nat list) dict \<Rightarrow> (nat, nat list) dict" where
  "other_pool_blocks ps self [] acc = acc"
| "other_pool_blocks ps self ((i, b) # bs) acc =
     (if i \<noteq> self \<and> \<not> is_null (block_at (ps ! i) b)
      then other_pool_blocks ps self bs
             (dict_set i ((case dict_get acc i of None \<Rightarrow> [] | Some xs \<Rightarrow> xs) @ [b]) acc)
      else other_pool_blocks ps self bs acc)"

definition free_blocks :: "nat \<Rightarrow> (nat \<times> nat) list \<Rightarrow> block_pool list \<Rightarrow> block_pool list result" where
  "free_blocks self ordered_blocks ps =
     (let own = map snd (filter (\<lambda>(i, b). i = self) ordered_blocks);
          others = other_pool_blocks ps self ordered_blocks []
      in rbind (free_own_blocks own (ps ! self)) (\<lambda>p.
           rfold (\<lambda>(i, bs) ps'. rbind (free_own_blocks bs (ps' ! i)) (\<lambda>p'. Inr (ps'[i := p'])))
             others (ps[self := p])))"

definition evict_block :: "int \<Rightarrow> block_pool \<Rightarrow> block_pool result" where
  "evict_block block_id p =
     rbind (py_assert (block_id < int (length (pool_blocks p)))) (\<lambda>_.
       rbind (py_index [0..<length (pool_blocks p)] block_id) (\<lambda>b.
         Inr (snd (maybe_evict_cached_block b p))))"

definition evict_blocks :: "int list \<Rightarrow> block_pool \<Rightarrow> block_pool result" where
  "evict_blocks block_ids p = rfold evict_block block_ids p"

definition reset_prefix_cache :: "block_pool \<Rightarrow> bool \<times> block_pool" where
  "reset_prefix_cache p =
     (let num_used_blocks = num_gpu_blocks p - get_num_free_blocks p
      in if num_used_blocks \<noteq> 1 then (False, p)
         else
           let p1 = p\<lparr>cached_block_hash_to_block := [], cached_block_hashes_by_block := []\<rparr>;
               p2 = fold notify_reuse (dict_keys (reuse_watchers p1)) p1;
               p3 = p2\<lparr>pool_blocks := map reset_hash (pool_blocks p2)\<rparr>;
               p4 = log_metric MetricsReset p3
           in (True, if enable_kv_cache_events p4 then push_event AllBlocksCleared p4 else p4))"

definition get_usage :: "block_pool \<Rightarrow> rat" where
  "get_usage p =
     (let total = num_gpu_blocks p - 1
      in if total = 0 then 0 else 1 - of_int (get_num_free_blocks p) / of_int total)"

definition pool_take_events :: "block_pool \<Rightarrow> kv_event list \<times> block_pool" where
  "pool_take_events p =
     (if \<not> enable_kv_cache_events p then ([], p)
      else (kv_event_queue p, p\<lparr>kv_event_queue := []\<rparr>))"

end
