(* ===== verification/Pool_Invariant.thy ===== *)
theory Pool_Invariant
  imports Block_Pool
begin

text \<open>
  The invariants of a block pool and the effect of every operation on them. \<open>free_inv\<close>: the free
  list holds exactly the blocks without references. \<open>cache_inv\<close>: the prefix-cache index and the
  hashes stored in the blocks agree. Hash-only operations are shown to keep all reference
  counts (\<open>kept\<close>), reference-count operations to keep all hashes (\<open>refs_moved\<close>).
\<close>

section \<open>Invariants\<close>

named_theorems pool_simps \<open>projections of updated pools\<close>

definition free_ids :: "block_pool \<Rightarrow> nat set" where
  "free_ids p =
     {b. b < length (pool_blocks p) \<and> b \<noteq> null_block p \<and> ref_cnt (block_at p b) = 0}"

text \<open>Reference counts and the free list: the free list holds exactly the blocks nobody uses.\<close>

definition free_inv :: "block_pool \<Rightarrow> bool" where
  "free_inv p \<longleftrightarrow>
     num_gpu_blocks p = int (length (pool_blocks p)) \<and> null_block p < length (pool_blocks p) \<and>
     (\<forall>b < length (pool_blocks p). is_null (block_at p b) \<longleftrightarrow> b = null_block p) \<and>
     (\<forall>b < length (pool_blocks p). 0 \<le> ref_cnt (block_at p b)) \<and>
     (\<exists>xs. queue_rep (free_block_queue p) (map Blk xs) \<and> set xs = free_ids p)"

text \<open>The prefix-cache index: a block is found under a key exactly when the key is one of its
  hashes, and the null block has none.\<close>

definition cache_inv :: "block_pool \<Rightarrow> bool" where
  "cache_inv p \<longleftrightarrow>
     map_wf (cached_block_hash_to_block p) \<and>
     (\<forall>key b. map_contain (cached_block_hash_to_block p) key b \<longleftrightarrow>
        b < length (pool_blocks p) \<and> key \<in> set (block_hash_keys p b)) \<and>
     (\<forall>b < length (pool_blocks p). distinct (block_hash_keys p b)) \<and>
     (\<forall>b < length (pool_blocks p). block_hash (block_at p b) = None \<longrightarrow>
        block_hash_num_tokens (block_at p b) = None \<and> secondary_hashes p b = []) \<and>
     block_hash_keys p (null_block p) = []"

definition pool_inv :: "block_pool \<Rightarrow> bool" where
  "pool_inv p \<longleftrightarrow> free_inv p \<and> cache_inv p"

text \<open>What a hash-only operation leaves alone, and what a reference-count operation leaves alone.\<close>

definition same_refs :: "block_pool \<Rightarrow> block_pool \<Rightarrow> bool" where
  "same_refs p p' \<longleftrightarrow>
     length (pool_blocks p') = length (pool_blocks p) \<and>
     (\<forall>b < length (pool_blocks p). ref_cnt (block_at p' b) = ref_cnt (block_at p b) \<and>
        is_null (block_at p' b) = is_null (block_at p b)) \<and>
     num_gpu_blocks p' = num_gpu_blocks p \<and> null_block p' = null_block p \<and>
     free_block_queue p' = free_block_queue p \<and> enable_caching p' = enable_caching p"

definition same_hashes :: "block_pool \<Rightarrow> block_pool \<Rightarrow> bool" where
  "same_hashes p p' \<longleftrightarrow>
     length (pool_blocks p') = length (pool_blocks p) \<and>
     (\<forall>b < length (pool_blocks p). block_hash (block_at p' b) = block_hash (block_at p b) \<and>
        block_hash_num_tokens (block_at p' b) = block_hash_num_tokens (block_at p b)) \<and>
     null_block p' = null_block p \<and>
     cached_block_hash_to_block p' = cached_block_hash_to_block p \<and>
     cached_block_hashes_by_block p' = cached_block_hashes_by_block p"

lemma same_refs_refl [simp]: "same_refs p p"
  by (simp add: same_refs_def)

lemma same_refs_trans: "same_refs p p' \<Longrightarrow> same_refs p' p'' \<Longrightarrow> same_refs p p''"
  by (auto simp: same_refs_def)

lemma same_hashes_refl [simp]: "same_hashes p p"
  by (simp add: same_hashes_def)

lemma same_hashes_trans: "same_hashes p p' \<Longrightarrow> same_hashes p' p'' \<Longrightarrow> same_hashes p p''"
  by (auto simp: same_hashes_def)

lemma same_refs_free_inv: "same_refs p p' \<Longrightarrow> free_inv p \<Longrightarrow> free_inv p'"
proof -
  assume same: "same_refs p p'" and inv: "free_inv p"
  then have "free_ids p' = free_ids p"
    by (auto simp: same_refs_def free_ids_def)
  with same inv show "free_inv p'"
    by (auto simp: same_refs_def free_inv_def)
qed

lemma same_hashes_keys:
  "same_hashes p p' \<Longrightarrow> b < length (pool_blocks p) \<Longrightarrow> block_hash_keys p' b = block_hash_keys p b"
  by (simp add: same_hashes_def block_hash_keys_def secondary_hashes_def)

lemma same_hashes_cache_inv:
  assumes "same_hashes p p'" "cache_inv p" "null_block p < length (pool_blocks p)"
  shows "cache_inv p'"
  using assms same_hashes_keys [OF assms(1)]
  by (auto simp: same_hashes_def cache_inv_def secondary_hashes_def)

lemma update_block_simps [simp, pool_simps]:
  "length (pool_blocks (update_block b f p)) = length (pool_blocks p)"
  "num_gpu_blocks (update_block b f p) = num_gpu_blocks p"
  "null_block (update_block b f p) = null_block p"
  "free_block_queue (update_block b f p) = free_block_queue p"
  "enable_caching (update_block b f p) = enable_caching p"
  "enable_kv_cache_events (update_block b f p) = enable_kv_cache_events p"
  "cached_block_hash_to_block (update_block b f p) = cached_block_hash_to_block p"
  "cached_block_hashes_by_block (update_block b f p) = cached_block_hashes_by_block p"
  "reuse_watchers (update_block b f p) = reuse_watchers p"
  "reuse_log (update_block b f p) = reuse_log p"
  "kv_event_queue (update_block b f p) = kv_event_queue p"
  by (simp_all add: update_block_def)

lemma block_at_update [simp, pool_simps]:
  "b < length (pool_blocks p) \<Longrightarrow>
   block_at (update_block b f p) c = (if c = b then f (block_at p b) else block_at p c)"
  by (simp add: update_block_def)

lemma log_metric_simps [simp, pool_simps]:
  "pool_blocks (log_metric ev p) = pool_blocks p"
  "num_gpu_blocks (log_metric ev p) = num_gpu_blocks p"
  "null_block (log_metric ev p) = null_block p"
  "free_block_queue (log_metric ev p) = free_block_queue p"
  "enable_caching (log_metric ev p) = enable_caching p"
  "enable_kv_cache_events (log_metric ev p) = enable_kv_cache_events p"
  "cached_block_hash_to_block (log_metric ev p) = cached_block_hash_to_block p"
  "cached_block_hashes_by_block (log_metric ev p) = cached_block_hashes_by_block p"
  "reuse_watchers (log_metric ev p) = reuse_watchers p"
  "reuse_log (log_metric ev p) = reuse_log p"
  "kv_event_queue (log_metric ev p) = kv_event_queue p"
  by (simp_all add: log_metric_def)

text \<open>Logging, events and callbacks touch neither part of the invariant.\<close>

definition quiet :: "block_pool \<Rightarrow> block_pool \<Rightarrow> bool" where
  "quiet p p' \<longleftrightarrow> same_refs p p' \<and> same_hashes p p'"

lemma quiet_log [simp]: "quiet p (log_metric ev p)"
  by (simp add: quiet_def same_refs_def same_hashes_def)

lemma quiet_push [simp]: "quiet p (push_event ev p)"
  by (simp add: quiet_def same_refs_def same_hashes_def push_event_def)

lemma quiet_emit [simp]: "quiet p (emit_block_removed_events hs p)"
  by (simp add: quiet_def same_refs_def same_hashes_def emit_block_removed_events_def)

lemma quiet_notify [simp]: "quiet p (notify_reuse b p)"
  by (simp add: quiet_def same_refs_def same_hashes_def notify_reuse_def split: option.split)

lemma quiet_refl [simp]: "quiet p p"
  by (simp add: quiet_def)

lemma quiet_trans: "quiet p p' \<Longrightarrow> quiet p' p'' \<Longrightarrow> quiet p p''"
  unfolding quiet_def using same_refs_trans same_hashes_trans by blast

lemma quiet_fold_notify [simp]: "quiet p (fold notify_reuse bs p)"
  by (induction bs arbitrary: p) (auto intro: quiet_trans [OF quiet_notify])

lemma quiet_pool_inv: "quiet p p' \<Longrightarrow> pool_inv p \<Longrightarrow> pool_inv p'"
  using same_refs_free_inv same_hashes_cache_inv
  unfolding quiet_def pool_inv_def by (metis free_inv_def)

section \<open>Hash bookkeeping: lemmas\<close>

lemma pop_hashes_spec:
  assumes "map_wf c" "pop_hashes b hs c = (removed, c')"
  shows "map_wf c'"
    and "map_contain c' key x \<longleftrightarrow> map_contain c key x \<and> \<not> (x = b \<and> key \<in> set hs)"
    and "distinct hs \<Longrightarrow> removed = filter (\<lambda>h. map_contain c h b) hs"
proof -
  have "map_wf c' \<and> (\<forall>key x. map_contain c' key x \<longleftrightarrow> map_contain c key x \<and> \<not> (x = b \<and> key \<in> set hs)) \<and>
    (distinct hs \<longrightarrow> removed = filter (\<lambda>h. map_contain c h b) hs)"
    using assms
  proof (induction hs arbitrary: c removed)
    case (Cons h hs)
    obtain found c1 where c1: "map_pop h b c = (found, c1)" by fastforce
    obtain rest where rest: "pop_hashes b hs c1 = (rest, c')" and
      removed: "removed = (if found \<noteq> None then h # rest else rest)"
      using Cons.prems(2) c1 by (auto split: prod.splits)
    have wf1: "map_wf c1" and found: "found \<noteq> None \<longleftrightarrow> map_contain c h b"
      and has1: "\<And>key x. map_contain c1 key x \<longleftrightarrow> map_contain c key x \<and> \<not> (key = h \<and> x = b)"
      using bm.wf_rem [OF Cons.prems(1), of h b] bm.rem_found [OF Cons.prems(1), of h b]
        bm.has_rem [OF Cons.prems(1), of h b] c1 by simp_all
    have "filter (\<lambda>k. map_contain c1 k b) hs = filter (\<lambda>k. map_contain c k b) hs" if "h \<notin> set hs"
      using that has1 by (intro filter_cong) auto
    then show ?case
      using Cons.IH [OF wf1 rest] has1 found removed by auto
  qed simp
  then show "map_wf c'"
    "map_contain c' key x \<longleftrightarrow> map_contain c key x \<and> \<not> (x = b \<and> key \<in> set hs)"
    "distinct hs \<Longrightarrow> removed = filter (\<lambda>h. map_contain c h b) hs"
    by blast+
qed

lemma cache_invD:
  assumes "cache_inv p"
  shows "map_wf (cached_block_hash_to_block p)"
    and "map_contain (cached_block_hash_to_block p) key b \<longleftrightarrow>
      b < length (pool_blocks p) \<and> key \<in> set (block_hash_keys p b)"
    and "b < length (pool_blocks p) \<Longrightarrow> distinct (block_hash_keys p b)"
    and "b < length (pool_blocks p) \<Longrightarrow> block_hash (block_at p b) = None \<Longrightarrow>
      block_hash_num_tokens (block_at p b) = None \<and> secondary_hashes p b = []"
    and "block_hash_keys p (null_block p) = []"
  using assms by (simp_all add: cache_inv_def)

text \<open>The state after the hashes of one block have been set to \<open>ks\<close>, everything else unchanged.\<close>

definition rekeyed :: "nat \<Rightarrow> bytes list \<Rightarrow> block_pool \<Rightarrow> block_pool \<Rightarrow> bool" where
  "rekeyed b ks p p' \<longleftrightarrow>
     same_refs p p' \<and>
     (\<forall>c < length (pool_blocks p). block_hash_keys p' c = (if c = b then ks else block_hash_keys p c))"

lemma remove_cached_block_hashes_spec:
  assumes "cache_inv p" "b < length (pool_blocks p)" "null_block p < length (pool_blocks p)"
    and rem: "remove_cached_block_hashes b p = (removed, p')"
  shows "removed = block_hash_keys p b" "cache_inv p'" "rekeyed b [] p p'"
    "block_hash (block_at p' b) = None"
proof -
  let ?p1 = "p\<lparr>cached_block_hashes_by_block := dict_del b (cached_block_hashes_by_block p)\<rparr>"
  note inv = cache_invD [OF assms(1)]
  obtain rs c where c: "pop_hashes b (block_hash_keys p b) (cached_block_hash_to_block p) = (rs, c)"
    by fastforce
  note pop = pop_hashes_spec [OF inv(1) c]
  have rs: "rs = block_hash_keys p b"
    using pop(3) [OF inv(3) [OF assms(2)]] inv(2) assms(2) by (auto intro: filter_True)
  have sec: "secondary_hashes (q\<lparr>cached_block_hashes_by_block := dict_del b (cached_block_hashes_by_block p)\<rparr>) x =
      (if x = b then [] else secondary_hashes p x)" for q x
    by (simp add: secondary_hashes_def delete_conv')
  have "removed = block_hash_keys p b \<and> cache_inv p' \<and> rekeyed b [] p p' \<and>
    block_hash (block_at p' b) = None"
  proof (cases "block_hash_keys p b = []")
    case True
    then have p': "removed = []" "p' = ?p1"
      using rem by (simp_all add: remove_cached_block_hashes_def)
    have keys: "block_hash_keys p' x = block_hash_keys p x" for x
      using True by (simp add: p' block_hash_keys_def sec split: if_splits option.splits)
    have none: "block_hash (block_at p b) = None"
      using True by (simp add: block_hash_keys_def split: option.splits)
    have "cache_inv p'"
      unfolding cache_inv_def using inv keys by (auto simp: p' sec)
    then show ?thesis
      using True keys none by (auto simp: rekeyed_def same_refs_def p')
  next
    case False
    define p2 where "p2 = ?p1\<lparr>cached_block_hash_to_block := c\<rparr>"
    have p': "removed = rs" "p' = update_block b reset_hash p2"
      using False rem c by (simp_all add: remove_cached_block_hashes_def Let_def p2_def)
    have len: "length (pool_blocks p2) = length (pool_blocks p)" "b < length (pool_blocks p2)"
      using assms(2) by (simp_all add: p2_def)
    have at: "block_at p' x = (if x = b then reset_hash (block_at p b) else block_at p x)" for x
      using len by (simp add: p') (simp add: p2_def)
    have sec': "secondary_hashes p' x = (if x = b then [] else secondary_hashes p x)" for x
      by (simp add: p' secondary_hashes_def p2_def delete_conv')
    have keys: "block_hash_keys p' x = (if x = b then [] else block_hash_keys p x)" for x
      by (simp add: block_hash_keys_def at sec' reset_hash_def)
    have "cache_inv p'"
      unfolding cache_inv_def keys using inv pop(1,2) len at sec'
      by (auto simp: p' p2_def reset_hash_def)
    then show ?thesis
      using rs keys at by (auto simp: rekeyed_def same_refs_def p' p2_def reset_hash_def)
  qed
  then show "removed = block_hash_keys p b" "cache_inv p'" "rekeyed b [] p p'"
    "block_hash (block_at p' b) = None"
    by blast+
qed

lemma rekeyed_refl: "ks = block_hash_keys p b \<Longrightarrow> rekeyed b ks p p"
  by (simp add: rekeyed_def)

lemma rekeyed_trans: "rekeyed b ks p p' \<Longrightarrow> rekeyed b ks' p' p'' \<Longrightarrow> rekeyed b ks' p p''"
  by (auto simp: rekeyed_def same_refs_def)

lemma rekeyed_quiet: "rekeyed b ks p p' \<Longrightarrow> quiet p' p'' \<Longrightarrow> rekeyed b ks p p''"
  by (auto simp: rekeyed_def quiet_def same_hashes_keys same_refs_def)

lemma rekeyed_refs: "rekeyed b ks p p' \<Longrightarrow> same_refs p p'"
  by (simp add: rekeyed_def)

lemma insert_block_hash_spec:
  assumes inv: "cache_inv p" and b: "b < length (pool_blocks p)" "b \<noteq> null_block p"
    and nb: "null_block p < length (pool_blocks p)"
  shows "\<exists>p'. insert_block_hash key b n p = Inr p' \<and> cache_inv p' \<and>
           rekeyed b (if key \<in> set (block_hash_keys p b) then block_hash_keys p b
                      else block_hash_keys p b @ [key]) p p'"
proof (cases "key \<in> set (block_hash_keys p b)")
  case True
  then have "map_contain (cached_block_hash_to_block p) key b"
    using cache_invD(2) [OF inv] b by blast
  then show ?thesis
    using True inv by (simp add: insert_block_hash_def rekeyed_refl)
next
  case False
  note D = cache_invD [OF inv]
  let ?ks = "block_hash_keys p b"
  have new: "block_hash (block_at p b) \<noteq> Some key" "\<not> map_contain (cached_block_hash_to_block p) key b"
    using False D(2) by (auto simp: block_hash_keys_def)
  define p1 where "p1 = (if block_hash (block_at p b) = None
      then update_block b (\<lambda>_. (block_at p b)\<lparr>block_hash := Some key, block_hash_num_tokens := n\<rparr>) p
      else p\<lparr>cached_block_hashes_by_block :=
             dict_set b (secondary_hashes p b @ [key]) (cached_block_hashes_by_block p)\<rparr>)"
  define p2 where "p2 = p1\<lparr>cached_block_hash_to_block := map_insert key b (cached_block_hash_to_block p)\<rparr>"
  have "key \<notin> set (secondary_hashes p b)"
    using False by (simp add: block_hash_keys_def)
  then have ins: "insert_block_hash key b n p = Inr p2"
    using new D(4) [OF b(1)]
    by (auto simp: insert_block_hash_def set_block_hash_def p1_def p2_def Let_def)
  have at: "block_at p2 x = (if x = b \<and> block_hash (block_at p b) = None
      then (block_at p b)\<lparr>block_hash := Some key, block_hash_num_tokens := n\<rparr> else block_at p x)" for x
    using b(1) by (simp add: p1_def p2_def update_block_def)
  have sec: "secondary_hashes p2 x = (if x = b \<and> block_hash (block_at p b) \<noteq> None
      then secondary_hashes p b @ [key] else secondary_hashes p x)" for x
    by (simp add: p1_def p2_def secondary_hashes_def update_conv')
  have keys: "block_hash_keys p2 x = (if x = b then ?ks @ [key] else block_hash_keys p x)" for x
    using D(4) [OF b(1)] by (auto simp: block_hash_keys_def at sec split: option.split)
  have len: "length (pool_blocks p2) = length (pool_blocks p)" "null_block p2 = null_block p"
    by (simp_all add: p1_def p2_def)
  have has: "map_contain (cached_block_hash_to_block p2) k x \<longleftrightarrow>
      map_contain (cached_block_hash_to_block p) k x \<or> k = key \<and> x = b" for k x
    using bm.has_ins [OF D(1)] by (simp add: p2_def)
  have "map_wf (cached_block_hash_to_block p2)"
    using bm.wf_ins [OF D(1)] by (simp add: p2_def)
  then have "cache_inv p2"
    unfolding cache_inv_def keys len has using D False b by (auto simp: at sec)
  moreover have "same_refs p p2"
    unfolding same_refs_def using at len by (simp add: p1_def p2_def)
  ultimately show ?thesis
    using ins False keys by (simp add: rekeyed_def)
qed

text \<open>Operations on hashes only: the invariant is kept and no reference count changes.\<close>

definition kept :: "block_pool \<Rightarrow> block_pool \<Rightarrow> bool" where
  "kept p p' \<longleftrightarrow> pool_inv p' \<and> same_refs p p'"

lemma kept_trans: "kept p p' \<Longrightarrow> kept p' p'' \<Longrightarrow> kept p p''"
  using same_refs_trans by (auto simp: kept_def)

lemma kept_quiet: "pool_inv p \<Longrightarrow> quiet p p' \<Longrightarrow> kept p p'"
  using quiet_pool_inv by (auto simp: kept_def quiet_def)

lemma kept_refl: "pool_inv p \<Longrightarrow> kept p p"
  by (simp add: kept_def)

lemma keptD:
  assumes "kept p p'"
  shows "pool_inv p'" "length (pool_blocks p') = length (pool_blocks p)" "null_block p' = null_block p"
  using assms by (simp_all add: kept_def same_refs_def)

lemma pool_inv_null:
  assumes "pool_inv p"
  shows "null_block p < length (pool_blocks p)"
    "b < length (pool_blocks p) \<Longrightarrow> is_null (block_at p b) \<longleftrightarrow> b = null_block p"
    "cache_inv p"
  using assms by (auto simp: pool_inv_def free_inv_def)

lemma rekeyed_kept: "pool_inv p \<Longrightarrow> cache_inv p' \<Longrightarrow> rekeyed b ks p p' \<Longrightarrow> kept p p'"
  using same_refs_free_inv by (auto simp: kept_def pool_inv_def rekeyed_def)

lemma remove_hashes_kept:
  assumes "pool_inv p" "b < length (pool_blocks p)"
    and "remove_cached_block_hashes b p = (removed, p')"
  shows "kept p p'"
  using remove_cached_block_hashes_spec [OF pool_inv_null(3) [OF assms(1)] assms(2)
      pool_inv_null(1) [OF assms(1)] assms(3)] assms(1)
  by (auto intro: rekeyed_kept)

lemma drop_hashes_kept:
  assumes "pool_inv p" "b < length (pool_blocks p)"
    and "remove_cached_block_hashes b p = (removed, p')"
  shows "kept p (emit_block_removed_events removed p')"
  using remove_hashes_kept [OF assms] kept_quiet [OF _ quiet_emit] kept_trans
  by (auto simp: kept_def)

lemma insert_block_hash_kept:
  assumes "pool_inv p" "b < length (pool_blocks p)" "b \<noteq> null_block p"
    and "insert_block_hash key b n p = Inr p'"
  shows "kept p p'"
  using insert_block_hash_spec [OF pool_inv_null(3) [OF assms(1)] assms(2,3)
      pool_inv_null(1) [OF assms(1)], of key n] assms(1,4)
  by (auto intro: rekeyed_kept)

lemma cache_one_full_block_kept:
  assumes "pool_inv p" "b < length (pool_blocks p)" "b \<noteq> null_block p"
    and "cache_one_full_block group_id h n b p = Inr p'"
  shows "kept p p'"
proof -
  obtain key p1 where ins: "insert_block_hash key b (Some n) p1 = Inr p'"
    and p1: "p1 = p \<or> (\<exists>removed p0. remove_cached_block_hashes b p = (removed, p0) \<and>
      p1 = emit_block_removed_events removed p0)"
    using assms(4) unfolding cache_one_full_block_def
    by (auto simp: rbind_Inr_iff Let_def split: if_splits prod.splits)
  have "kept p p1"
    using p1 drop_hashes_kept [OF assms(1,2)] kept_refl [OF assms(1)] by auto
  then show ?thesis
    using insert_block_hash_kept [OF _ _ _ ins] assms(2,3) kept_trans keptD by metis
qed

lemma cache_full_loop_kept:
  assumes "cache_full_loop m hs nc bsz g i bs acc p = Inr (out, p')"
    and "pool_inv p" "\<forall>b \<in> set bs. b < length (pool_blocks p)"
  shows "kept p p'"
  using assms
proof (induction bs arbitrary: i acc p)
  case Nil
  then show ?case by (simp add: kept_refl)
next
  case (Cons b bs)
  show ?case
  proof (cases "block_skipped p m i b")
    case True
    then show ?thesis using Cons.IH [of "i + 1" acc p] Cons.prems by simp
  next
    case False
    then have "b \<noteq> null_block p"
      using Cons.prems(2,3) pool_inv_null(2) [OF Cons.prems(2), of b] by (auto simp: block_skipped_def)
    from False Cons.prems(1) obtain h p1 acc' where
      one: "cache_one_full_block g h (int (nc + i + 1) * bsz) b p = Inr p1"
      and rest: "cache_full_loop m hs nc bsz g (i + 1) bs acc' p1 = Inr (out, p')"
      by (auto simp: rbind_Inr_iff)
    have k: "kept p p1"
      using cache_one_full_block_kept [OF Cons.prems(2) _ \<open>b \<noteq> null_block p\<close> one] Cons.prems(3) by simp
    then have "kept p1 p'"
      using Cons.IH [OF rest] Cons.prems(3) keptD [OF k] by auto
    with k show ?thesis by (rule kept_trans)
  qed
qed

lemma cache_full_blocks_kept:
  assumes "cache_full_blocks r bs nc nf bsz g m p = Inr (r', p')"
    and "pool_inv p" "\<forall>b \<in> set bs. b < length (pool_blocks p)"
  shows "kept p p'"
proof (cases "nc \<ge> nf")
  case True
  then show ?thesis using assms(1,2) by (simp add: cache_full_blocks_def kept_refl)
next
  case False
  then obtain hs stored p1 where
    loop: "cache_full_loop m hs nc bsz g 0 (take (nf - nc) (drop nc bs)) [] p = Inr (stored, p1)"
    and p': "p' = p1 \<or> (\<exists>ev. p' = push_event ev p1)"
    using assms(1) unfolding cache_full_blocks_def
    by (auto simp: rbind_Inr_iff Let_def split: if_splits prod.splits)
  have "kept p p1"
    using cache_full_loop_kept [OF loop assms(2)] assms(3) by (meson in_set_dropD in_set_takeD)
  then show ?thesis
    using p' kept_trans kept_quiet keptD(1) quiet_push by blast
qed

lemma emit_cached_block_events_kept:
  assumes "emit_cached_block_events r nc bsz g p = Inr (r', p')" "pool_inv p"
  shows "kept p p'"
proof -
  have "p' = p \<or> (\<exists>ev. p' = push_event ev p)"
    using assms(1) unfolding emit_cached_block_events_def
    by (auto simp: rbind_Inr_iff split: if_splits prod.splits)
  then show ?thesis
    using assms(2) kept_refl kept_quiet quiet_push by blast
qed

lemma cache_partial_block_kept:
  assumes "cache_partial_block r b n g bsz rep p = Inr (res, r', p')"
    and "pool_inv p" "b < length (pool_blocks p)"
  shows "kept p p'"
proof (cases "is_null (block_at p b)")
  case True
  then show ?thesis using assms by (simp add: cache_partial_block_def kept_refl)
next
  case False
  then have b: "b \<noteq> null_block p"
    using pool_inv_null(2) [OF assms(2,3)] by simp
  from False assms(1) obtain key n' p1 p2 where
    p1: "p1 = p \<or> (\<exists>removed p0. remove_cached_block_hashes b p = (removed, p0) \<and>
      p1 = emit_block_removed_events removed p0)"
    and ins: "insert_block_hash key b n' p1 = Inr p2"
    and p': "p' = p2 \<or> (\<exists>ev. p' = push_event ev p2)"
    unfolding cache_partial_block_def Let_def
    by (fastforce simp: rbind_Inr_iff split: if_splits prod.splits)
  have k1: "kept p p1"
    using p1 drop_hashes_kept [OF assms(2,3)] kept_refl [OF assms(2)] by auto
  then have "kept p1 p2"
    using insert_block_hash_kept [OF keptD(1) [OF k1] _ _ ins] assms(3) b keptD(2,3) [OF k1] by simp
  with k1 have "kept p p2" by (rule kept_trans)
  then show ?thesis
    using p' kept_trans kept_quiet keptD(1) quiet_push by blast
qed

lemma move_block_hashes_kept:
  assumes "move_block_hashes src dst p = Inr p'" "pool_inv p"
    and "src < length (pool_blocks p)" "dst < length (pool_blocks p)" "dst \<noteq> null_block p"
  shows "kept p p'"
proof -
  obtain n removed p1 where rem: "remove_cached_block_hashes src p = (removed, p1)"
    and fold: "rfold (\<lambda>h. insert_block_hash h dst n) removed p1 = Inr p'"
    using assms(1) unfolding move_block_hashes_def
    by (auto simp: rbind_Inr_iff Let_def split: prod.splits)
  have "kept p p1"
    using remove_hashes_kept [OF assms(2,3) rem] .
  with fold show ?thesis
  proof (induction removed arbitrary: p1)
    case (Cons h hs)
    then obtain p2 where p2: "insert_block_hash h dst n p1 = Inr p2"
        "rfold (\<lambda>h. insert_block_hash h dst n) hs p2 = Inr p'"
      by (auto simp: rbind_Inr_iff)
    have "kept p1 p2"
      using insert_block_hash_kept [OF keptD(1) _ _ p2(1)] keptD [OF Cons.prems(2)] assms(4,5)
        Cons.prems(2) by auto
    then show ?case
      using Cons.IH [OF p2(2)] kept_trans Cons.prems(2) by blast
  qed simp
qed

lemma maybe_evict_spec:
  assumes "cache_inv p" "null_block p < length (pool_blocks p)" "b < length (pool_blocks p)"
    and "maybe_evict_cached_block b p = (ev, p')"
  shows "cache_inv p'" "rekeyed b [] p p'" "ev \<longleftrightarrow> block_hash_keys p b \<noteq> []"
proof -
  let ?p0 = "log_metric (OnEvicted b) p"
  obtain removed p1 where rem: "remove_cached_block_hashes b ?p0 = (removed, p1)" by fastforce
  have inv0: "cache_inv ?p0"
    by (rule same_hashes_cache_inv [OF _ assms(1,2)]) (simp add: same_hashes_def)
  have keys0: "block_hash_keys ?p0 c = block_hash_keys p c" for c
    by (simp add: block_hash_keys_def secondary_hashes_def)
  note spec = remove_cached_block_hashes_spec [OF inv0 _ _ rem, simplified, OF assms(3,2)]
  have p': "p' = p1 \<or> p' = emit_block_removed_events removed p1" "ev \<longleftrightarrow> removed \<noteq> []"
    using assms(4) rem by (auto simp: maybe_evict_cached_block_def split: if_splits)
  have q: "quiet p1 p'"
    using p'(1) by auto
  have r: "rekeyed b [] ?p0 p'"
    using rekeyed_quiet [OF spec(3) q] .
  then show "rekeyed b [] p p'"
    using keys0 by (simp add: rekeyed_def same_refs_def)
  have "null_block p1 < length (pool_blocks p1)"
    using rekeyed_refs [OF spec(3)] assms(2) by (simp add: same_refs_def)
  then show "cache_inv p'"
    using same_hashes_cache_inv [OF _ spec(2)] q by (auto simp: quiet_def)
  show "ev \<longleftrightarrow> block_hash_keys p b \<noteq> []"
    using p'(2) spec(1) keys0 by simp
qed

lemma evict_block_kept:
  assumes "evict_block i p = Inr p'" "pool_inv p"
  shows "kept p p'"
proof -
  from assms(1) obtain b where "py_index [0..<length (pool_blocks p)] i = Inr b"
    and p': "p' = snd (maybe_evict_cached_block b p)"
    by (auto simp: evict_block_def rbind_Inr_iff)
  then have "b < length (pool_blocks p)"
    by (auto simp: py_index_def Let_def split: if_splits)
  then show ?thesis
    using maybe_evict_spec(1,2) [OF pool_inv_null(3,1) [OF assms(2)] _ surjective_pairing, of b] p'
      assms(2)
    by (auto intro: rekeyed_kept)
qed

lemma evict_blocks_kept:
  assumes "evict_blocks is p = Inr p'" "pool_inv p"
  shows "kept p p'"
  using assms unfolding evict_blocks_def
proof (induction "is" arbitrary: p)
  case (Cons i "is")
  then obtain p1 where "evict_block i p = Inr p1" "rfold evict_block is p1 = Inr p'"
    by (auto simp: rbind_Inr_iff)
  with Cons show ?case
    using evict_block_kept kept_trans keptD(1) by blast
qed (simp add: kept_refl)

section \<open>Reference counts and the free list: lemmas\<close>

text \<open>While blocks are handed out or taken back, some blocks with no references (\<open>pend\<close>) are not in
  the free list.\<close>

definition shape_inv :: "block_pool \<Rightarrow> bool" where
  "shape_inv p \<longleftrightarrow>
     num_gpu_blocks p = int (length (pool_blocks p)) \<and> null_block p < length (pool_blocks p) \<and>
     (\<forall>b < length (pool_blocks p). is_null (block_at p b) \<longleftrightarrow> b = null_block p) \<and>
     (\<forall>b < length (pool_blocks p). 0 \<le> ref_cnt (block_at p b))"

definition free_state :: "block_pool \<Rightarrow> nat list \<Rightarrow> nat list \<Rightarrow> bool" where
  "free_state p xs pend \<longleftrightarrow>
     shape_inv p \<and> queue_rep (free_block_queue p) (map Blk xs) \<and> distinct pend \<and>
     set xs \<inter> set pend = {} \<and> set xs \<union> set pend = free_ids p"

lemma free_inv_state: "free_inv p \<longleftrightarrow> (\<exists>xs. free_state p xs [])"
  by (auto simp: free_inv_def free_state_def shape_inv_def)

lemma free_state_distinct: "free_state p xs pend \<Longrightarrow> distinct xs"
  using fq.rep_distinct by (fastforce simp: free_state_def distinct_map)

lemma free_state_quiet: "same_refs p p' \<Longrightarrow> free_state p xs pend \<Longrightarrow> free_state p' xs pend"
  by (auto simp: free_state_def shape_inv_def same_refs_def free_ids_def)

lemma free_state_count: "free_state p xs pend \<Longrightarrow> get_num_free_blocks p = int (length xs)"
  using fq.count_rep by (fastforce simp: free_state_def get_num_free_blocks_def)

lemma free_state_use:
  assumes "free_state p xs (b # pend)"
  shows "free_state (update_block b (\<lambda>k. k\<lparr>ref_cnt := ref_cnt k + 1\<rparr>) p) xs pend"
proof -
  have b: "b \<in> free_ids p" "b \<notin> set xs" "b \<notin> set pend"
    using assms by (auto simp: free_state_def)
  then have len: "b < length (pool_blocks p)"
    by (simp add: free_ids_def)
  have "free_ids (update_block b (\<lambda>k. k\<lparr>ref_cnt := ref_cnt k + 1\<rparr>) p) = free_ids p - {b}"
    using b len by (auto simp: free_ids_def)
  with assms b len show ?thesis
    by (auto simp: free_state_def shape_inv_def)
qed

text \<open>One block handed out.\<close>

lemma take_block_spec:
  assumes "free_state p xs (b # pend)" "cache_inv p"
  shows "\<exists>p'. take_block b p = Inr p' \<and> free_state p' xs pend \<and> cache_inv p' \<and>
    length (pool_blocks p') = length (pool_blocks p) \<and> null_block p' = null_block p \<and>
    enable_caching p' = enable_caching p \<and>
    (\<forall>c < length (pool_blocks p). ref_cnt (block_at p' c) = (if c = b then 1 else ref_cnt (block_at p c)) \<and>
       block_hash_keys p' c = (if c = b \<and> enable_caching p then [] else block_hash_keys p c))"
proof -
  define p1 where "p1 = (if enable_caching p then snd (maybe_evict_cached_block b p) else p)"
  have b: "b \<in> free_ids p"
    using assms(1) by (auto simp: free_state_def)
  then have len: "b < length (pool_blocks p)" and ref: "ref_cnt (block_at p b) = 0"
    by (simp_all add: free_ids_def)
  have nb: "null_block p < length (pool_blocks p)"
    using assms(1) by (simp add: free_state_def shape_inv_def)
  have p1: "cache_inv p1" "rekeyed b (if enable_caching p then [] else block_hash_keys p b) p p1"
    using maybe_evict_spec(1,2) [OF assms(2) nb len, of "fst (maybe_evict_cached_block b p)"] assms(2)
    by (simp_all add: p1_def rekeyed_refl)
  note refs = rekeyed_refs [OF p1(2), unfolded same_refs_def]
  define p2 where "p2 = update_block b (\<lambda>k. k\<lparr>ref_cnt := ref_cnt k + 1\<rparr>) p1"
  define p3 where "p3 = log_metric (OnAllocated b) p2"
  have take: "take_block b p = Inr p3"
    using refs len ref by (simp add: take_block_def Let_def p1_def [symmetric] p2_def p3_def)
  have same: "same_hashes p1 p3"
    using refs len by (simp add: same_hashes_def p2_def p3_def)
  have "free_state p2 xs pend"
    unfolding p2_def by (rule free_state_use [OF free_state_quiet [OF rekeyed_refs [OF p1(2)] assms(1)]])
  then have "free_state p3 xs pend"
    by (rule free_state_quiet [rotated]) (simp add: p3_def same_refs_def)
  moreover have "cache_inv p3"
    using same_hashes_cache_inv [OF same p1(1)] refs nb by simp
  moreover have "block_hash_keys p3 c = (if c = b \<and> enable_caching p then [] else block_hash_keys p c)"
    if "c < length (pool_blocks p)" for c
    using that same_hashes_keys [OF same, of c] p1(2) refs by (simp add: rekeyed_def)
  ultimately show ?thesis
    using take refs len ref by (simp add: p2_def p3_def)
qed

lemma take_blocks_spec:
  assumes "free_state p xs pend" "cache_inv p"
  shows "\<exists>p'. rfold take_block pend p = Inr p' \<and> free_state p' xs [] \<and> cache_inv p' \<and>
    length (pool_blocks p') = length (pool_blocks p) \<and> null_block p' = null_block p \<and>
    enable_caching p' = enable_caching p \<and>
    (\<forall>c < length (pool_blocks p).
       ref_cnt (block_at p' c) = (if c \<in> set pend then 1 else ref_cnt (block_at p c)) \<and>
       block_hash_keys p' c = (if c \<in> set pend \<and> enable_caching p then [] else block_hash_keys p c))"
  using assms
proof (induction pend arbitrary: p)
  case (Cons b pend)
  obtain p1 where p1: "take_block b p = Inr p1" "free_state p1 xs pend" "cache_inv p1"
    "length (pool_blocks p1) = length (pool_blocks p)" "null_block p1 = null_block p"
    "enable_caching p1 = enable_caching p"
    "\<forall>c < length (pool_blocks p). ref_cnt (block_at p1 c) = (if c = b then 1 else ref_cnt (block_at p c)) \<and>
       block_hash_keys p1 c = (if c = b \<and> enable_caching p then [] else block_hash_keys p c)"
    using take_block_spec [OF Cons.prems] by blast
  have "b \<notin> set pend"
    using Cons.prems by (simp add: free_state_def)
  with Cons.IH [OF p1(2,3)] p1 show ?case
    by auto
qed simp

text \<open>Allocation: the first \<open>n\<close> free blocks, each now with one reference and out of the cache.\<close>

lemma popleft_n_blocks:
  assumes "queue_rep q (map Blk xs)" "n \<le> length xs"
  shows "\<exists>q'. popleft_n (int n) q = Inr (map Blk (take n xs), q') \<and> queue_rep q' (map Blk (drop n xs))"
  using fq.pop_n_rep [OF assms(1), of n] assms(2) by (simp add: take_map drop_map)

lemma map_blk_id [simp]: "map blk_id (map Blk xs) = xs"
  by (simp add: comp_def)

lemma get_new_blocks_spec:
  assumes "free_state p xs []" "cache_inv p" "n \<le> length xs"
  shows "\<exists>p'. get_new_blocks (int n) p = Inr (take n xs, p') \<and> free_state p' (drop n xs) [] \<and> cache_inv p' \<and>
    length (pool_blocks p') = length (pool_blocks p) \<and> null_block p' = null_block p \<and>
    (\<forall>c < length (pool_blocks p).
       ref_cnt (block_at p' c) = (if c \<in> set (take n xs) then 1 else ref_cnt (block_at p c)) \<and>
       block_hash_keys p' c =
         (if c \<in> set (take n xs) \<and> enable_caching p then [] else block_hash_keys p c))"
proof -
  obtain q where q: "popleft_n (int n) (free_block_queue p) = Inr (map Blk (take n xs), q)"
      "queue_rep q (map Blk (drop n xs))"
    using popleft_n_blocks [OF _ assms(3)] assms(1) unfolding free_state_def by blast
  define p1 where "p1 = p\<lparr>free_block_queue := q\<rparr>"
  define p2 where "p2 = (if reuse_watchers p1 \<noteq> [] then fold notify_reuse (take n xs) p1 else p1)"
  have q2: "quiet p1 p2"
    by (simp add: p2_def)
  have d: "distinct xs"
    by (rule free_state_distinct [OF assms(1)])
  have "set (drop n xs) \<union> set (take n xs) = set xs"
    by (metis append_take_drop_id set_append sup_commute)
  moreover have "free_ids p1 = free_ids p" "shape_inv p1 = shape_inv p"
    by (simp_all add: free_ids_def shape_inv_def p1_def)
  ultimately have "free_state p1 (drop n xs) (take n xs)"
    using assms(1) q(2) d set_take_disj_set_drop_if_distinct [OF d, of n n]
    by (simp add: free_state_def p1_def Int_commute)
  then have st2: "free_state p2 (drop n xs) (take n xs)"
    using q2 free_state_quiet by (auto simp: quiet_def)
  have same: "same_hashes p p2" "enable_caching p2 = enable_caching p"
    "\<forall>c < length (pool_blocks p). ref_cnt (block_at p2 c) = ref_cnt (block_at p c)"
    using q2 by (auto simp: quiet_def same_hashes_def same_refs_def p1_def)
  have nb: "null_block p < length (pool_blocks p)"
    using assms(1) by (simp add: free_state_def shape_inv_def)
  have inv2: "cache_inv p2"
    by (rule same_hashes_cache_inv [OF same(1) assms(2) nb])
  have "get_new_blocks (int n) p = rbind (rfold take_block (take n xs) p2) (\<lambda>p3. Inr (take n xs, p3))"
    using q(1) free_state_count [OF assms(1)] assms(3)
    by (simp add: get_new_blocks_def Let_def p1_def p2_def comp_def)
  then show ?thesis
    using take_blocks_spec [OF st2 inv2] same same_hashes_keys [OF same(1)]
    by (auto simp: same_hashes_def)
qed

lemma get_new_blocks_short:
  "free_state p xs pend \<Longrightarrow> int (length xs) < n \<Longrightarrow> get_new_blocks n p = Inl ValueError"
  by (simp add: get_new_blocks_def free_state_count)

text \<open>Release: reference counts go down by the number of occurrences. The blocks nobody uses any more
  enter the free list, in the order of their last occurrence: those without a hash in front,
  those with one at the back.\<close>

definition released :: "block_pool \<Rightarrow> nat list \<Rightarrow> nat list" where
  "released p bs =
     remdups (filter (\<lambda>b. \<not> is_null (block_at p b) \<and> ref_cnt (block_at p b) = int (count_list bs b)) bs)"

definition reuse_first :: "block_pool \<Rightarrow> nat \<Rightarrow> bool" where
  "reuse_first p b \<longleftrightarrow> block_hash (block_at p b) = None \<or> \<not> enable_caching p"

text \<open>The caller holds every reference it gives back.\<close>

definition releasable :: "block_pool \<Rightarrow> nat list \<Rightarrow> bool" where
  "releasable p bs \<longleftrightarrow>
     (\<forall>b \<in> set bs. b < length (pool_blocks p) \<and>
        (is_null (block_at p b) \<or> int (count_list bs b) \<le> ref_cnt (block_at p b)))"

definition drop_ref :: "nat \<Rightarrow> block_pool \<Rightarrow> block_pool" where
  "drop_ref b p = update_block b (\<lambda>k. k\<lparr>ref_cnt := ref_cnt k - 1\<rparr>) p"

lemma drop_ref_same_hashes: "b < length (pool_blocks p) \<Longrightarrow> same_hashes p (drop_ref b p)"
  by (simp add: same_hashes_def drop_ref_def)

lemma drop_ref_simps [simp]:
  "length (pool_blocks (drop_ref b p)) = length (pool_blocks p)"
  "enable_caching (drop_ref b p) = enable_caching p"
  "null_block (drop_ref b p) = null_block p"
  "free_block_queue (drop_ref b p) = free_block_queue p"
  "cached_block_hash_to_block (drop_ref b p) = cached_block_hash_to_block p"
  "cached_block_hashes_by_block (drop_ref b p) = cached_block_hashes_by_block p"
  by (simp_all add: drop_ref_def)

lemma drop_ref_at [simp]:
  "b < length (pool_blocks p) \<Longrightarrow> block_at (drop_ref b p) c =
     (if c = b then (block_at p b)\<lparr>ref_cnt := ref_cnt (block_at p b) - 1\<rparr> else block_at p c)"
  by (simp add: drop_ref_def)

lemma drop_ref_free_state:
  assumes "free_state p xs pend" "b < length (pool_blocks p)" "b \<noteq> null_block p" "0 < ref_cnt (block_at p b)"
  shows "free_state (drop_ref b p) xs (if ref_cnt (block_at p b) = 1 then pend @ [b] else pend)"
proof -
  have "b \<notin> set xs \<union> set pend"
    using assms by (auto simp: free_state_def free_ids_def)
  moreover have "free_ids (drop_ref b p) = (if ref_cnt (block_at p b) = 1 then insert b (free_ids p) else free_ids p)"
    using assms(2-4) by (auto simp: free_ids_def)
  ultimately show ?thesis
    using assms by (auto simp: free_state_def shape_inv_def) (simp_all add: drop_ref_def)
qed

lemma free_state_perm:
  "free_state p xs pend \<Longrightarrow> distinct pend' \<Longrightarrow> set pend' = set pend \<Longrightarrow> free_state p xs pend'"
  by (simp add: free_state_def)

lemma releasable_drop:
  assumes "releasable p (b # bs)" "\<not> is_null (block_at p b)"
  shows "releasable (drop_ref b p) bs" "0 < ref_cnt (block_at p b)"
proof -
  have b: "b < length (pool_blocks p)" "int (count_list (b # bs) b) \<le> ref_cnt (block_at p b)"
    using assms by (auto simp: releasable_def)
  then show "0 < ref_cnt (block_at p b)" by simp
  show "releasable (drop_ref b p) bs"
    using assms b by (auto simp: releasable_def split: if_splits)
qed

lemma released_Cons:
  assumes "releasable p (b # bs)" "\<not> is_null (block_at p b)"
  shows "released p (b # bs) =
    (if ref_cnt (block_at p b) = 1 then b # released (drop_ref b p) bs else released (drop_ref b p) bs)"
proof -
  have b: "b < length (pool_blocks p)" "int (count_list (b # bs) b) \<le> ref_cnt (block_at p b)"
    using assms by (auto simp: releasable_def)
  have "filter (\<lambda>c. \<not> is_null (block_at p c) \<and> ref_cnt (block_at p c) = int (count_list (b # bs) c)) bs =
      filter (\<lambda>c. \<not> is_null (block_at (drop_ref b p) c) \<and>
        ref_cnt (block_at (drop_ref b p) c) = int (count_list bs c)) bs"
    using b(1) by (intro filter_cong) auto
  moreover have "ref_cnt (block_at p b) = int (count_list (b # bs) b) \<and> b \<notin> set bs \<longleftrightarrow>
      ref_cnt (block_at p b) = 1"
    using b(2) by (auto simp: count_list_0_iff)
  ultimately show ?thesis
    using assms(2) b by (auto simp: released_def count_list_0_iff)
qed

text \<open>Reference counts after \<open>bs\<close> were taken (\<open>d = 1\<close>) or given back (\<open>d = - 1\<close>), hashes as before.\<close>

definition refs_moved :: "int \<Rightarrow> nat list \<Rightarrow> block_pool \<Rightarrow> block_pool \<Rightarrow> bool" where
  "refs_moved d bs p p' \<longleftrightarrow>
     same_hashes p p' \<and> enable_caching p' = enable_caching p \<and>
     (\<forall>c < length (pool_blocks p). is_null (block_at p' c) = is_null (block_at p c) \<and>
        ref_cnt (block_at p' c) =
          ref_cnt (block_at p c) + (if is_null (block_at p c) then 0 else d * int (count_list bs c)))"

lemma refs_moved_Nil [simp]: "refs_moved d [] p p"
  by (simp add: refs_moved_def)

lemma refs_moved_skip: "is_null (block_at p b) \<Longrightarrow> refs_moved d bs p p' \<Longrightarrow> refs_moved d (b # bs) p p'"
  by (auto simp: refs_moved_def)

lemma refs_moved_Cons:
  assumes "b < length (pool_blocks p)" "\<not> is_null (block_at p b)" "refs_moved d bs p1 p'"
    and "same_hashes p p1" "enable_caching p1 = enable_caching p"
    and "\<forall>c < length (pool_blocks p). is_null (block_at p1 c) = is_null (block_at p c) \<and>
      ref_cnt (block_at p1 c) = ref_cnt (block_at p c) + (if c = b then d else 0)"
  shows "refs_moved d (b # bs) p p'"
  using assms same_hashes_trans [OF assms(4)]
  by (auto simp: refs_moved_def same_hashes_def algebra_simps)

lemma drop_ref_moved:
  assumes "b < length (pool_blocks p)" "\<not> is_null (block_at p b)" "refs_moved (- 1) bs (drop_ref b p) p'"
  shows "refs_moved (- 1) (b # bs) p p'"
  using assms by (intro refs_moved_Cons [OF _ _ assms(3)]) (simp_all add: drop_ref_same_hashes)

lemma free_loop_spec:
  assumes "free_state p xs (F @ L)" "releasable p bs"
  shows "\<exists>p'. free_loop bs F L p =
      (F @ filter (reuse_first p) (released p bs), L @ filter (\<lambda>b. \<not> reuse_first p b) (released p bs), p') \<and>
    free_state p' xs ((F @ filter (reuse_first p) (released p bs)) @
      L @ filter (\<lambda>b. \<not> reuse_first p b) (released p bs)) \<and>
    refs_moved (- 1) bs p p' \<and> free_block_queue p' = free_block_queue p"
  using assms
proof (induction bs arbitrary: p F L)
  case Nil
  then show ?case by (simp add: released_def)
next
  case (Cons b bs)
  have b: "b < length (pool_blocks p)"
    using Cons.prems(2) by (simp add: releasable_def)
  show ?case
  proof (cases "is_null (block_at p b)")
    case True
    have "releasable p bs"
      using Cons.prems(2) True by (auto simp: releasable_def split: if_splits)
    moreover have "released p (b # bs) = released p bs"
      using True by (auto simp: released_def intro!: arg_cong [of _ _ remdups] filter_cong)
    ultimately show ?thesis
      using Cons.IH [OF Cons.prems(1)] True by (auto intro: refs_moved_skip)
  next
    case False
    let ?p1 = "drop_ref b p"
    note rel = releasable_drop [OF Cons.prems(2) False]
    have nb: "b \<noteq> null_block p"
      using False b Cons.prems(1) by (auto simp: free_state_def shape_inv_def)
    note st = drop_ref_free_state [OF Cons.prems(1) b nb rel(2)]
    have early: "reuse_first ?p1 = reuse_first p"
      using b by (auto simp: reuse_first_def fun_eq_iff)
    consider "ref_cnt (block_at p b) \<noteq> 1" | "ref_cnt (block_at p b) = 1" "reuse_first p b"
      | "ref_cnt (block_at p b) = 1" "\<not> reuse_first p b"
      by blast
    then show ?thesis
    proof cases
      case 1
      then show ?thesis
        using Cons.IH [OF _ rel(1), of F L] st False b released_Cons [OF Cons.prems(2) False]
        by (auto simp: early drop_ref_def [symmetric] intro: drop_ref_moved)
    next
      case 2
      have "free_state ?p1 xs ((F @ [b]) @ L)"
        using st 2 by (auto intro: free_state_perm simp: free_state_def)
      from Cons.IH [OF this rel(1)] show ?thesis
        using 2 False b released_Cons [OF Cons.prems(2) False]
        by (auto simp: early drop_ref_def [symmetric] reuse_first_def intro: drop_ref_moved)
    next
      case 3
      have "free_state ?p1 xs (F @ L @ [b])"
        using st 3 by simp
      from Cons.IH [OF this rel(1)] show ?thesis
        using 3 False b released_Cons [OF Cons.prems(2) False]
        by (auto simp: early drop_ref_def [symmetric] reuse_first_def intro: drop_ref_moved)
    qed
  qed
qed

lemma map_Blk_fresh:
  "distinct bs \<Longrightarrow> set bs \<inter> set xs = {} \<Longrightarrow>
   distinct (map Blk bs) \<and> set (map Blk bs) \<inter> set (map Blk xs) = {} \<and> list_all is_blk (map Blk bs)"
  by (auto simp: distinct_map inj_on_def list_all_iff)

lemma push_pend_front:
  assumes "free_state p xs (F @ L)"
  shows "\<exists>q. prepend_n (map Blk F) (free_block_queue p) = Inr q \<and>
    free_state (p\<lparr>free_block_queue := q\<rparr>) (F @ xs) L"
proof -
  have d: "distinct F" "set F \<inter> set xs = {}"
    using assms by (auto simp: free_state_def)
  obtain q where "prepend_n (map Blk F) (free_block_queue p) = Inr q" "queue_rep q (map Blk F @ map Blk xs)"
    using fq.push_front_rep [of "free_block_queue p" "map Blk xs" "map Blk F"] map_Blk_fresh [OF d] assms
    by (auto simp: free_state_def)
  then show ?thesis
    using assms by (auto simp: free_state_def shape_inv_def free_ids_def)
qed

lemma push_pend_back:
  assumes "free_state p xs L"
  shows "\<exists>q. append_n (map Blk L) (free_block_queue p) = Inr q \<and>
    free_state (p\<lparr>free_block_queue := q\<rparr>) (xs @ L) []"
proof -
  have d: "distinct L" "set L \<inter> set xs = {}"
    using assms by (auto simp: free_state_def)
  obtain q where "append_n (map Blk L) (free_block_queue p) = Inr q" "queue_rep q (map Blk xs @ map Blk L)"
    using fq.push_back_rep [of "free_block_queue p" "map Blk xs" "map Blk L"] map_Blk_fresh [OF d] assms
    by (auto simp: free_state_def)
  then show ?thesis
    using assms by (auto simp: free_state_def shape_inv_def free_ids_def)
qed

lemma refs_moved_queue [simp]:
  "refs_moved d bs p (p'\<lparr>free_block_queue := q\<rparr>) = refs_moved d bs p p'"
  by (simp add: refs_moved_def same_hashes_def)

lemma refs_moved_cache_inv:
  "refs_moved d bs p p' \<Longrightarrow> cache_inv p \<Longrightarrow> null_block p < length (pool_blocks p) \<Longrightarrow> cache_inv p'"
  using same_hashes_cache_inv by (auto simp: refs_moved_def)

lemma free_own_blocks_spec:
  assumes "free_state p xs []" "cache_inv p" "releasable p bs"
  shows "\<exists>p'. free_own_blocks bs p = Inr p' \<and>
    free_state p' (filter (reuse_first p) (released p bs) @ xs @
      filter (\<lambda>b. \<not> reuse_first p b) (released p bs)) [] \<and>
    cache_inv p' \<and> refs_moved (- 1) bs p p'"
proof -
  let ?F = "filter (reuse_first p) (released p bs)" and ?L = "filter (\<lambda>b. \<not> reuse_first p b) (released p bs)"
  obtain p1 where loop: "free_loop bs [] [] p = (?F, ?L, p1)" and st: "free_state p1 xs (?F @ ?L)"
    and moved: "refs_moved (- 1) bs p p1"
    using free_loop_spec [of p xs "[]" "[]" bs] assms by auto
  obtain q where q: "prepend_n (map Blk ?F) (free_block_queue p1) = Inr q"
      "free_state (p1\<lparr>free_block_queue := q\<rparr>) (?F @ xs) ?L"
    using push_pend_front [OF st] by blast
  obtain q' where q': "append_n (map Blk ?L) q = Inr q'"
      "free_state (p1\<lparr>free_block_queue := q'\<rparr>) ((?F @ xs) @ ?L) []"
    using push_pend_back [OF q(2)] by auto
  have "refs_moved (- 1) bs p (p1\<lparr>free_block_queue := q'\<rparr>)"
    using moved by simp
  moreover from this have "cache_inv (p1\<lparr>free_block_queue := q'\<rparr>)"
    using refs_moved_cache_inv assms(1,2) by (auto simp: free_state_def shape_inv_def)
  ultimately show ?thesis
    using q' by (simp add: free_own_blocks_def loop q(1))
qed

text \<open>Touching: a block that was free leaves the free list.\<close>

lemma touch_block_spec:
  assumes "free_state p xs []" "b < length (pool_blocks p)"
  shows "\<exists>p'. touch_block b p = Inr p' \<and>
    free_state p' (if is_null (block_at p b) then xs else remove1 b xs) [] \<and> refs_moved 1 [b] p p'"
proof (cases "is_null (block_at p b)")
  case True
  then show ?thesis
    using assms by (simp add: touch_block_def refs_moved_skip)
next
  case False
  then have nb: "b \<noteq> null_block p"
    using assms by (auto simp: free_state_def shape_inv_def)
  have d: "distinct xs"
    by (rule free_state_distinct [OF assms(1)])
  obtain q where q: "(if ref_cnt (block_at p b) = 0 then queue_remove (Blk b) (free_block_queue p)
      else Inr (free_block_queue p)) = Inr q" "queue_rep q (map Blk (remove1 b xs))"
  proof (cases "ref_cnt (block_at p b) = 0")
    case True
    then have "b \<in> set xs"
      using assms nb by (auto simp: free_state_def free_ids_def)
    moreover have "remove1 (Blk b) (map Blk xs) = map Blk (remove1 b xs)"
      by (induction xs) auto
    ultimately show ?thesis
      using fq.take_out_rep [of "free_block_queue p" "map Blk xs" "Blk b"] assms(1) True that
      by (auto simp: free_state_def)
  next
    case False
    then have "b \<notin> set xs"
      using assms by (auto simp: free_state_def free_ids_def)
    then show ?thesis
      using that [of "free_block_queue p"] False assms(1) by (simp add: remove1_idem free_state_def)
  qed
  let ?p1 = "p\<lparr>free_block_queue := q\<rparr>"
  define p2 where "p2 = log_metric (OnAccessed b) (update_block b (\<lambda>k. k\<lparr>ref_cnt := ref_cnt k + 1\<rparr>) ?p1)"
  have "?p1 = p" if "ref_cnt (block_at p b) \<noteq> 0"
    using q(1) that by simp
  then have run: "touch_block b p = Inr p2"
    using False q(1) by (auto simp: touch_block_def p2_def)
  have at: "block_at p2 c = (if c = b then (block_at p b)\<lparr>ref_cnt := ref_cnt (block_at p b) + 1\<rparr> else block_at p c)" for c
    using assms(2) by (simp add: p2_def)
  have pos: "0 \<le> ref_cnt (block_at p b)"
    using assms by (simp add: free_state_def shape_inv_def)
  have "set (remove1 b xs) = free_ids p2"
    using assms at pos d by (auto simp: free_state_def free_ids_def p2_def)
  moreover have "shape_inv p2"
    using assms at pos by (auto simp: free_state_def shape_inv_def p2_def)
  moreover have "free_block_queue p2 = q"
    by (simp add: p2_def)
  ultimately have "free_state p2 (remove1 b xs) []"
    using q(2) by (simp add: free_state_def)
  moreover have "refs_moved 1 [b] p p2"
    using at False by (simp add: refs_moved_def same_hashes_def) (simp add: p2_def)
  ultimately show ?thesis
    using run False by simp
qed

lemma refs_moved_append:
  assumes "refs_moved d bs p p'" "refs_moved d cs p' p''"
  shows "refs_moved d (bs @ cs) p p''"
  using assms same_hashes_trans
  by (fastforce simp: refs_moved_def same_hashes_def algebra_simps)

lemma touch_spec:
  assumes "free_state p xs []" "cache_inv p" "\<forall>b \<in> set bs. b < length (pool_blocks p)"
  shows "\<exists>p' ys. touch bs p = Inr p' \<and> free_state p' ys [] \<and> cache_inv p' \<and> refs_moved 1 bs p p'"
  using assms
proof (induction bs arbitrary: p xs)
  case (Cons b bs)
  obtain p1 ys where p1: "touch_block b p = Inr p1" "free_state p1 ys []" "refs_moved 1 [b] p p1"
    using touch_block_spec [OF Cons.prems(1), of b] Cons.prems(3) by auto
  have "cache_inv p1"
    using refs_moved_cache_inv [OF p1(3) Cons.prems(2)] Cons.prems(1) by (simp add: free_state_def shape_inv_def)
  moreover have "\<forall>b \<in> set bs. b < length (pool_blocks p1)"
    using p1(3) Cons.prems(3) by (simp add: refs_moved_def same_hashes_def)
  ultimately show ?case
    using Cons.IH [OF p1(2)] p1(1) refs_moved_append [OF p1(3)] by (fastforce simp: touch_def)
qed (auto simp: touch_def)

lemma unpin_loop_spec:
  assumes "unpin_loop w bs L p = Inr (L', p')" "free_state p xs L" "\<forall>b \<in> set bs. b < length (pool_blocks p)"
  shows "free_state p' xs L'" "same_hashes p p'"
proof -
  have "free_state p' xs L' \<and> same_hashes p p'"
    using assms
  proof (induction bs arbitrary: p L)
    case (Cons b bs)
    let ?p2 = "(drop_ref b p)\<lparr>reuse_watchers := dict_set b w (reuse_watchers (drop_ref b p))\<rparr>"
    have b: "b < length (pool_blocks p)" "0 < ref_cnt (block_at p b)" "\<not> is_null (block_at p b)"
      and rest: "unpin_loop w bs (if ref_cnt (block_at p b) = 1 then L @ [b] else L) ?p2 = Inr (L', p')"
      using Cons.prems(1,3) by (auto simp: rbind_Inr_iff Let_def drop_ref_def py_assert_def split: if_splits)
    have "free_state (drop_ref b p) xs (if ref_cnt (block_at p b) = 1 then L @ [b] else L)"
      using b Cons.prems(2) by (intro drop_ref_free_state) (auto simp: free_state_def shape_inv_def)
    then have "free_state ?p2 xs (if ref_cnt (block_at p b) = 1 then L @ [b] else L)"
      by (rule free_state_quiet [rotated]) (simp add: same_refs_def)
    moreover have "same_hashes p ?p2"
      using b by (simp add: same_hashes_def)
    ultimately show ?case
      using Cons.IH [OF rest] Cons.prems(3) same_hashes_trans by auto
  qed simp
  then show "free_state p' xs L'" "same_hashes p p'" by blast+
qed

lemma unpin_blocks_spec:
  assumes "unpin_blocks bs w p = Inr p'" "pool_inv p" "\<forall>b \<in> set bs. b < length (pool_blocks p)"
  shows "pool_inv p'"
proof -
  obtain L p1 q where loop: "unpin_loop w bs [] p = Inr (L, p1)"
    and q: "append_n (map Blk L) (free_block_queue p1) = Inr q" "p' = p1\<lparr>free_block_queue := q\<rparr>"
    using assms(1) by (auto simp: unpin_blocks_def rbind_Inr_iff)
  obtain xs where xs: "free_state p xs []"
    using assms(2) by (auto simp: pool_inv_def free_inv_state)
  note spec = unpin_loop_spec [OF loop xs assms(3)]
  have "free_state p' (xs @ L) []"
    using push_pend_back [OF spec(1)] q by simp
  moreover have "cache_inv p'"
    using same_hashes_cache_inv [of p p'] spec(2) pool_inv_null [OF assms(2)]
    by (simp add: q(2) same_hashes_def)
  ultimately show ?thesis
    by (auto simp: pool_inv_def free_inv_state)
qed

lemma block_pool_init_spec:
  assumes "0 < num"
  shows "\<exists>p. block_pool_init env ui num caching hbs ev mt la med = Inr p \<and> pool_inv p \<and>
    free_state p [1..<nat num] [] \<and> null_block p = 0 \<and> length (pool_blocks p) = nat num \<and>
    cached_block_hash_to_block p = [] \<and> enable_caching p = caching"
proof -
  have "queue_rep (free_queue_init (map Blk [0..<nat num])) (map Blk [0..<nat num])"
    by (rule queue_rep_init) (auto simp: distinct_map inj_on_def)
  moreover have "[0..<nat num] = 0 # [1..<nat num]"
    using assms by (simp add: upt_conv_Cons)
  ultimately obtain q where q: "popleft (free_queue_init (map Blk [0..<nat num])) = Inr (Blk 0, q)"
      "queue_rep q (map Blk [1..<nat num])"
    using queue_rep_popleft by fastforce
  define p where "p = (case block_pool_init env ui num caching hbs ev mt la med of Inr p \<Rightarrow> p | Inl _ \<Rightarrow> undefined)"
  have run: "block_pool_init env ui num caching hbs ev mt la med = Inr p"
    using assms q(1) by (simp add: p_def block_pool_init_def Let_def)
  have blocks: "block_at p b = (if b = 0 then fresh_block\<lparr>is_null := True\<rparr> else fresh_block)"
    if "b < nat num" for b
    using that run assms q(1) by (auto simp: block_pool_init_def Let_def nth_list_update)
  have fields: "length (pool_blocks p) = nat num" "null_block p = 0" "num_gpu_blocks p = num"
    "free_block_queue p = q" "cached_block_hash_to_block p = []" "cached_block_hashes_by_block p = []"
    "enable_caching p = caching"
    using run assms q(1) by (auto simp: block_pool_init_def Let_def)
  have "free_state p [1..<nat num] []"
    using q(2) fields blocks assms
    by (auto simp: free_state_def shape_inv_def free_ids_def fresh_block_def)
  moreover have "block_hash_keys p b = []" if "b < nat num" for b
    using blocks [OF that] fields by (simp add: block_hash_keys_def secondary_hashes_def fresh_block_def)
  then have "cache_inv p"
    using fields blocks assms
    by (auto simp: cache_inv_def secondary_hashes_def fresh_block_def map_wf_def map_contain_def)
  ultimately show ?thesis
    using run fields by (auto simp: pool_inv_def free_inv_state)
qed

lemma reset_prefix_cache_spec:
  assumes "pool_inv p" "reset_prefix_cache p = (ok, p')"
  shows "pool_inv p'" "same_refs p p'"
    "ok \<Longrightarrow> b < length (pool_blocks p) \<Longrightarrow> block_hash_keys p' b = []" "\<not> ok \<Longrightarrow> p' = p"
    "ok \<longleftrightarrow> get_num_free_blocks p = num_gpu_blocks p - 1"
proof -
  have main: "pool_inv p' \<and> same_refs p p' \<and>
      (\<forall>b < length (pool_blocks p). block_hash_keys p' b = [])" if "ok"
  proof -
    define p1 where "p1 = p\<lparr>cached_block_hash_to_block := [], cached_block_hashes_by_block := []\<rparr>"
    define p2 where "p2 = fold notify_reuse (dict_keys (reuse_watchers p1)) p1"
    define p3 where "p3 = p2\<lparr>pool_blocks := map reset_hash (pool_blocks p2)\<rparr>"
    have q12: "quiet p1 p2"
      by (simp add: p2_def)
    have "p' = log_metric MetricsReset p3 \<or> p' = push_event AllBlocksCleared (log_metric MetricsReset p3)"
      using assms(2) that
      by (auto simp: reset_prefix_cache_def Let_def p1_def p2_def p3_def split: if_splits)
    then have q3: "quiet p3 p'"
      using quiet_trans [OF quiet_log quiet_push] quiet_log by blast
    have r3: "same_refs p p3"
      using q12 by (simp add: quiet_def same_refs_def p1_def p3_def reset_hash_def)
    have c3: "cached_block_hash_to_block p3 = []" "cached_block_hashes_by_block p3 = []"
      "b < length (pool_blocks p3) \<Longrightarrow> block_hash (block_at p3 b) = None \<and> block_hash_num_tokens (block_at p3 b) = None" for b
      using q12 by (simp_all add: quiet_def same_hashes_def p1_def p3_def reset_hash_def)
    have keys3: "b < length (pool_blocks p3) \<Longrightarrow> block_hash_keys p3 b = []" for b
      using c3 by (simp add: block_hash_keys_def secondary_hashes_def)
    have nb3: "null_block p3 < length (pool_blocks p3)"
      using pool_inv_null(1) [OF assms(1)] r3 by (simp add: same_refs_def)
    have "cache_inv p3"
      using c3 keys3 nb3 by (auto simp: cache_inv_def secondary_hashes_def map_wf_def map_contain_def)
    then have "pool_inv p3"
      using same_refs_free_inv [OF r3] assms(1) by (simp add: pool_inv_def)
    then have "kept p3 p'"
      using kept_quiet q3 by blast
    then have "pool_inv p'" "same_refs p p'"
      using same_refs_trans [OF r3] by (simp_all add: kept_def)
    moreover have "block_hash_keys p' b = []" if "b < length (pool_blocks p)" for b
    proof -
      have "b < length (pool_blocks p3)"
        using that r3 by (simp add: same_refs_def)
      then show ?thesis
        using same_hashes_keys [of p3 p' b] q3 keys3 by (simp add: quiet_def)
    qed
    ultimately show ?thesis by blast
  qed
  show "ok \<longleftrightarrow> get_num_free_blocks p = num_gpu_blocks p - 1" "\<not> ok \<Longrightarrow> p' = p"
    using assms(2) by (auto simp: reset_prefix_cache_def Let_def split: if_splits)
  then show "pool_inv p'" "same_refs p p'"
    "ok \<Longrightarrow> b < length (pool_blocks p) \<Longrightarrow> block_hash_keys p' b = []"
    using main assms(1) same_refs_refl by blast+
qed

end
