(* ===== verification/Pool_Properties.thy ===== *)
theory Pool_Properties
  imports Pool_Invariant
begin

text \<open>
  The block pool as a state machine, with the properties of its reachable states: the invariant,
  allocation, release and eviction order, lookup, and reset.
\<close>

section \<open>Reachable pools\<close>

text \<open>The pool as a state machine. Each rule is one call; its side conditions are the caller's part:
  ids are those of the pool, references given back are held, and the null block is not made the
  target of a move.\<close>

inductive pool_step :: "block_pool \<Rightarrow> block_pool \<Rightarrow> bool" where
  alloc: "0 \<le> n \<Longrightarrow> get_new_blocks n p = Inr (bs, p') \<Longrightarrow> pool_step p p'"
| touched: "\<forall>b \<in> set bs. b < length (pool_blocks p) \<Longrightarrow> touch bs p = Inr p' \<Longrightarrow> pool_step p p'"
| freed: "releasable p bs \<Longrightarrow> free_own_blocks bs p = Inr p' \<Longrightarrow> pool_step p p'"
| unpinned: "\<forall>b \<in> set bs. b < length (pool_blocks p) \<Longrightarrow> unpin_blocks bs w p = Inr p' \<Longrightarrow> pool_step p p'"
| cached_full: "\<forall>b \<in> set bs. b < length (pool_blocks p) \<Longrightarrow>
    cache_full_blocks r bs nc nf bsz g m p = Inr (r', p') \<Longrightarrow> pool_step p p'"
| cached_partial: "b < length (pool_blocks p) \<Longrightarrow>
    cache_partial_block r b n g bsz rep p = Inr (key, r', p') \<Longrightarrow> pool_step p p'"
| reported: "emit_cached_block_events r nc bsz g p = Inr (r', p') \<Longrightarrow> pool_step p p'"
| moved: "src < length (pool_blocks p) \<Longrightarrow> dst < length (pool_blocks p) \<Longrightarrow> dst \<noteq> null_block p \<Longrightarrow>
    move_block_hashes src dst p = Inr p' \<Longrightarrow> pool_step p p'"
| evicted: "evict_blocks ids p = Inr p' \<Longrightarrow> pool_step p p'"
| reset: "reset_prefix_cache p = (ok, p') \<Longrightarrow> pool_step p p'"
| drained: "pool_take_events p = (evs, p') \<Longrightarrow> pool_step p p'"

inductive pool_reachable :: "block_pool \<Rightarrow> bool" where
  init: "block_pool_init env ui num caching hbs ev mt la med = Inr p \<Longrightarrow> pool_reachable p"
| step: "pool_reachable p \<Longrightarrow> pool_step p p' \<Longrightarrow> pool_reachable p'"

lemma pool_inv_state: "pool_inv p \<longleftrightarrow> cache_inv p \<and> (\<exists>xs. free_state p xs [])"
  by (auto simp: pool_inv_def free_inv_state)

lemma get_new_blocks_inv:
  assumes "pool_inv p" "0 \<le> n" "get_new_blocks n p = Inr (bs, p')"
  shows "pool_inv p'"
proof -
  obtain xs where xs: "free_state p xs []" and c: "cache_inv p"
    using assms(1) by (auto simp: pool_inv_state)
  have "nat n \<le> length xs"
    using get_new_blocks_short [OF xs, of n] assms(2,3) by (cases "int (length xs) < n") auto
  from get_new_blocks_spec [OF xs c this] show ?thesis
    using assms(2,3) by (auto simp: pool_inv_state)
qed

lemma pool_step_inv: "pool_step p p' \<Longrightarrow> pool_inv p \<Longrightarrow> pool_inv p'"
proof (induction rule: pool_step.induct)
  case (touched bs p p')
  then show ?case
    using touch_spec by (fastforce simp: pool_inv_state)
next
  case (freed p bs p')
  then show ?case
    using free_own_blocks_spec by (fastforce simp: pool_inv_state)
next
  case (drained p evs p')
  have "quiet p p'"
    using drained(1)
    by (auto simp: pool_take_events_def quiet_def same_refs_def same_hashes_def split: if_splits)
  then show ?case
    using drained(2) by (rule quiet_pool_inv)
next
  case (alloc n p bs p')
  then show ?case by (blast intro: get_new_blocks_inv)
next
  case (unpinned bs p w p')
  then show ?case by (blast intro: unpin_blocks_spec)
next
  case cached_full
  then show ?case by (blast intro: keptD(1) [OF cache_full_blocks_kept])
next
  case cached_partial
  then show ?case by (blast intro: keptD(1) [OF cache_partial_block_kept])
next
  case reported
  then show ?case by (blast intro: keptD(1) [OF emit_cached_block_events_kept])
next
  case moved
  then show ?case by (blast intro: keptD(1) [OF move_block_hashes_kept])
next
  case evicted
  then show ?case by (blast intro: keptD(1) [OF evict_blocks_kept])
next
  case reset
  then show ?case by (blast intro: reset_prefix_cache_spec(1))
qed

lemma pool_reachable_pool_inv: "pool_reachable p \<Longrightarrow> pool_inv p"
proof (induction rule: pool_reachable.induct)
  case (init env ui num caching hbs ev mt la med p)
  then have "0 < num"
    by (auto simp: block_pool_init_def py_assert_def split: if_splits)
  then show ?case
    using block_pool_init_spec [of num env ui caching hbs ev mt la med] init by auto
qed (rule pool_step_inv)

section \<open>Freeing blocks of several pools\<close>

definition blocks_in_pool :: "nat \<Rightarrow> (nat \<times> nat) list \<Rightarrow> nat list" where
  "blocks_in_pool i bs = map snd (filter (\<lambda>(j, b). j = i) bs)"

definition listed :: "(nat, nat list) dict \<Rightarrow> nat \<Rightarrow> nat list" where
  "listed d i = (case dict_get d i of None \<Rightarrow> [] | Some xs \<Rightarrow> xs)"

lemma other_pool_blocks_spec:
  "distinct (map fst acc) \<Longrightarrow> distinct (map fst (other_pool_blocks ps self bs acc)) \<and>
   (\<forall>i. listed (other_pool_blocks ps self bs acc) i =
      listed acc i @ (if i = self then []
        else filter (\<lambda>b. \<not> is_null (block_at (ps ! i) b)) (blocks_in_pool i bs))) \<and>
   set (map fst (other_pool_blocks ps self bs acc)) \<subseteq> set (map fst acc) \<union> (fst ` set bs - {self})"
proof (induction ps self bs acc rule: other_pool_blocks.induct)
  case (2 ps self i b bs acc)
  show ?case
  proof (cases "i \<noteq> self \<and> \<not> is_null (block_at (ps ! i) b)")
    case True
    let ?acc = "dict_set i ((case dict_get acc i of None \<Rightarrow> [] | Some xs \<Rightarrow> xs) @ [b]) acc"
    have "distinct (map fst ?acc)"
      using 2(3) by (rule distinct_update)
    moreover have "listed ?acc j = (if j = i then listed acc i @ [b] else listed acc j)" for j
      by (simp add: listed_def update_conv')
    moreover have "set (map fst ?acc) = insert i (set (map fst acc))"
      by (auto simp: update_keys)
    ultimately show ?thesis
      using 2(1) [OF True] True by (auto simp: blocks_in_pool_def)
  next
    case False
    then show ?thesis
      using 2(2) [OF False 2(3)] by (auto simp: blocks_in_pool_def)
  qed
qed (auto simp: blocks_in_pool_def)

lemma free_other_pools:
  assumes "distinct (map fst es)"
    and "\<And>i xs. (i, xs) \<in> set es \<Longrightarrow> i < length ps \<and> (\<exists>p'. free_own_blocks xs (ps ! i) = Inr p')"
  shows "\<exists>ps'. rfold (\<lambda>(i, bs) ps'. rbind (free_own_blocks bs (ps' ! i)) (\<lambda>p'. Inr (ps'[i := p']))) es ps =
      Inr ps' \<and> length ps' = length ps \<and>
    (\<forall>i < length ps. case map_of es i of
        None \<Rightarrow> ps' ! i = ps ! i
      | Some xs \<Rightarrow> free_own_blocks xs (ps ! i) = Inr (ps' ! i))"
  using assms
proof (induction es arbitrary: ps)
  case (Cons e es)
  obtain i xs where e: "e = (i, xs)" by fastforce
  obtain p' where p': "free_own_blocks xs (ps ! i) = Inr p'" and i: "i < length ps"
    using Cons.prems(2) [of i xs] e by auto
  have new: "i \<notin> fst ` set es"
    using Cons.prems(1) e by auto
  have "j < length (ps[i := p']) \<and> (\<exists>p''. free_own_blocks ys (ps[i := p'] ! j) = Inr p'')"
    if "(j, ys) \<in> set es" for j ys
  proof -
    have "j \<noteq> i"
      using that new by force
    then show ?thesis
      using Cons.prems(2) [of j ys] that by simp
  qed
  from Cons.IH [OF _ this] Cons.prems(1) obtain ps' where ps':
    "rfold (\<lambda>(i, bs) ps'. rbind (free_own_blocks bs (ps' ! i)) (\<lambda>p'. Inr (ps'[i := p']))) es (ps[i := p']) = Inr ps'"
    "length ps' = length ps"
    "\<forall>j < length ps. case map_of es j of
        None \<Rightarrow> ps' ! j = ps[i := p'] ! j
      | Some ys \<Rightarrow> free_own_blocks ys (ps[i := p'] ! j) = Inr (ps' ! j)"
    by auto
  have "map_of es i = None"
    using new by (simp add: map_of_eq_None_iff)
  then have "case map_of (e # es) j of None \<Rightarrow> ps' ! j = ps ! j
      | Some ys \<Rightarrow> free_own_blocks ys (ps ! j) = Inr (ps' ! j)" if "j < length ps" for j
    using ps'(3) [rule_format, OF that] p' i e by (cases "j = i") (auto split: option.splits)
  then show ?case
    using ps'(1,2) p' e by auto
qed auto

lemma released_filter_null:
  "refs_moved (- 1) (filter (\<lambda>b. \<not> is_null (block_at p b)) bs) p p' \<longleftrightarrow> refs_moved (- 1) bs p p'"
proof -
  have "count_list (filter (\<lambda>b. \<not> is_null (block_at p b)) bs) c = count_list bs c"
    if "\<not> is_null (block_at p c)" for c
    using that by (induction bs) auto
  then show ?thesis
    by (auto simp: refs_moved_def)
qed

lemma releasable_filter_null:
  "releasable p bs \<Longrightarrow> releasable p (filter (\<lambda>b. \<not> is_null (block_at p b)) bs)"
proof -
  have "count_list (filter (\<lambda>b. \<not> is_null (block_at p b)) bs) c \<le> count_list bs c" for c
    by (induction bs) auto
  then show "releasable p bs \<Longrightarrow> releasable p (filter (\<lambda>b. \<not> is_null (block_at p b)) bs)"
    by (fastforce simp: releasable_def intro: order_trans [of "int _" "int _"])
qed

lemma free_own_blocks_inv:
  assumes "pool_inv p" "releasable p bs"
  shows "\<exists>p'. free_own_blocks bs p = Inr p' \<and> pool_inv p' \<and> refs_moved (- 1) bs p p'"
  using free_own_blocks_spec assms by (fastforce simp: pool_inv_state)

section \<open>Lookup after caching\<close>

lemma get_cached_block_spec:
  assumes "pool_inv p" "get_cached_block p h gs = Inr (Some bs)"
  shows "list_all2 (\<lambda>g b. b < length (pool_blocks p) \<and> b \<noteq> null_block p \<and>
    (\<exists>key \<in> set (block_hash_keys p b). make_block_hash_with_group_id h g = Inr key)) gs bs"
  using assms(2)
proof (induction gs arbitrary: bs)
  case (Cons g gs)
  note D = cache_invD [OF pool_inv_null(3) [OF assms(1)]]
  from Cons.prems obtain key b bs' where
    key: "make_block_hash_with_group_id h g = Inr key"
      "get_one_block (cached_block_hash_to_block p) key = Inr (Some b)"
    and bs: "get_cached_block p h gs = Inr (Some bs')" "bs = b # bs'"
    by (auto simp: rbind_Inr_iff split: option.splits)
  have has: "b < length (pool_blocks p)" "key \<in> set (block_hash_keys p b)"
    using bm.first_has [OF D(1) key(2)] D(2) by auto
  then have "b \<noteq> null_block p"
    using D(5) by auto
  then show ?case
    using Cons.IH [OF bs(1)] bs(2) has key(1) by auto
qed simp

lemma get_cached_block_one:
  assumes "pool_inv p" "make_block_hash_with_group_id h g = Inr key"
    and "b < length (pool_blocks p)" "key \<in> set (block_hash_keys p b)"
  shows "\<exists>b'. get_cached_block p h [g] = Inr (Some [b'])"
proof -
  note D = cache_invD [OF pool_inv_null(3) [OF assms(1)]]
  have "map_contain (cached_block_hash_to_block p) key b"
    using D(2) assms(3,4) by blast
  then obtain b' where "get_one_block (cached_block_hash_to_block p) key = Inr (Some b')"
    using bm.first_total [OF D(1), of key] bm.first_None_iff [OF D(1), of key]
    by (metis option.exhaust)
  then show ?thesis
    by (simp add: assms(2))
qed

text \<open>Caching a block registers its key and leaves the keys of other blocks alone.\<close>

lemma cache_one_full_block_keys:
  assumes "pool_inv p" "b < length (pool_blocks p)" "b \<noteq> null_block p"
    and "cache_one_full_block g h n b p = Inr p'"
  shows "\<exists>key \<in> set (block_hash_keys p' b). make_block_hash_with_group_id h g = Inr key"
    and "c < length (pool_blocks p) \<Longrightarrow> c \<noteq> b \<Longrightarrow> block_hash_keys p' c = block_hash_keys p c"
proof -
  obtain key p1 where key: "make_block_hash_with_group_id h g = Inr key"
    and ins: "insert_block_hash key b (Some n) p1 = Inr p'"
    and p1: "p1 = p \<or> (\<exists>removed p0. remove_cached_block_hashes b p = (removed, p0) \<and>
      p1 = emit_block_removed_events removed p0)"
    using assms(4) unfolding cache_one_full_block_def
    by (auto simp: rbind_Inr_iff Let_def split: if_splits prod.splits)
  have k1: "kept p p1"
    using p1 drop_hashes_kept [OF assms(1,2)] kept_refl [OF assms(1)] by auto
  have r1: "\<exists>ks. rekeyed b ks p p1"
    using p1 remove_cached_block_hashes_spec(3) [OF pool_inv_null(3) [OF assms(1)] assms(2)
        pool_inv_null(1) [OF assms(1)]] rekeyed_quiet [OF _ quiet_emit] rekeyed_refl by blast
  note inv1 = pool_inv_null [OF keptD(1) [OF k1]]
  have "\<exists>p2. insert_block_hash key b (Some n) p1 = Inr p2 \<and> cache_inv p2 \<and>
      rekeyed b (if key \<in> set (block_hash_keys p1 b) then block_hash_keys p1 b
                 else block_hash_keys p1 b @ [key]) p1 p2"
    using assms(2,3) keptD(2,3) [OF k1] by (intro insert_block_hash_spec inv1) simp_all
  then have r2: "rekeyed b (if key \<in> set (block_hash_keys p1 b) then block_hash_keys p1 b
                 else block_hash_keys p1 b @ [key]) p1 p'"
    using ins by simp
  then show "\<exists>key \<in> set (block_hash_keys p' b). make_block_hash_with_group_id h g = Inr key"
    using key assms(2) keptD(2) [OF k1] by (auto simp: rekeyed_def)
  show "c < length (pool_blocks p) \<Longrightarrow> c \<noteq> b \<Longrightarrow> block_hash_keys p' c = block_hash_keys p c"
    using r1 r2 keptD(2) [OF k1] by (auto simp: rekeyed_def)
qed

lemma cache_full_loop_keys:
  assumes "cache_full_loop m hs nc bsz g i bs acc p = Inr (out, p')"
    and "pool_inv p" "\<forall>b \<in> set bs. b < length (pool_blocks p)" "distinct (filter (\<lambda>b. b \<noteq> null_block p) bs)"
  shows "j < length bs \<Longrightarrow> \<not> block_skipped p m (i + j) (bs ! j) \<Longrightarrow>
      i + j < length hs \<and> (\<exists>key \<in> set (block_hash_keys p' (bs ! j)).
        make_block_hash_with_group_id (hs ! (i + j)) g = Inr key)"
    and "c < length (pool_blocks p) \<Longrightarrow> c \<notin> set bs \<Longrightarrow> block_hash_keys p' c = block_hash_keys p c"
proof -
  have "(\<forall>j < length bs. \<not> block_skipped p m (i + j) (bs ! j) \<longrightarrow>
      i + j < length hs \<and> (\<exists>key \<in> set (block_hash_keys p' (bs ! j)).
        make_block_hash_with_group_id (hs ! (i + j)) g = Inr key)) \<and>
    (\<forall>c < length (pool_blocks p). c \<notin> set bs \<or> c = null_block p \<longrightarrow> block_hash_keys p' c = block_hash_keys p c)"
    using assms
  proof (induction bs arbitrary: i acc p)
    case (Cons b bs)
    show ?case
    proof (cases "block_skipped p m i b")
      case True
      then show ?thesis
        using Cons.IH [of "i + 1" acc p] Cons.prems
        by (auto simp: nth_Cons split: nat.splits if_splits)
    next
      case False
      have nb: "b \<noteq> null_block p"
        using False Cons.prems(2,3) pool_inv_null(2) [OF Cons.prems(2), of b] by (auto simp: block_skipped_def)
      then have fresh: "b \<notin> set bs"
        using Cons.prems(4) by auto
      from False Cons.prems(1) obtain h p1 acc' where h: "py_index hs (int i) = Inr h"
        and one: "cache_one_full_block g h (int (nc + i + 1) * bsz) b p = Inr p1"
        and rest: "cache_full_loop m hs nc bsz g (i + 1) bs acc' p1 = Inr (out, p')"
        by (auto simp: rbind_Inr_iff)
      have hi: "i < length hs" "h = hs ! i"
        using h by (auto simp: py_index_def Let_def split: if_splits)
      have b: "b < length (pool_blocks p)"
        using Cons.prems(3) by simp
      have k: "kept p p1"
        by (rule cache_one_full_block_kept [OF Cons.prems(2) b nb one])
      note keys = cache_one_full_block_keys [OF Cons.prems(2) b nb one]
      have skip: "c < length (pool_blocks p) \<Longrightarrow> block_skipped p1 m x c = block_skipped p m x c" for x c
        using k by (simp add: block_skipped_def kept_def same_refs_def)
      have IH: "(\<forall>j < length bs. \<not> block_skipped p1 m (i + 1 + j) (bs ! j) \<longrightarrow>
          i + 1 + j < length hs \<and> (\<exists>key \<in> set (block_hash_keys p' (bs ! j)).
            make_block_hash_with_group_id (hs ! (i + 1 + j)) g = Inr key)) \<and>
        (\<forall>c < length (pool_blocks p1). c \<notin> set bs \<or> c = null_block p1 \<longrightarrow>
          block_hash_keys p' c = block_hash_keys p1 c)"
        using Cons.prems(3,4) keptD [OF k] nb by (intro Cons.IH [OF rest]) auto
      have "block_hash_keys p' b = block_hash_keys p1 b"
        using IH fresh b keptD(2) [OF k] by simp
      then have "j < length (b # bs) \<longrightarrow> \<not> block_skipped p m (i + j) ((b # bs) ! j) \<longrightarrow>
          i + j < length hs \<and> (\<exists>key \<in> set (block_hash_keys p' ((b # bs) ! j)).
            make_block_hash_with_group_id (hs ! (i + j)) g = Inr key)" for j
        using IH keys(1) hi skip Cons.prems(3) by (cases j) auto
      moreover have "block_hash_keys p' c = block_hash_keys p c"
        if "c < length (pool_blocks p)" "c \<notin> set (b # bs) \<or> c = null_block p" for c
        using that IH keys(2) [of c] keptD(2,3) [OF k] nb by auto
      ultimately show ?thesis by blast
    qed
  qed simp
  then show "j < length bs \<Longrightarrow> \<not> block_skipped p m (i + j) (bs ! j) \<Longrightarrow>
      i + j < length hs \<and> (\<exists>key \<in> set (block_hash_keys p' (bs ! j)).
        make_block_hash_with_group_id (hs ! (i + j)) g = Inr key)"
    and "c < length (pool_blocks p) \<Longrightarrow> c \<notin> set bs \<Longrightarrow> block_hash_keys p' c = block_hash_keys p c"
    by blast+
qed

lemma get_cached_block_None:
  assumes "pool_inv p" "\<forall>g \<in> set gs. 0 \<le> g \<and> g < 2 ^ 32"
  shows "\<exists>r. get_cached_block p h gs = Inr r \<and> (r = None \<longrightarrow>
    (\<exists>g \<in> set gs. \<exists>key. make_block_hash_with_group_id h g = Inr key \<and>
       (\<forall>b < length (pool_blocks p). key \<notin> set (block_hash_keys p b))))"
  using assms(2)
proof (induction gs)
  case (Cons g gs)
  note D = cache_invD [OF pool_inv_null(3) [OF assms(1)]]
  obtain key where key: "make_block_hash_with_group_id h g = Inr key"
    using make_block_hash_total [of g h] Cons.prems by auto
  obtain x where x: "get_one_block (cached_block_hash_to_block p) key = Inr x"
    using bm.first_total [OF D(1)] by blast
  obtain r where r: "get_cached_block p h gs = Inr r" "r = None \<longrightarrow>
      (\<exists>g \<in> set gs. \<exists>key. make_block_hash_with_group_id h g = Inr key \<and>
         (\<forall>b < length (pool_blocks p). key \<notin> set (block_hash_keys p b)))"
    using Cons.IH Cons.prems by auto
  show ?case
  proof (cases x)
    case None
    then have "\<forall>b < length (pool_blocks p). key \<notin> set (block_hash_keys p b)"
      using bm.first_None_iff [OF D(1), of key] x D(2) by auto
    then show ?thesis
      using key x None by auto
  next
    case (Some b)
    then show ?thesis
      using key x r by (cases r) auto
  qed
qed simp

lemma get_cached_block_no_keys:
  assumes "pool_inv p" "\<And>b. b < length (pool_blocks p) \<Longrightarrow> block_hash_keys p b = []"
    and "0 \<le> g" "g < 2 ^ 32"
  shows "get_cached_block p h [g] = Inr None"
proof -
  obtain hit where hit: "get_cached_block p h [g] = Inr hit"
    using get_cached_block_None [OF assms(1), of "[g]" h] assms(3,4) by auto
  show ?thesis
  proof (cases hit)
    case (Some bs)
    with hit have "get_cached_block p h [g] = Inr (Some bs)"
      by simp
    from get_cached_block_spec [OF assms(1) this] assms(2) show ?thesis
      by (auto simp: list_all2_Cons1)
  qed (use hit in simp)
qed

lemma free_ids_card:
  assumes "free_state p xs []"
  shows "card (free_ids p) = length xs"
  using assms distinct_card [OF free_state_distinct [OF assms]] by (simp add: free_state_def)

section \<open>A small pool\<close>

definition pool4 :: block_pool where
  "pool4 = (case block_pool_init sample_env False 4 True 2 True False 1 ''GPU'' of Inr p \<Rightarrow> p | Inl _ \<Rightarrow> undefined)"

lemma pool4:
  "block_pool_init sample_env False 4 True 2 True False 1 ''GPU'' = Inr pool4"
  "pool_inv pool4" "free_state pool4 [1, 2, 3] []" "length (pool_blocks pool4) = 4"
  "null_block pool4 = 0" "enable_caching pool4"
proof -
  have "[1..<nat 4] = [1, 2, 3]"
    by (simp add: upt_rec)
  then show "block_pool_init sample_env False 4 True 2 True False 1 ''GPU'' = Inr pool4"
    "pool_inv pool4" "free_state pool4 [1, 2, 3] []" "length (pool_blocks pool4) = 4"
    "null_block pool4 = 0" "enable_caching pool4"
    using block_pool_init_spec [of 4 sample_env False True 2 True False 1 "''GPU''"]
    by (auto simp: pool4_def)
qed

section \<open>Properties\<close>

text \<open>C2. In every pool reachable from construction by any sequence of calls (allocate, touch, free,
  unpin, cache full or partial blocks, move hashes, evict, reset, report and drain events), the
  free list is a well-formed linked list of exactly the blocks without references, no reference
  count is negative, the null block is never free, and a block is found under a hash key
  exactly when that key is one of the hashes stored for it.\<close>

theorem pool_reachable_inv:
  assumes "pool_reachable p"
  shows "pool_inv p"
  using assms by (rule pool_reachable_pool_inv)

theorem pool_reachable_inv_witness:
  "\<exists>bs p. get_new_blocks 2 pool4 = Inr (bs, p) \<and> pool_inv p"
proof -
  obtain p where p: "get_new_blocks (int 2) pool4 = Inr (take 2 [1, 2, 3], p)"
    using get_new_blocks_spec [OF pool4(3) pool_inv_null(3) [OF pool4(2)], of 2] by auto
  have "pool_reachable p"
    using pool_reachable.init [OF pool4(1)] pool_step.alloc [OF _ p] pool_reachable.step by auto
  from pool_reachable_inv [OF this] p show ?thesis by auto
qed

text \<open>C3. Allocation: asking for more blocks than are free raises \<open>ValueError\<close> and nothing else;
  otherwise the call succeeds with that many distinct blocks, none of them the null block, each
  unreferenced before and with exactly one reference after, and (with caching) out of the prefix
  cache; every other block keeps its references and its hashes.\<close>

theorem get_new_blocks_correct:
  assumes "pool_inv p" "0 \<le> n"
  shows "if get_num_free_blocks p < n then get_new_blocks n p = Inl ValueError
    else \<exists>bs p'. get_new_blocks n p = Inr (bs, p') \<and> pool_inv p' \<and>
      int (length bs) = n \<and> distinct bs \<and> get_num_free_blocks p' = get_num_free_blocks p - n \<and>
      (\<forall>b \<in> set bs. b < length (pool_blocks p) \<and> b \<noteq> null_block p \<and> ref_cnt (block_at p b) = 0 \<and>
         ref_cnt (block_at p' b) = 1 \<and> (enable_caching p \<longrightarrow> block_hash_keys p' b = [])) \<and>
      (\<forall>b < length (pool_blocks p). b \<notin> set bs \<longrightarrow>
         ref_cnt (block_at p' b) = ref_cnt (block_at p b) \<and> block_hash_keys p' b = block_hash_keys p b)"
proof (cases "get_num_free_blocks p < n")
  case True
  then show ?thesis by (simp add: get_new_blocks_def)
next
  case False
  obtain xs where xs: "free_state p xs []" and c: "cache_inv p"
    using assms(1) by (auto simp: pool_inv_state)
  have n: "nat n \<le> length xs"
    using False free_state_count [OF xs] by simp
  obtain p' where p': "get_new_blocks (int (nat n)) p = Inr (take (nat n) xs, p')"
      "free_state p' (drop (nat n) xs) []" "cache_inv p'"
      "\<forall>c < length (pool_blocks p).
       ref_cnt (block_at p' c) = (if c \<in> set (take (nat n) xs) then 1 else ref_cnt (block_at p c)) \<and>
       block_hash_keys p' c =
         (if c \<in> set (take (nat n) xs) \<and> enable_caching p then [] else block_hash_keys p c)"
    using get_new_blocks_spec [OF xs c n] by blast
  have sub: "b \<in> free_ids p" if "b \<in> set (take (nat n) xs)" for b
    using that xs by (auto simp: free_state_def dest: in_set_takeD)
  have "get_new_blocks n p = Inr (take (nat n) xs, p') \<and> pool_inv p' \<and>
      int (length (take (nat n) xs)) = n \<and> distinct (take (nat n) xs) \<and>
      get_num_free_blocks p' = get_num_free_blocks p - n"
    using p'(1-3) n assms(2) free_state_distinct [OF xs] free_state_count [OF xs]
      free_state_count [OF p'(2)] by (auto simp: pool_inv_state)
  then show ?thesis
    using False sub p'(4) by (auto simp: free_ids_def)
qed

theorem get_new_blocks_correct_witness:
  "get_new_blocks 4 pool4 = Inl ValueError"
proof -
  have "get_num_free_blocks pool4 < 4"
    using free_state_count [OF pool4(3)] by simp
  with get_new_blocks_correct [OF pool4(2), of 4] show ?thesis by simp
qed

text \<open>C11. Touching blocks (a prefix-cache hit) and freeing the same blocks again restores every
  reference count and every hash, and both calls succeed.\<close>

theorem touch_free_roundtrip:
  assumes "pool_inv p" "\<forall>b \<in> set bs. b < length (pool_blocks p)"
  shows "\<exists>p1 p2. touch bs p = Inr p1 \<and> free_own_blocks bs p1 = Inr p2 \<and> pool_inv p2 \<and>
    (\<forall>b < length (pool_blocks p). ref_cnt (block_at p2 b) = ref_cnt (block_at p b) \<and>
       block_hash_keys p2 b = block_hash_keys p b)"
proof -
  obtain xs where xs: "free_state p xs []" and c: "cache_inv p"
    using assms(1) by (auto simp: pool_inv_state)
  obtain p1 ys where p1: "touch bs p = Inr p1" "free_state p1 ys []" "cache_inv p1" "refs_moved 1 bs p p1"
    using touch_spec [OF xs c assms(2)] by blast
  have "releasable p1 bs"
    using p1(4) assms(2) xs by (auto simp: releasable_def refs_moved_def same_hashes_def free_state_def shape_inv_def)
  then obtain p2 where p2: "free_own_blocks bs p1 = Inr p2" "pool_inv p2" "refs_moved (- 1) bs p1 p2"
    using free_own_blocks_inv [of p1 bs] p1(2,3) by (auto simp: pool_inv_state)
  have "block_hash_keys p2 b = block_hash_keys p b" if "b < length (pool_blocks p)" for b
    using that same_hashes_keys [of p p1 b] same_hashes_keys [of p1 p2 b] p1(4) p2(3)
    by (simp add: refs_moved_def same_hashes_def)
  moreover have "ref_cnt (block_at p2 b) = ref_cnt (block_at p b)" if "b < length (pool_blocks p)" for b
    using that p1(4) p2(3) by (simp add: refs_moved_def same_hashes_def)
  ultimately show ?thesis
    using p1(1) p2(1,2) by blast
qed

theorem touch_free_roundtrip_witness:
  "\<exists>p1 p2. touch [1, 0, 1, 3] pool4 = Inr p1 \<and> free_own_blocks [1, 0, 1, 3] p1 = Inr p2 \<and> pool_inv p2"
  using touch_free_roundtrip [OF pool4(2), of "[1, 0, 1, 3]"] pool4(4) by auto

text \<open>C8. Eviction order: freeing blocks the caller holds succeeds, lowers each reference count by
  the number of occurrences, and puts the blocks that became unreferenced into the free list in
  the order of their last occurrence, those without a hash (or all, without caching) before
  every block that was free already and those with a hash after them.\<close>

theorem free_blocks_order:
  assumes "pool_inv p" "releasable p bs"
    and "get_all_free_blocks (free_block_queue p) = Some (Inr (map Blk xs))"
  shows "\<exists>p'. free_own_blocks bs p = Inr p' \<and> pool_inv p' \<and> refs_moved (- 1) bs p p' \<and>
    get_all_free_blocks (free_block_queue p') = Some (Inr (map Blk
      (filter (reuse_first p) (released p bs) @ xs @ filter (\<lambda>b. \<not> reuse_first p b) (released p bs))))"
proof -
  obtain ys where ys: "free_state p ys []" and c: "cache_inv p"
    using assms(1) by (auto simp: pool_inv_state)
  have "ys = xs"
    using get_all_free_blocks_rep [of "free_block_queue p" "map Blk ys"] ys assms(3)
    by (simp add: free_state_def inj_map_eq_map inj_def)
  let ?zs = "filter (reuse_first p) (released p bs) @ xs @ filter (\<lambda>b. \<not> reuse_first p b) (released p bs)"
  obtain p' where p': "free_own_blocks bs p = Inr p'" "free_state p' ?zs []" "cache_inv p'"
      "refs_moved (- 1) bs p p'"
    using free_own_blocks_spec [OF ys c assms(2)] \<open>ys = xs\<close> by blast
  have "get_all_free_blocks (free_block_queue p') = Some (Inr (map Blk ?zs))"
    using p'(2) by (intro get_all_free_blocks_rep) (simp add: free_state_def)
  with p' show ?thesis
    by (auto simp: pool_inv_state)
qed

theorem free_blocks_order_witness:
  "\<exists>p1 p2. get_new_blocks 3 pool4 = Inr ([1, 2, 3], p1) \<and> free_own_blocks [3, 1] p1 = Inr p2 \<and>
     get_all_free_blocks (free_block_queue p2) = Some (Inr (map Blk [3, 1]))"
proof -
  obtain p1 where p1: "get_new_blocks (int 3) pool4 = Inr (take 3 [1, 2, 3], p1)"
    "free_state p1 (drop 3 [1, 2, 3]) []" "cache_inv p1" "length (pool_blocks p1) = 4" "null_block p1 = 0"
    "\<forall>c < 4. ref_cnt (block_at p1 c) = (if c \<in> set (take 3 [1, 2, 3]) then 1 else ref_cnt (block_at pool4 c)) \<and>
       block_hash_keys p1 c = (if c \<in> set (take 3 [1, 2, 3]) \<and> enable_caching pool4 then [] else block_hash_keys pool4 c)"
    using get_new_blocks_spec [OF pool4(3) pool_inv_null(3) [OF pool4(2)], of 3] pool4(4,5) by auto
  have inv: "pool_inv p1"
    using p1(2,3) by (auto simp: pool_inv_state)
  have null: "\<not> is_null (block_at p1 3)" "\<not> is_null (block_at p1 1)"
    using pool_inv_null(2) [OF inv] p1(4,5) by auto
  have "block_hash (block_at p1 b) = None" if "b \<in> {1, 3}" for b
  proof -
    have "block_hash_keys p1 b = []"
      using that p1(6) pool4(6) by auto
    then show ?thesis by (simp add: block_hash_keys_def split: option.splits)
  qed
  then have "filter (reuse_first p1) (released p1 [3, 1]) = [3, 1]"
    "filter (\<lambda>b. \<not> reuse_first p1 b) (released p1 [3, 1]) = []"
    using p1(6) null by (simp_all add: released_def reuse_first_def)
  moreover have "releasable p1 [3, 1]"
    using p1(4,6) by (simp add: releasable_def)
  moreover have "get_all_free_blocks (free_block_queue p1) = Some (Inr (map Blk []))"
    using get_all_free_blocks_rep p1(2) by (simp add: free_state_def)
  ultimately show ?thesis
    using free_blocks_order [OF inv, of "[3, 1]" "[]"] p1(1) by auto
qed

text \<open>C12. Freeing a mixed list of blocks from several pools succeeds when every pool's part is held
  by the caller: each pool keeps its invariant and loses exactly the references of its own
  blocks.\<close>

theorem free_blocks_pools:
  assumes "self < length ps" "\<forall>(i, b) \<in> set bs. i < length ps"
    and "\<forall>i < length ps. pool_inv (ps ! i) \<and> releasable (ps ! i) (blocks_in_pool i bs)"
  shows "\<exists>ps'. free_blocks self bs ps = Inr ps' \<and> length ps' = length ps \<and>
    (\<forall>i < length ps. pool_inv (ps' ! i) \<and> refs_moved (- 1) (blocks_in_pool i bs) (ps ! i) (ps' ! i))"
proof -
  let ?es = "other_pool_blocks ps self bs []"
  let ?part = "\<lambda>i. filter (\<lambda>b. \<not> is_null (block_at (ps ! i) b)) (blocks_in_pool i bs)"
  obtain p where p: "free_own_blocks (blocks_in_pool self bs) (ps ! self) = Inr p" "pool_inv p"
      "refs_moved (- 1) (blocks_in_pool self bs) (ps ! self) p"
    using free_own_blocks_inv assms(1,3) by blast
  have es: "distinct (map fst ?es)" "\<And>i. listed ?es i = (if i = self then [] else ?part i)"
      "set (map fst ?es) \<subseteq> fst ` set bs - {self}"
    using other_pool_blocks_spec [of "[]" ps self bs] by (simp_all add: listed_def)
  have part: "\<exists>p'. free_own_blocks (?part i) (ps ! i) = Inr p' \<and> pool_inv p' \<and>
      refs_moved (- 1) (blocks_in_pool i bs) (ps ! i) p'" if "i < length ps" for i
    using free_own_blocks_inv [of "ps ! i" "?part i"] assms(3) that releasable_filter_null released_filter_null
    by metis
  have entry: "i < length ps \<and> i \<noteq> self \<and> xs = ?part i" if "(i, xs) \<in> set ?es" for i xs
  proof -
    have "map_of ?es i = Some xs"
      using es(1) that by simp
    moreover have "i \<in> fst ` set bs - {self}"
      using es(3) that by force
    ultimately show ?thesis
      using es(2) [of i] assms(2) by (auto simp: listed_def)
  qed
  have "i < length (ps[self := p]) \<and> (\<exists>p'. free_own_blocks xs (ps[self := p] ! i) = Inr p')"
    if "(i, xs) \<in> set ?es" for i xs
    using entry [OF that] part [of i] by auto
  from free_other_pools [OF es(1) this] obtain ps' where ps':
    "rfold (\<lambda>(i, bs) ps'. rbind (free_own_blocks bs (ps' ! i)) (\<lambda>p'. Inr (ps'[i := p']))) ?es (ps[self := p]) = Inr ps'"
    "length ps' = length ps"
    "\<forall>i < length ps. case map_of ?es i of
        None \<Rightarrow> ps' ! i = ps[self := p] ! i
      | Some xs \<Rightarrow> free_own_blocks xs (ps[self := p] ! i) = Inr (ps' ! i)"
    by auto
  have "pool_inv (ps' ! i) \<and> refs_moved (- 1) (blocks_in_pool i bs) (ps ! i) (ps' ! i)" if i: "i < length ps" for i
  proof (cases "i = self")
    case True
    have "map_of ?es self = None"
      using es(3) by (force simp: map_of_eq_None_iff)
    then show ?thesis
      using ps'(3) i True p by auto
  next
    case False
    show ?thesis
    proof (cases "map_of ?es i")
      case None
      then have "?part i = []"
        using es(2) [of i] False by (simp add: listed_def)
      then have "refs_moved (- 1) (blocks_in_pool i bs) (ps ! i) (ps ! i)"
        using released_filter_null [of "ps ! i" "blocks_in_pool i bs" "ps ! i"] by simp
      then show ?thesis
        using ps'(3) i None False assms(3) by auto
    next
      case (Some xs)
      then show ?thesis
        using ps'(3) i False part [OF i] entry [OF map_of_SomeD [OF Some]] by auto
    qed
  qed
  then show ?thesis
    using p(1) ps'(1,2) by (auto simp: free_blocks_def Let_def blocks_in_pool_def)
qed

theorem free_blocks_pools_witness:
  "\<exists>p ps'. touch [1, 2] pool4 = Inr p \<and> free_blocks 0 [(0, 1), (1, 2), (0, 2), (1, 0)] [p, p] = Inr ps' \<and>
     pool_inv (ps' ! 0) \<and> pool_inv (ps' ! 1)"
proof -
  obtain p ys where p: "touch [1, 2] pool4 = Inr p" "free_state p ys []" "cache_inv p" "refs_moved 1 [1, 2] pool4 p"
    using touch_spec [OF pool4(3) pool_inv_null(3) [OF pool4(2)], of "[1, 2]"] pool4(4) by auto
  have inv: "pool_inv p"
    using p(2,3) by (auto simp: pool_inv_state)
  have len: "length (pool_blocks p) = 4" "null_block p = 0"
    using p(4) pool4(4,5) by (simp_all add: refs_moved_def same_hashes_def)
  have nonneg: "0 \<le> ref_cnt (block_at pool4 b)" "\<not> is_null (block_at pool4 b)" if "b \<in> {1, 2}" for b
    using that pool4(3-5) by (auto simp: free_state_def shape_inv_def)
  have refs: "1 \<le> ref_cnt (block_at p 1)" "1 \<le> ref_cnt (block_at p 2)"
    using p(4) pool4(4) nonneg by (auto simp: refs_moved_def)
  have "is_null (block_at p 0)"
    using pool_inv_null(2) [OF inv, of 0] len by simp
  then have "releasable p [1, 2]" "releasable p [2, 0]"
    using refs len by (simp_all add: releasable_def)
  then have "\<forall>i < length [p, p]. pool_inv ([p, p] ! i) \<and>
      releasable ([p, p] ! i) (blocks_in_pool i [(0, 1), (1, 2), (0, 2), (1, 0)])"
    using inv by (auto simp: less_Suc_eq blocks_in_pool_def)
  from free_blocks_pools [OF _ _ this, of 0] show ?thesis
    using p(1) by auto
qed

text \<open>C10. Lookup is sound and complete: for group ids that fit the key, \<open>get_cached_block\<close> never
  raises; a hit returns for every group a real block registered under that group's key, and a
  miss means that some group has no block under its key.\<close>

theorem get_cached_block_correct:
  assumes "pool_inv p" "\<forall>g \<in> set gs. 0 \<le> g \<and> g < 2 ^ 32"
  shows "\<exists>hit. get_cached_block p h gs = Inr hit \<and>
    (case hit of
       Some bs \<Rightarrow> list_all2 (\<lambda>g b. b < length (pool_blocks p) \<and> b \<noteq> null_block p \<and>
         (\<exists>key \<in> set (block_hash_keys p b). make_block_hash_with_group_id h g = Inr key)) gs bs
     | None \<Rightarrow> \<exists>g \<in> set gs. \<exists>key. make_block_hash_with_group_id h g = Inr key \<and>
         (\<forall>b < length (pool_blocks p). key \<notin> set (block_hash_keys p b)))"
proof -
  obtain hit where "get_cached_block p h gs = Inr hit" and miss: "hit = None \<longrightarrow>
      (\<exists>g \<in> set gs. \<exists>key. make_block_hash_with_group_id h g = Inr key \<and>
         (\<forall>b < length (pool_blocks p). key \<notin> set (block_hash_keys p b)))"
    using get_cached_block_None [OF assms, of h] by blast
  then show ?thesis
    using get_cached_block_spec [OF assms(1), of h gs] by (intro exI [of _ hit]) (auto split: option.split)
qed

theorem get_cached_block_correct_witness:
  "\<exists>hit. get_cached_block pool4 [1, 2] [0, 7] = Inr hit"
  using get_cached_block_correct [OF pool4(2), of "[0, 7]" "[1, 2]"] by auto


definition pool4_used :: block_pool where
  "pool4_used = (case get_new_blocks 2 pool4 of Inr (_, p) \<Rightarrow> p | Inl _ \<Rightarrow> undefined)"

lemma pool4_used: "pool_inv pool4_used" "length (pool_blocks pool4_used) = 4" "null_block pool4_used = 0"
proof -
  obtain p where "get_new_blocks (int 2) pool4 = Inr (take 2 [1, 2, 3], p)"
    "free_state p (drop 2 [1, 2, 3]) []" "cache_inv p" "length (pool_blocks p) = 4" "null_block p = 0"
    using get_new_blocks_spec [OF pool4(3) pool_inv_null(3) [OF pool4(2)], of 2] pool4(4,5) by auto
  then show "pool_inv pool4_used" "length (pool_blocks pool4_used) = 4" "null_block pool4_used = 0"
    by (auto simp: pool4_used_def pool_inv_state)
qed




text \<open>C13. Resetting the prefix cache succeeds exactly when every block but the null block is free;
  it then removes every hash, so no lookup can hit, and it never changes a reference count.
  Otherwise the pool is left as it was.\<close>

theorem reset_prefix_cache_correct:
  assumes "pool_inv p" "reset_prefix_cache p = (ok, p')"
  shows "pool_inv p' \<and> same_refs p p' \<and>
    (ok \<longleftrightarrow> (\<forall>b < length (pool_blocks p). b \<noteq> null_block p \<longrightarrow> ref_cnt (block_at p b) = 0)) \<and>
    (ok \<longrightarrow> (\<forall>h g. 0 \<le> g \<and> g < 2 ^ 32 \<longrightarrow> get_cached_block p' h [g] = Inr None)) \<and>
    (\<not> ok \<longrightarrow> p' = p)"
proof -
  note spec = reset_prefix_cache_spec [OF assms]
  obtain xs where xs: "free_state p xs []"
    using assms(1) by (auto simp: pool_inv_state)
  have shape: "num_gpu_blocks p = int (length (pool_blocks p))" "null_block p < length (pool_blocks p)"
    using xs by (auto simp: free_state_def shape_inv_def)
  have sub: "free_ids p \<subseteq> {..<length (pool_blocks p)} - {null_block p}"
    by (auto simp: free_ids_def)
  have card: "card ({..<length (pool_blocks p)} - {null_block p}) = length (pool_blocks p) - 1"
    using shape(2) by simp
  have count: "get_num_free_blocks p = int (card (free_ids p))"
    using free_state_count [OF xs] free_ids_card [OF xs] by simp
  have "ok \<longleftrightarrow> get_num_free_blocks p = num_gpu_blocks p - 1"
    by (rule spec(5))
  also have "\<dots> \<longleftrightarrow> card (free_ids p) = card ({..<length (pool_blocks p)} - {null_block p})"
    unfolding count card shape(1) using shape(2) by (auto simp: of_nat_diff)
  also have "\<dots> \<longleftrightarrow> free_ids p = {..<length (pool_blocks p)} - {null_block p}"
    by (metis card_subset_eq finite_Diff finite_lessThan sub)
  also have "\<dots> \<longleftrightarrow> (\<forall>b < length (pool_blocks p). b \<noteq> null_block p \<longrightarrow> ref_cnt (block_at p b) = 0)"
    using sub by (auto simp: free_ids_def)
  finally have ok: "ok \<longleftrightarrow> (\<forall>b < length (pool_blocks p). b \<noteq> null_block p \<longrightarrow> ref_cnt (block_at p b) = 0)" .
  have "length (pool_blocks p') = length (pool_blocks p)"
    using spec(2) by (simp add: same_refs_def)
  then have "ok \<longrightarrow> (\<forall>h g. 0 \<le> g \<and> g < 2 ^ 32 \<longrightarrow> get_cached_block p' h [g] = Inr None)"
    using get_cached_block_no_keys [OF spec(1)] spec(3) by simp
  then show ?thesis
    by (intro conjI spec(1,2) ok impI spec(4)) simp_all
qed

theorem reset_prefix_cache_correct_witness:
  "\<exists>p. reset_prefix_cache pool4 = (True, p) \<and> get_cached_block p [1] [0] = Inr None"
proof -
  obtain ok p where run: "reset_prefix_cache pool4 = (ok, p)" by fastforce
  have "\<forall>b < length (pool_blocks pool4). b \<noteq> null_block pool4 \<longrightarrow> ref_cnt (block_at pool4 b) = 0"
    by code_simp
  then have "ok"
    using reset_prefix_cache_correct [OF pool4(2) run] by blast
  moreover have "ok \<longrightarrow> get_cached_block p [1] [0] = Inr None"
    using reset_prefix_cache_correct [OF pool4(2) run] by auto
  ultimately show ?thesis
    using run by simp
qed

end
