(* ===== verification/Heapq.thy ===== *)
theory Heapq
  imports Vllm_Prelude "HOL-Library.Multiset"
begin

text \<open>
  The part of Python's \<open>heapq\<close> that the request queue calls: \<open>heappush\<close>, \<open>heappop\<close> and
  \<open>heapify\<close> on a list, with the order of the elements as an argument (\<open>__lt__\<close> of their class).
  The locale \<open>weak_order\<close> states what the algorithms need of that order; inside it every
  operation is shown to keep the heap order and to lose or invent no element.
\<close>

section \<open>Operations\<close>

text \<open>\<open>_siftdown\<close>: the item moves towards \<open>startpos\<close> while it is smaller than its parent. The list
  is the one in which the hole at \<open>pos\<close> may hold anything.\<close>

function siftdown ::
  "('a \<Rightarrow> 'a \<Rightarrow> bool) \<Rightarrow> nat \<Rightarrow> nat \<Rightarrow> 'a \<Rightarrow> 'a list \<Rightarrow> 'a list" where
  "siftdown lt startpos pos newitem heap =
     (if startpos < pos then
        let parentpos = (pos - 1) div 2; parent = heap ! parentpos
        in if lt newitem parent then siftdown lt startpos parentpos newitem (heap[pos := parent])
           else heap[pos := newitem]
      else heap[pos := newitem])"
  by pat_completeness auto
termination by (relation "measure (\<lambda>(lt, s, p, n, h). p)") auto

text \<open>The loop of \<open>_siftup\<close>: the smaller child moves into the hole until the hole is a leaf. It
  returns the hole and the list.\<close>

definition smaller_child :: "('a \<Rightarrow> 'a \<Rightarrow> bool) \<Rightarrow> nat \<Rightarrow> 'a list \<Rightarrow> nat" where
  "smaller_child lt pos heap =
     (let childpos = 2 * pos + 1; rightpos = childpos + 1
      in if rightpos < length heap \<and> \<not> lt (heap ! childpos) (heap ! rightpos) then rightpos
         else childpos)"

lemma smaller_child_cases: "smaller_child lt p xs = 2 * p + 1 \<or> smaller_child lt p xs = 2 * p + 2"
  by (simp add: smaller_child_def)

lemma smaller_child_bounds:
  assumes "2 * p + 1 < length xs"
  shows "p < smaller_child lt p xs" "smaller_child lt p xs < length xs"
  using assms by (simp_all add: smaller_child_def)

function siftup_loop :: "('a \<Rightarrow> 'a \<Rightarrow> bool) \<Rightarrow> nat \<Rightarrow> 'a list \<Rightarrow> nat \<times> 'a list" where
  "siftup_loop lt pos heap =
     (if 2 * pos + 1 < length heap then
        siftup_loop lt (smaller_child lt pos heap) (heap[pos := heap ! smaller_child lt pos heap])
      else (pos, heap))"
  by pat_completeness auto
termination
  by (relation "measure (\<lambda>(lt, p, h). length h - p)")
    (use smaller_child_bounds in \<open>auto intro!: diff_less_mono2\<close>)

definition siftup :: "('a \<Rightarrow> 'a \<Rightarrow> bool) \<Rightarrow> nat \<Rightarrow> 'a list \<Rightarrow> 'a list" where
  "siftup lt pos heap =
     (let newitem = heap ! pos; (leaf, heap') = siftup_loop lt pos heap
      in siftdown lt pos leaf newitem heap')"

definition heappush :: "('a \<Rightarrow> 'a \<Rightarrow> bool) \<Rightarrow> 'a \<Rightarrow> 'a list \<Rightarrow> 'a list" where
  "heappush lt item heap = siftdown lt 0 (length heap) item (heap @ [item])"

definition heappop :: "('a \<Rightarrow> 'a \<Rightarrow> bool) \<Rightarrow> 'a list \<Rightarrow> ('a \<times> 'a list) result" where
  "heappop lt heap =
     (if heap = [] then Inl IndexError
      else let lastelt = last heap; heap' = butlast heap
           in if heap' = [] then Inr (lastelt, heap')
              else Inr (heap' ! 0, siftup lt 0 (heap'[0 := lastelt])))"

definition heapify :: "('a \<Rightarrow> 'a \<Rightarrow> bool) \<Rightarrow> 'a list \<Rightarrow> 'a list" where
  "heapify lt x = fold (siftup lt) (rev [0..<length x div 2]) x"

declare siftdown.simps [simp del] siftup_loop.simps [simp del]

section \<open>Positions\<close>

text \<open>\<open>below s p\<close>: the walk from \<open>p\<close> to its parents meets \<open>s\<close>.\<close>

fun below :: "nat \<Rightarrow> nat \<Rightarrow> bool" where
  "below s p = (if s < p then below s ((p - 1) div 2) else p = s)"

declare below.simps [simp del]

lemma below_self [simp]: "below s s"
  by (simp add: below.simps)

lemma below_le: "below s p \<Longrightarrow> s \<le> p"
  by (simp add: below.simps [of s p] split: if_splits)

lemma below_parent: "below s p \<Longrightarrow> s < p \<Longrightarrow> below s ((p - 1) div 2) \<and> s \<le> (p - 1) div 2"
  using below_le [of s "(p - 1) div 2"] by (simp add: below.simps [of s p])

lemma below_child:
  assumes "below s p" "c = 2 * p + 1 \<or> c = 2 * p + 2"
  shows "below s c"
proof -
  have "(c - 1) div 2 = p" "s < c" using assms below_le [of s p] by auto
  with assms(1) show ?thesis by (subst below.simps) simp
qed

lemma below_0: "below 0 p"
proof (induction p rule: less_induct)
  case (less p)
  show ?case
  proof (cases "p = 0")
    case False
    then have "(p - 1) div 2 < p" by auto
    with less False show ?thesis by (subst below.simps) simp
  qed simp
qed

lemma child_iff: "0 < i \<Longrightarrow> (i - 1) div 2 = p \<longleftrightarrow> i = 2 * p + 1 \<or> i = 2 * p + (2 :: nat)"
  by presburger

section \<open>Heap order\<close>

text \<open>Every parent at or after \<open>s\<close> is not larger than its children.\<close>

definition heap_from :: "('a \<Rightarrow> 'a \<Rightarrow> bool) \<Rightarrow> nat \<Rightarrow> 'a list \<Rightarrow> bool" where
  "heap_from lt s xs \<longleftrightarrow>
     (\<forall>i < length xs. 0 < i \<and> s \<le> (i - 1) div 2 \<longrightarrow> \<not> lt (xs ! i) (xs ! ((i - 1) div 2)))"

definition is_heap :: "('a \<Rightarrow> 'a \<Rightarrow> bool) \<Rightarrow> 'a list \<Rightarrow> bool" where
  "is_heap lt xs \<longleftrightarrow> heap_from lt 0 xs"

text \<open>The order may fail only between \<open>p\<close> and its parent, and the children of \<open>p\<close> are not smaller
  than that parent.\<close>

definition heap_but :: "('a \<Rightarrow> 'a \<Rightarrow> bool) \<Rightarrow> nat \<Rightarrow> nat \<Rightarrow> 'a list \<Rightarrow> bool" where
  "heap_but lt s p xs \<longleftrightarrow>
     (\<forall>i < length xs. 0 < i \<and> i \<noteq> p \<and> s \<le> (i - 1) div 2 \<longrightarrow> \<not> lt (xs ! i) (xs ! ((i - 1) div 2))) \<and>
     (\<forall>i < length xs. 0 < i \<and> (i - 1) div 2 = p \<and> s < p \<longrightarrow> \<not> lt (xs ! i) (xs ! ((p - 1) div 2)))"

text \<open>The order of a list whose position \<open>p\<close> is a hole.\<close>

definition heap_hole :: "('a \<Rightarrow> 'a \<Rightarrow> bool) \<Rightarrow> nat \<Rightarrow> nat \<Rightarrow> 'a list \<Rightarrow> bool" where
  "heap_hole lt s p xs \<longleftrightarrow>
     (\<forall>i < length xs. 0 < i \<and> i \<noteq> p \<and> (i - 1) div 2 \<noteq> p \<and> s \<le> (i - 1) div 2 \<longrightarrow>
        \<not> lt (xs ! i) (xs ! ((i - 1) div 2))) \<and>
     (\<forall>i < length xs. 0 < i \<and> (i - 1) div 2 = p \<and> s < p \<longrightarrow> \<not> lt (xs ! i) (xs ! ((p - 1) div 2)))"

lemma heap_holeD:
  assumes "heap_hole lt s p xs" "i < length xs" "0 < i"
  shows "i \<noteq> p \<Longrightarrow> (i - 1) div 2 \<noteq> p \<Longrightarrow> s \<le> (i - 1) div 2 \<Longrightarrow> \<not> lt (xs ! i) (xs ! ((i - 1) div 2))"
    and "(i - 1) div 2 = p \<Longrightarrow> s < p \<Longrightarrow> \<not> lt (xs ! i) (xs ! ((p - 1) div 2))"
  using assms unfolding heap_hole_def by blast+

section \<open>No element is lost\<close>

lemma mset_swap_hole:
  assumes "p < length xs" "q < length xs" "p \<noteq> q"
  shows "mset (xs[p := xs ! q, q := v]) = mset (xs[p := v])"
proof -
  have "xs[p := xs ! q, q := v] = (xs[p := v])[p := xs[p := v] ! q, q := xs[p := v] ! p]"
    using assms by simp
  also have "mset \<dots> = mset (xs[p := v])"
    using assms by (intro mset_swap) auto
  finally show ?thesis .
qed

lemma siftdown_mset:
  "p < length xs \<Longrightarrow> mset (siftdown lt s p v xs) = mset (xs[p := v])"
proof (induction lt s p v xs rule: siftdown.induct)
  case (1 lt s p v xs)
  let ?q = "(p - 1) div 2"
  show ?case
  proof (cases "s < p \<and> lt v (xs ! ?q)")
    case True
    then have "?q < p" by auto
    with 1 True have "mset (siftdown lt s ?q v (xs[p := xs ! ?q])) = mset (xs[p := xs ! ?q, ?q := v])"
      by (intro 1(1)) auto
    also have "\<dots> = mset (xs[p := v])" using \<open>?q < p\<close> 1(2) by (intro mset_swap_hole) auto
    finally show ?thesis using True by (simp add: siftdown.simps [of lt s p] Let_def)
  qed (auto simp: siftdown.simps [of lt s p] Let_def)
qed

lemma siftdown_length [simp]: "length (siftdown lt s p v xs) = length xs"
proof (induction lt s p v xs rule: siftdown.induct)
  case (1 lt s p v xs)
  then show ?case by (simp add: siftdown.simps [of lt s p] Let_def)
qed

lemma siftup_loop_mset:
  assumes "siftup_loop lt p xs = (q, ys)" "p < length xs"
  shows "mset (ys[q := v]) = mset (xs[p := v]) \<and> length ys = length xs \<and> q < length xs"
  using assms
proof (induction lt p xs rule: siftup_loop.induct)
  case (1 lt p xs)
  define c where "c = smaller_child lt p xs"
  show ?case
  proof (cases "2 * p + 1 < length xs")
    case True
    then have c: "c < length xs" "p < c" using smaller_child_bounds by (auto simp: c_def)
    from 1(2) True have step: "siftup_loop lt c (xs[p := xs ! c]) = (q, ys)"
      by (simp add: siftup_loop.simps [of lt p] c_def)
    have "mset (ys[q := v]) = mset (xs[p := xs ! c, c := v]) \<and> length ys = length xs \<and> q < length xs"
      using 1(1) [OF True] step c by (auto simp: c_def)
    with c show ?thesis using mset_swap_hole [of p xs c v] by auto
  qed (use 1 in \<open>auto simp: siftup_loop.simps [of lt p]\<close>)
qed

lemma siftup_mset:
  assumes "p < length xs"
  shows "mset (siftup lt p xs) = mset xs"
proof -
  obtain q ys where q: "siftup_loop lt p xs = (q, ys)" by (cases "siftup_loop lt p xs") auto
  have "q < length ys" "mset (ys[q := xs ! p]) = mset xs"
    using siftup_loop_mset [OF q assms, of "xs ! p"] assms by auto
  then show ?thesis by (simp add: siftup_def q siftdown_mset)
qed

lemma siftup_length [simp]: "p < length xs \<Longrightarrow> length (siftup lt p xs) = length xs"
  using siftup_mset [of p xs lt] mset_eq_length by blast

lemma heappush_mset: "mset (heappush lt x xs) = add_mset x (mset xs)"
  by (simp add: heappush_def siftdown_mset)

lemma fold_siftup_mset:
  "(\<forall>i \<in> set ps. i < length xs) \<Longrightarrow> mset (fold (siftup lt) ps xs) = mset xs"
proof (induction ps arbitrary: xs)
  case (Cons p ps)
  then have "mset (fold (siftup lt) ps (siftup lt p xs)) = mset (siftup lt p xs)"
    by (intro Cons.IH) auto
  with Cons.prems show ?case by (simp add: siftup_mset)
qed simp

lemma heapify_mset: "mset (heapify lt xs) = mset xs"
  unfolding heapify_def by (rule fold_siftup_mset) auto

lemma heapify_length [simp]: "length (heapify lt xs) = length xs"
  using heapify_mset mset_eq_length by blast

lemma heappop_mset:
  assumes "heappop lt xs = Inr (x, ys)"
  shows "mset xs = add_mset x (mset ys)"
proof -
  from assms have ne: "xs \<noteq> []" by (auto simp: heappop_def)
  then have xs: "mset xs = add_mset (last xs) (mset (butlast xs))"
    by (cases xs rule: rev_cases) simp_all
  show ?thesis
  proof (cases "butlast xs")
    case Nil
    with assms ne xs show ?thesis by (auto simp: heappop_def Let_def)
  next
    case (Cons a as)
    with assms ne have "x = a" "ys = siftup lt 0 (last xs # as)"
      by (auto simp: heappop_def Let_def)
    with Cons xs show ?thesis by (simp add: siftup_mset)
  qed
qed

section \<open>The heap order is kept\<close>

locale weak_order =
  fixes lt :: "'a \<Rightarrow> 'a \<Rightarrow> bool"
  assumes asym: "lt x y \<Longrightarrow> \<not> lt y x"
    and negtrans: "\<not> lt x y \<Longrightarrow> \<not> lt y z \<Longrightarrow> \<not> lt x z"
begin

lemma irrefl: "\<not> lt x x"
  using asym by blast

text \<open>The step of \<open>_siftdown\<close>: exchanging the item with a larger parent moves the fault up.\<close>

lemma heap_but_swap_order:
  assumes hb: "heap_but lt s p xs" and p: "p < length xs" "s < p" "below s p"
    and small: "lt (xs ! p) (xs ! ((p - 1) div 2))"
    and i: "i < length xs" "0 < i" "i \<noteq> (p - 1) div 2" "s \<le> (i - 1) div 2"
    and zs: "zs = xs[p := xs ! ((p - 1) div 2), (p - 1) div 2 := xs ! p]"
  shows "\<not> lt (zs ! i) (zs ! ((i - 1) div 2))"
proof -
  define q where "q = (p - 1) div 2"
  have q: "q < p" "s \<le> q" using p below_parent [of s p] by (auto simp: q_def)
  have at: "zs ! p = xs ! q" "zs ! q = xs ! p" "\<And>j. j \<noteq> p \<Longrightarrow> j \<noteq> q \<Longrightarrow> zs ! j = xs ! j"
    using p q(1) unfolding zs q_def [symmetric] by auto
  have old: "i \<noteq> p \<Longrightarrow> \<not> lt (xs ! i) (xs ! ((i - 1) div 2))"
    using hb i by (auto simp: heap_but_def)
  have gap: "(i - 1) div 2 = p \<Longrightarrow> \<not> lt (xs ! i) (xs ! q)"
    using hb i p by (auto simp: heap_but_def q_def)
  have rest: "\<not> lt (xs ! q) (xs ! p)" using small asym by (auto simp: q_def)
  show ?thesis
  proof (cases "i = p")
    case True
    then show ?thesis using at rest by (simp add: q_def)
  next
    case False
    have zi: "zs ! i = xs ! i" using at(3) False i(3) by (simp add: q_def)
    consider "(i - 1) div 2 = p" | "(i - 1) div 2 = q" | "(i - 1) div 2 \<noteq> p" "(i - 1) div 2 \<noteq> q"
      by blast
    then show ?thesis
    proof cases
      case 1
      then show ?thesis using zi gap at(1) by simp
    next
      case 2
      then have "\<not> lt (xs ! i) (xs ! q)" using old False by simp
      then have "\<not> lt (xs ! i) (xs ! p)" using rest negtrans by blast
      then show ?thesis using 2 zi at(2) by simp
    next
      case 3
      then show ?thesis using zi at(3) old False by simp
    qed
  qed
qed

lemma heap_but_swap_gap:
  assumes hb: "heap_but lt s p xs" and p: "p < length xs" "s < p" "below s p"
    and q: "q = (p - 1) div 2" "s < q"
    and i: "i < length xs" "0 < i" "(i - 1) div 2 = q"
    and zs: "zs = xs[p := xs ! q, q := xs ! p]"
  shows "\<not> lt (zs ! i) (zs ! ((q - 1) div 2))"
proof -
  define g where "g = (q - 1) div 2"
  have lq: "q < p" "below s q" using p q below_parent [of s p] by auto
  then have g: "s \<le> g" "g < q" using q(2) below_parent [of s q] by (auto simp: g_def)
  have at: "zs ! p = xs ! q" "\<And>j. j \<noteq> p \<Longrightarrow> j \<noteq> q \<Longrightarrow> zs ! j = xs ! j"
    using p lq(1) by (auto simp: zs)
  have up: "\<not> lt (xs ! q) (xs ! g)"
    using hb p lq(1) q(2) g by (auto simp: heap_but_def g_def)
  have zg: "zs ! g = xs ! g" using at(2) g lq(1) by simp
  show ?thesis
  proof (cases "i = p")
    case False
    have "i \<noteq> q" using i g by (auto simp: g_def)
    then have "zs ! i = xs ! i" "\<not> lt (xs ! i) (xs ! q)"
      using at(2) False hb i q by (auto simp: heap_but_def)
    then show ?thesis using up negtrans zg by (metis g_def)
  qed (use up zg at in \<open>simp add: g_def\<close>)
qed

lemma heap_but_swap:
  assumes "heap_but lt s p xs" "p < length xs" "s < p" "below s p"
    and "q = (p - 1) div 2" "lt (xs ! p) (xs ! q)"
  shows "heap_but lt s q (xs[p := xs ! q, q := xs ! p])"
  unfolding heap_but_def
proof (intro conjI allI impI)
  fix i assume "i < length (xs[p := xs ! q, q := xs ! p])" "0 < i \<and> i \<noteq> q \<and> s \<le> (i - 1) div 2"
  then show "\<not> lt (xs[p := xs ! q, q := xs ! p] ! i) (xs[p := xs ! q, q := xs ! p] ! ((i - 1) div 2))"
    using assms(6) unfolding assms(5) by (intro heap_but_swap_order [OF assms(1-4)]) auto
next
  fix i assume "i < length (xs[p := xs ! q, q := xs ! p])" "0 < i \<and> (i - 1) div 2 = q \<and> s < q"
  then show "\<not> lt (xs[p := xs ! q, q := xs ! p] ! i) (xs[p := xs ! q, q := xs ! p] ! ((q - 1) div 2))"
    by (intro heap_but_swap_gap [OF assms(1-5)]) auto
qed

lemma heap_but_stop:
  assumes "heap_but lt s p xs" "\<not> (s < p \<and> lt (xs ! p) (xs ! ((p - 1) div 2)))"
  shows "heap_from lt s xs"
  unfolding heap_from_def
proof (intro allI impI)
  fix i assume i: "i < length xs" "0 < i \<and> s \<le> (i - 1) div 2"
  show "\<not> lt (xs ! i) (xs ! ((i - 1) div 2))"
  proof (cases "i = p")
    case True
    then have "s < p" using i by auto
    then show ?thesis using True assms(2) by simp
  qed (use assms(1) i in \<open>auto simp: heap_but_def\<close>)
qed

lemma siftdown_heap:
  assumes "heap_but lt s p (xs[p := v])" "p < length xs" "below s p"
  shows "heap_from lt s (siftdown lt s p v xs)"
  using assms
proof (induction p arbitrary: xs rule: less_induct)
  case (less p)
  define q where "q = (p - 1) div 2"
  show ?case
  proof (cases "s < p \<and> lt v (xs ! q)")
    case True
    then have lq: "q < p" "below s q" using below_parent [OF less.prems(3)] by (auto simp: q_def)
    have "heap_but lt s q (xs[p := v, p := xs[p := v] ! q, q := xs[p := v] ! p])"
      using True lq less.prems q_def by (intro heap_but_swap) auto
    then have "heap_but lt s q (xs[p := xs ! q, q := v])"
      using lq less.prems(2) by simp
    then have "heap_from lt s (siftdown lt s q v (xs[p := xs ! q]))"
      using lq less.prems(2) by (intro less.IH) auto
    then show ?thesis using True by (simp add: siftdown.simps [of lt s p] Let_def q_def)
  next
    case False
    then have "siftdown lt s p v xs = xs[p := v]"
      by (auto simp: siftdown.simps [of lt s p] Let_def q_def)
    moreover have "q < p \<or> \<not> s < p" by (auto simp: q_def)
    then have "\<not> (s < p \<and> lt (xs[p := v] ! p) (xs[p := v] ! q))" using False less.prems(2) by auto
    ultimately show ?thesis
      using heap_but_stop [OF less.prems(1)] by (simp add: q_def)
  qed
qed

text \<open>The step of \<open>_siftup\<close>: the smaller child fills the hole.\<close>

lemma heap_hole_step:
  assumes hh: "heap_hole lt s p xs" and p: "below s p" "p < length xs"
    and c: "c = 2 * p + 1 \<or> c = 2 * p + 2" "c < length xs"
    and least: "\<And>j. j < length xs \<Longrightarrow> j = 2 * p + 1 \<or> j = 2 * p + 2 \<Longrightarrow> \<not> lt (xs ! j) (xs ! c)"
    and zs: "zs = xs[p := xs ! c]"
  shows "heap_hole lt s c zs"
proof -
  have pc: "(c - 1) div 2 = p" "p < c" "0 < c" using c by auto
  have sp: "s \<le> p" using p(1) by (rule below_le)
  have at: "zs ! p = xs ! c" "\<And>j. j \<noteq> p \<Longrightarrow> zs ! j = xs ! j" "length zs = length xs"
    using p(2) by (simp_all add: zs)
  have order: "\<not> lt (zs ! i) (zs ! ((i - 1) div 2))"
    if i: "i < length xs" "0 < i" "i \<noteq> c" "s \<le> (i - 1) div 2" for i
  proof -
    consider "i = p" | "i \<noteq> p" "(i - 1) div 2 = p" | "i \<noteq> p" "(i - 1) div 2 \<noteq> p" by blast
    then show ?thesis
    proof cases
      case 1
      then have "s < p" "(p - 1) div 2 \<noteq> p" using i by auto
      then show ?thesis using heap_holeD(2) [OF hh c(2) pc(3,1)] at 1 by simp
    next
      case 2
      then show ?thesis using least [of i] i child_iff [of i p] at by simp
    next
      case 3
      then show ?thesis using heap_holeD(1) [OF hh i(1,2)] i at by simp
    qed
  qed
  have gap: "\<not> lt (zs ! i) (zs ! ((c - 1) div 2))"
    if i: "i < length xs" "0 < i" "(i - 1) div 2 = c" for i
  proof -
    have "c < i" using i by presburger
    then have "i \<noteq> p" "i \<noteq> c" "s \<le> (i - 1) div 2" "c \<noteq> p" using pc sp i by auto
    then have "\<not> lt (xs ! i) (xs ! c)" using heap_holeD(1) [OF hh i(1,2)] i by simp
    then show ?thesis using at \<open>i \<noteq> p\<close> pc(1) by simp
  qed
  from order gap at(3) show ?thesis by (simp add: heap_hole_def)
qed

lemma siftup_loop_hole:
  assumes "siftup_loop lt p xs = (q, ys)" "heap_hole lt s p xs" "below s p" "p < length xs"
  shows "heap_hole lt s q ys \<and> below s q \<and> \<not> 2 * q + 1 < length ys"
  using assms
proof (induction "length xs - p" arbitrary: p xs rule: less_induct)
  case less
  define c where "c = smaller_child lt p xs"
  show ?case
  proof (cases "2 * p + 1 < length xs")
    case True
    then have c: "c = 2 * p + 1 \<or> c = 2 * p + 2" "c < length xs" "p < c"
      using smaller_child_bounds [of p xs lt] smaller_child_cases [of lt p xs]
      unfolding c_def by blast+
    have least: "\<not> lt (xs ! j) (xs ! c)" if "j < length xs" "j = 2 * p + 1 \<or> j = 2 * p + 2" for j
      using that irrefl asym by (auto simp: c_def smaller_child_def Let_def)
    have "heap_hole lt s c (xs[p := xs ! c])"
      using c least by (intro heap_hole_step [OF less.prems(2-4)]) auto
    moreover have "siftup_loop lt c (xs[p := xs ! c]) = (q, ys)"
      using less.prems(1) True by (simp add: siftup_loop.simps [of lt p] c_def)
    ultimately show ?thesis
      using c below_child [OF less.prems(3) c(1)] less.hyps [of "xs[p := xs ! c]" c] by auto
  next
    case False
    then show ?thesis using less.prems by (auto simp: siftup_loop.simps [of lt p])
  qed
qed

lemma siftup_heap:
  assumes "heap_from lt (Suc p) xs" "p < length xs"
  shows "heap_from lt p (siftup lt p xs)"
proof -
  obtain q ys where q: "siftup_loop lt p xs = (q, ys)" by (cases "siftup_loop lt p xs") auto
  have "heap_hole lt p p xs"
    using assms(1) by (auto simp: heap_hole_def heap_from_def)
  then have h: "heap_hole lt p q ys" "below p q" "\<not> 2 * q + 1 < length ys"
    using siftup_loop_hole [OF q] assms(2) by auto
  have lq: "q < length ys" using siftup_loop_mset [OF q assms(2)] by auto
  have leaf: "(i - 1) div 2 \<noteq> q" if "i < length ys" "0 < i" for i
    using h(3) that child_iff [of i q] by auto
  have "heap_but lt p q (ys[q := xs ! p])"
    unfolding heap_but_def
  proof (intro conjI allI impI)
    fix i assume "i < length (ys[q := xs ! p])" "0 < i \<and> i \<noteq> q \<and> p \<le> (i - 1) div 2"
    then show "\<not> lt (ys[q := xs ! p] ! i) (ys[q := xs ! p] ! ((i - 1) div 2))"
      using heap_holeD(1) [OF h(1), of i] leaf [of i] by simp
  qed (use leaf in auto)
  then show ?thesis using siftdown_heap lq h(2) by (simp add: siftup_def q)
qed

lemma heappush_heap:
  assumes "is_heap lt xs"
  shows "is_heap lt (heappush lt x xs)"
proof -
  let ?n = "length xs"
  have "heap_but lt 0 ?n (xs @ [x])"
    unfolding heap_but_def
  proof (intro conjI allI impI)
    fix i assume i: "i < length (xs @ [x])" "0 < i \<and> i \<noteq> ?n \<and> 0 \<le> (i - 1) div 2"
    then have "i < ?n" "(i - 1) div 2 < ?n" by auto
    then show "\<not> lt ((xs @ [x]) ! i) ((xs @ [x]) ! ((i - 1) div 2))"
      using assms i by (simp add: is_heap_def heap_from_def nth_append)
  next
    fix i assume "i < length (xs @ [x])" "0 < i \<and> (i - 1) div 2 = ?n \<and> 0 < ?n"
    then have False by auto
    then show "\<not> lt ((xs @ [x]) ! i) ((xs @ [x]) ! ((?n - 1) div 2))" ..
  qed
  then show ?thesis
    using siftdown_heap [of 0 ?n "xs @ [x]" x] by (simp add: is_heap_def heappush_def below_0)
qed

lemma heapify_loop:
  assumes "heap_from lt n xs" "n \<le> length xs"
  shows "heap_from lt 0 (fold (siftup lt) (rev [0..<n]) xs)"
  using assms
proof (induction n arbitrary: xs)
  case (Suc n)
  then have "heap_from lt n (siftup lt n xs)" by (intro siftup_heap) auto
  with Suc show ?case by simp
qed simp

lemma heapify_heap: "is_heap lt (heapify lt xs)"
  unfolding is_heap_def heapify_def
  by (rule heapify_loop) (auto simp: heap_from_def)

lemma heappop_heap:
  assumes "is_heap lt xs" "heappop lt xs = Inr (x, ys)"
  shows "is_heap lt ys"
proof (cases "butlast xs")
  case Nil
  with assms(2) show ?thesis by (auto simp: heappop_def Let_def is_heap_def heap_from_def split: if_splits)
next
  case (Cons a as)
  let ?zs = "(butlast xs)[0 := last xs]"
  from Cons assms(2) have ys: "ys = siftup lt 0 ?zs"
    by (auto simp: heappop_def Let_def split: if_splits)
  have "heap_from lt (Suc 0) ?zs"
    using assms(1) by (auto simp: is_heap_def heap_from_def nth_butlast nth_list_update)
  then show ?thesis using siftup_heap [of 0 ?zs] Cons by (simp add: ys is_heap_def)
qed

lemma heap_root_least:
  assumes "is_heap lt xs" "i < length xs"
  shows "\<not> lt (xs ! i) (xs ! 0)"
  using assms(2)
proof (induction i rule: less_induct)
  case (less i)
  show ?case
  proof (cases "i = 0")
    case False
    then have "(i - 1) div 2 < i" by auto
    then have "\<not> lt (xs ! ((i - 1) div 2)) (xs ! 0)" using less by auto
    moreover have "\<not> lt (xs ! i) (xs ! ((i - 1) div 2))"
      using assms(1) less.prems False by (auto simp: is_heap_def heap_from_def)
    ultimately show ?thesis using negtrans by blast
  qed (simp add: irrefl)
qed

lemma heappop_least:
  assumes "is_heap lt xs" "heappop lt xs = Inr (x, ys)" "y \<in> set xs"
  shows "\<not> lt y x"
proof -
  have "x = xs ! 0" using assms(2)
    by (cases xs rule: rev_cases)
      (auto simp: heappop_def Let_def nth_append hd_conv_nth split: if_splits)
  with assms(3) show ?thesis using heap_root_least [OF assms(1)] by (auto simp: in_set_conv_nth)
qed

end

end
