(* ===== verification/Request_Queue.thy ===== *)
theory Request_Queue
  imports Request_Model Heapq
begin

text \<open>
  The waiting queues of the scheduler (\<open>v1/core/sched/request_queue.py\<close>): \<open>FCFSRequestQueue\<close>, a
  deque, and \<open>PriorityRequestQueue\<close>, a heap under \<open>Request.__lt__\<close>. A request has no \<open>__eq__\<close>, so
  removal compares objects. The abstract base class is the locale \<open>request_queue\<close>; both queues are
  interpretations of it, and so is the queue that \<open>create_request_queue\<close> returns.
\<close>

section \<open>First come, first served\<close>

definition same_object :: "request \<Rightarrow> request \<Rightarrow> bool" where
  "same_object r s \<longleftrightarrow> object_id r = object_id s"

text \<open>\<open>list.remove\<close> and \<open>deque.remove\<close>: the first occurrence, or \<open>ValueError\<close>.\<close>

fun remove_object :: "request \<Rightarrow> request list \<Rightarrow> request list result" where
  "remove_object r [] = Inl ValueError"
| "remove_object r (s # q) =
     (if same_object r s then Inr q else rbind (remove_object r q) (\<lambda>q'. Inr (s # q')))"

definition filter_objects :: "request list \<Rightarrow> request list \<Rightarrow> request list" where
  "filter_objects rs q = filter (\<lambda>s. \<not> list_ex (same_object s) rs) q"

definition fcfs_add_request :: "request \<Rightarrow> request list \<Rightarrow> request list" where
  "fcfs_add_request r q = q @ [r]"

definition fcfs_pop_request :: "request list \<Rightarrow> (request \<times> request list) result" where
  "fcfs_pop_request q = (case q of [] \<Rightarrow> Inl IndexError | r # q' \<Rightarrow> Inr (r, q'))"

definition fcfs_peek_request :: "request list \<Rightarrow> request result" where
  "fcfs_peek_request q = (if q = [] then Inl IndexError else Inr (q ! 0))"

definition fcfs_prepend_request :: "request \<Rightarrow> request list \<Rightarrow> request list" where
  "fcfs_prepend_request r q = r # q"

text \<open>\<open>extendleft\<close> appends one element after the other on the left.\<close>

definition fcfs_prepend_requests :: "request list \<Rightarrow> request list \<Rightarrow> request list" where
  "fcfs_prepend_requests rs q = fold (#) rs q"

definition fcfs_remove_request :: "request \<Rightarrow> request list \<Rightarrow> request list result" where
  "fcfs_remove_request r q = remove_object r q"

definition fcfs_remove_requests :: "request list \<Rightarrow> request list \<Rightarrow> request list" where
  "fcfs_remove_requests rs q = filter_objects rs q"

definition fcfs_len :: "request list \<Rightarrow> nat" where
  "fcfs_len q = length q"

definition fcfs_bool :: "request list \<Rightarrow> bool" where
  "fcfs_bool q \<longleftrightarrow> fcfs_len q > 0"

definition fcfs_iter :: "request list \<Rightarrow> request list" where
  "fcfs_iter q = q"

section \<open>Priority\<close>

definition prio_add_request :: "request \<Rightarrow> request list \<Rightarrow> request list" where
  "prio_add_request r h = heappush request_lt r h"

definition prio_pop_request :: "request list \<Rightarrow> (request \<times> request list) result" where
  "prio_pop_request h = (if h = [] then Inl IndexError else heappop request_lt h)"

definition prio_peek_request :: "request list \<Rightarrow> request result" where
  "prio_peek_request h = (if h = [] then Inl IndexError else Inr (h ! 0))"

definition prio_prepend_request :: "request \<Rightarrow> request list \<Rightarrow> request list" where
  "prio_prepend_request r h = prio_add_request r h"

definition prio_prepend_requests :: "request list \<Rightarrow> request list \<Rightarrow> request list" where
  "prio_prepend_requests rs h = fold prio_add_request rs h"

definition prio_remove_request :: "request \<Rightarrow> request list \<Rightarrow> request list result" where
  "prio_remove_request r h = rbind (remove_object r h) (\<lambda>h'. Inr (heapify request_lt h'))"

definition prio_remove_requests :: "request list \<Rightarrow> request list \<Rightarrow> request list" where
  "prio_remove_requests rs h = heapify request_lt (filter_objects rs h)"

definition prio_bool :: "request list \<Rightarrow> bool" where
  "prio_bool h \<longleftrightarrow> h \<noteq> []"

definition prio_len :: "request list \<Rightarrow> nat" where
  "prio_len h = length h"

text \<open>The generator pops a copy of the heap until it is empty.\<close>

lemma heappop_shrinks: "heappop lt h = Inr (r, h') \<Longrightarrow> length h' < length h"
  by (drule heappop_mset, drule arg_cong [where f = size]) simp

function prio_iter :: "request list \<Rightarrow> request list" where
  "prio_iter h = (case heappop request_lt h of Inl _ \<Rightarrow> [] | Inr (r, h') \<Rightarrow> r # prio_iter h')"
  by pat_completeness auto
termination by (relation "measure length") (auto dest: heappop_shrinks)

declare prio_iter.simps [simp del]

section \<open>The queue the scheduler holds\<close>

datatype scheduling_policy = FCFS | PRIORITY

datatype scheduler_queue = FCFSRequestQueue "request list" | PriorityRequestQueue "request list"

definition create_request_queue :: "scheduling_policy \<Rightarrow> scheduler_queue" where
  "create_request_queue policy =
     (if policy = PRIORITY then PriorityRequestQueue [] else FCFSRequestQueue [])"

fun queue_add :: "request \<Rightarrow> scheduler_queue \<Rightarrow> scheduler_queue" where
  "queue_add r (FCFSRequestQueue q) = FCFSRequestQueue (fcfs_add_request r q)"
| "queue_add r (PriorityRequestQueue h) = PriorityRequestQueue (prio_add_request r h)"

fun queue_pop :: "scheduler_queue \<Rightarrow> (request \<times> scheduler_queue) result" where
  "queue_pop (FCFSRequestQueue q) =
     rbind (fcfs_pop_request q) (\<lambda>(r, q'). Inr (r, FCFSRequestQueue q'))"
| "queue_pop (PriorityRequestQueue h) =
     rbind (prio_pop_request h) (\<lambda>(r, h'). Inr (r, PriorityRequestQueue h'))"

fun queue_peek :: "scheduler_queue \<Rightarrow> request result" where
  "queue_peek (FCFSRequestQueue q) = fcfs_peek_request q"
| "queue_peek (PriorityRequestQueue h) = prio_peek_request h"

fun queue_prepend :: "request \<Rightarrow> scheduler_queue \<Rightarrow> scheduler_queue" where
  "queue_prepend r (FCFSRequestQueue q) = FCFSRequestQueue (fcfs_prepend_request r q)"
| "queue_prepend r (PriorityRequestQueue h) = PriorityRequestQueue (prio_prepend_request r h)"

fun queue_prepend_all :: "request list \<Rightarrow> scheduler_queue \<Rightarrow> scheduler_queue" where
  "queue_prepend_all rs (FCFSRequestQueue q) = FCFSRequestQueue (fcfs_prepend_requests rs q)"
| "queue_prepend_all rs (PriorityRequestQueue h) =
     PriorityRequestQueue (prio_prepend_requests rs h)"

fun queue_remove_request :: "request \<Rightarrow> scheduler_queue \<Rightarrow> scheduler_queue result" where
  "queue_remove_request r (FCFSRequestQueue q) =
     rbind (fcfs_remove_request r q) (\<lambda>q'. Inr (FCFSRequestQueue q'))"
| "queue_remove_request r (PriorityRequestQueue h) =
     rbind (prio_remove_request r h) (\<lambda>h'. Inr (PriorityRequestQueue h'))"

fun queue_remove_all :: "request list \<Rightarrow> scheduler_queue \<Rightarrow> scheduler_queue" where
  "queue_remove_all rs (FCFSRequestQueue q) = FCFSRequestQueue (fcfs_remove_requests rs q)"
| "queue_remove_all rs (PriorityRequestQueue h) = PriorityRequestQueue (prio_remove_requests rs h)"

fun queue_len :: "scheduler_queue \<Rightarrow> nat" where
  "queue_len (FCFSRequestQueue q) = fcfs_len q"
| "queue_len (PriorityRequestQueue h) = prio_len h"

fun queue_iter :: "scheduler_queue \<Rightarrow> request list" where
  "queue_iter (FCFSRequestQueue q) = fcfs_iter q"
| "queue_iter (PriorityRequestQueue h) = prio_iter h"

section \<open>The contract of a request queue\<close>

text \<open>Popping \<open>n\<close> times.\<close>

primrec pops ::
  "('q \<Rightarrow> (request \<times> 'q) result) \<Rightarrow> nat \<Rightarrow> 'q \<Rightarrow> (request list \<times> 'q) result" where
  "pops pop 0 q = Inr ([], q)"
| "pops pop (Suc n) q =
     rbind (pop q) (\<lambda>(r, q'). rbind (pops pop n q') (\<lambda>(rs, q''). Inr (r # rs, q'')))"

text \<open>\<open>iter\<close> lists the requests in the order of the policy; the laws tie every other operation to
  it.\<close>

locale request_queue =
  fixes add :: "request \<Rightarrow> 'q \<Rightarrow> 'q"
    and pop :: "'q \<Rightarrow> (request \<times> 'q) result"
    and peek :: "'q \<Rightarrow> request result"
    and prepend :: "request \<Rightarrow> 'q \<Rightarrow> 'q"
    and prepend_all :: "request list \<Rightarrow> 'q \<Rightarrow> 'q"
    and remove_one :: "request \<Rightarrow> 'q \<Rightarrow> 'q result"
    and remove_many :: "request list \<Rightarrow> 'q \<Rightarrow> 'q"
    and len :: "'q \<Rightarrow> nat"
    and iter :: "'q \<Rightarrow> request list"
    and inv :: "'q \<Rightarrow> bool"
  assumes add_inv: "inv q \<Longrightarrow> inv (add r q)"
    and add_mset: "inv q \<Longrightarrow> mset (iter (add r q)) = add_mset r (mset (iter q))"
    and pop_inv: "inv q \<Longrightarrow> pop q = Inr (r, q') \<Longrightarrow> inv q'"
    and pop_iter: "inv q \<Longrightarrow> pop q = Inr (r, q') \<Longrightarrow> iter q = r # iter q'"
    and pop_empty: "inv q \<Longrightarrow> pop q = Inl e \<longleftrightarrow> iter q = [] \<and> e = IndexError"
    and peek_iter: "inv q \<Longrightarrow> peek q = (if iter q = [] then Inl IndexError else Inr (hd (iter q)))"
    and prepend_inv: "inv q \<Longrightarrow> inv (prepend r q)"
    and prepend_mset: "inv q \<Longrightarrow> mset (iter (prepend r q)) = add_mset r (mset (iter q))"
    and prepend_all_inv: "inv q \<Longrightarrow> inv (prepend_all rs q)"
    and prepend_all_mset: "inv q \<Longrightarrow> mset (iter (prepend_all rs q)) = mset rs + mset (iter q)"
    and remove_one_inv: "inv q \<Longrightarrow> remove_one r q = Inr q' \<Longrightarrow> inv q'"
    and remove_one_mset: "inv q \<Longrightarrow> remove_one r q = Inr q' \<Longrightarrow>
      \<exists>s. same_object r s \<and> mset (iter q) = add_mset s (mset (iter q'))"
    and remove_one_error: "inv q \<Longrightarrow> remove_one r q = Inl e \<longleftrightarrow>
      e = ValueError \<and> (\<forall>s \<in> set (iter q). \<not> same_object r s)"
    and remove_many_inv: "inv q \<Longrightarrow> inv (remove_many rs q)"
    and remove_many_mset: "inv q \<Longrightarrow> mset (iter (remove_many rs q)) = mset (filter_objects rs (iter q))"
    and len_iter: "inv q \<Longrightarrow> len q = length (iter q)"
begin

lemma pop_Some:
  assumes "inv q" "iter q \<noteq> []"
  obtains q' where "pop q = Inr (hd (iter q), q')" "inv q'" "iter q' = tl (iter q)"
proof (cases "pop q")
  case (Inl e)
  then have "iter q = []" unfolding pop_empty [OF assms(1)] by blast
  then show ?thesis using assms(2) by contradiction
next
  case (Inr x)
  obtain r q' where "x = (r, q')" by (rule prod.exhaust)
  then have "pop q = Inr (r, q')" using Inr by simp
  moreover from this have "iter q = r # iter q'" by (rule pop_iter [OF assms(1)])
  moreover have "inv q'" by (rule pop_inv [OF assms(1) calculation(1)])
  ultimately show ?thesis by (intro that [of q']) simp_all
qed

text \<open>Draining: \<open>n\<close> pops return the first \<open>n\<close> requests of the iteration.\<close>

lemma pops_take:
  assumes "inv q" "n \<le> length (iter q)"
  shows "\<exists>q'. pops pop n q = Inr (take n (iter q), q') \<and> inv q' \<and> iter q' = drop n (iter q)"
  using assms
proof (induction n arbitrary: q)
  case (Suc n)
  then have ne: "iter q \<noteq> []" by auto
  obtain q1 where q1: "pop q = Inr (hd (iter q), q1)" "inv q1" "iter q1 = tl (iter q)"
    using pop_Some [OF Suc.prems(1) ne] .
  have "n \<le> length (iter q1)" using q1(3) Suc.prems(2) by simp
  then obtain q2 where "pops pop n q1 = Inr (take n (iter q1), q2)" "inv q2" "iter q2 = drop n (iter q1)"
    using Suc.IH [OF q1(2)] by blast
  then show ?case using q1 ne by (cases "iter q") auto
qed simp

text \<open>Every request added is popped after at most as many pops as the queue then holds.\<close>

lemma add_served:
  assumes "inv q"
  shows "\<exists>rs q'. pops pop (len (add r q)) (add r q) = Inr (rs, q') \<and> r \<in> set rs \<and> iter q' = []"
proof -
  have iv: "inv (add r q)" using assms by (rule add_inv)
  have "len (add r q) = length (iter (add r q))" using iv by (rule len_iter)
  then obtain q' where "pops pop (len (add r q)) (add r q) = Inr (iter (add r q), q')" "iter q' = []"
    using pops_take [OF iv order_refl] by auto
  moreover have "r \<in> set (iter (add r q))"
    using add_mset [OF assms, of r] by (metis set_mset_mset union_single_eq_member)
  ultimately show ?thesis by blast
qed

end

section \<open>Both queues meet the contract\<close>

lemma remove_object_Inr:
  "remove_object r q = Inr q' \<Longrightarrow> \<exists>s. same_object r s \<and> mset q = add_mset s (mset q')"
proof (induction q arbitrary: q')
  case (Cons a q)
  then show ?case
  proof (cases "same_object r a")
    case False
    then obtain q'' where q: "remove_object r q = Inr q''" "q' = a # q''"
      using Cons.prems by (auto elim: rbindE)
    then obtain s where "same_object r s" "mset q = add_mset s (mset q'')" using Cons.IH by blast
    then show ?thesis using q by (auto simp: add_mset_commute)
  qed auto
qed simp

lemma remove_object_Inl:
  "remove_object r q = Inl e \<longleftrightarrow> e = ValueError \<and> (\<forall>s \<in> set q. \<not> same_object r s)"
proof (induction q)
  case (Cons a q)
  then show ?case by (cases "remove_object r q") auto
qed auto

lemma fold_Cons_mset: "mset (fold (#) rs q) = mset rs + mset q"
  by (induction rs arbitrary: q) simp_all

interpretation fcfs: request_queue fcfs_add_request fcfs_pop_request fcfs_peek_request
  fcfs_prepend_request fcfs_prepend_requests fcfs_remove_request fcfs_remove_requests fcfs_len
  fcfs_iter "\<lambda>_. True"
  by unfold_locales (auto simp: fcfs_add_request_def fcfs_pop_request_def fcfs_peek_request_def
    fcfs_prepend_request_def fcfs_prepend_requests_def fcfs_remove_request_def
    fcfs_remove_requests_def fcfs_len_def fcfs_iter_def fold_Cons_mset hd_conv_nth
    remove_object_Inl split: list.splits dest: remove_object_Inr)

text \<open>\<open>Request.__lt__\<close> is the kind of order \<open>heapq\<close> needs.\<close>

lemma string_less_negtrans: "\<not> string_less s t \<Longrightarrow> \<not> string_less t u \<Longrightarrow> \<not> string_less s u"
  using string_less_trans string_less_total by metis

lemma request_lt_negtrans: "\<not> request_lt r s \<Longrightarrow> \<not> request_lt s t \<Longrightarrow> \<not> request_lt r t"
  using string_less_negtrans [of "request_id r" "request_id s" "request_id t"]
    string_less_total [of "request_id s" "request_id t"]
  by (auto simp: request_lt_def split: if_splits)

interpretation rlt: weak_order request_lt
  by unfold_locales (fact request_lt_asym, fact request_lt_negtrans)

lemma heappop_Inl: "heappop lt h = Inl e \<longleftrightarrow> h = [] \<and> e = IndexError"
  by (auto simp: heappop_def Let_def)

lemma prio_iter_mset: "mset (prio_iter h) = mset h"
proof (induction h rule: prio_iter.induct)
  case (1 h)
  show ?case
  proof (cases "heappop request_lt h")
    case (Inl e)
    then show ?thesis by (simp add: prio_iter.simps [of h]) (simp add: heappop_Inl)
  next
    case (Inr p)
    then obtain r h' where p: "heappop request_lt h = Inr (r, h')" by (cases p) auto
    have "mset (prio_iter h') = mset h'" using 1 [OF p] by simp
    then show ?thesis using heappop_mset [OF p] by (simp add: prio_iter.simps [of h] p)
  qed
qed

lemma prio_iter_pop: "heappop request_lt h = Inr (r, h') \<Longrightarrow> prio_iter h = r # prio_iter h'"
  by (simp add: prio_iter.simps [of h])

lemma prio_iter_Nil [simp]: "prio_iter h = [] \<longleftrightarrow> h = []"
  using prio_iter_mset [of h] by (metis mset_zero_iff)

lemma set_prio_iter [simp]: "set (prio_iter h) = set h"
  using prio_iter_mset [of h] by (metis set_mset_mset)

lemma heappop_root:
  assumes "h \<noteq> []"
  obtains h' where "heappop request_lt h = Inr (h ! 0, h')"
proof (cases "butlast h = []")
  case True
  with assms have "heappop request_lt h = Inr (h ! 0, [])"
    by (cases h) (auto simp: heappop_def split: if_splits)
  then show ?thesis using that by blast
next
  case False
  with assms have "heappop request_lt h = Inr (h ! 0, siftup request_lt 0 ((butlast h)[0 := last h]))"
    using nth_butlast [of 0 h] by (cases h) (auto simp: heappop_def Let_def)
  then show ?thesis using that by blast
qed

lemma hd_prio_iter: "h \<noteq> [] \<Longrightarrow> hd (prio_iter h) = h ! 0"
  by (erule heappop_root) (simp add: prio_iter_pop)

lemma fold_prio_add:
  "is_heap request_lt h \<Longrightarrow> is_heap request_lt (fold prio_add_request rs h) \<and>
     mset (fold prio_add_request rs h) = mset rs + mset h"
  by (induction rs arbitrary: h)
    (simp_all add: prio_add_request_def rlt.heappush_heap heappush_mset)

lemma filter_objects_mset:
  "mset q = mset q' \<Longrightarrow> mset (filter_objects rs q) = mset (filter_objects rs q')"
  by (simp add: filter_objects_def)

interpretation prio: request_queue prio_add_request prio_pop_request prio_peek_request
  prio_prepend_request prio_prepend_requests prio_remove_request prio_remove_requests prio_len
  prio_iter "is_heap request_lt"
proof (unfold_locales, goal_cases)
  case (1 q r)
  then show ?case by (simp add: prio_add_request_def rlt.heappush_heap)
next
  case (2 q r)
  then show ?case by (simp add: prio_add_request_def prio_iter_mset heappush_mset)
next
  case (3 q r q')
  then show ?case using rlt.heappop_heap by (auto simp: prio_pop_request_def split: if_splits)
next
  case (4 q r q')
  then show ?case by (auto simp: prio_pop_request_def prio_iter_pop split: if_splits)
next
  case (5 q e)
  then show ?case by (auto simp: prio_pop_request_def heappop_Inl)
next
  case (6 q)
  then show ?case by (simp add: prio_peek_request_def hd_prio_iter)
next
  case (7 q r)
  then show ?case by (simp add: prio_prepend_request_def prio_add_request_def rlt.heappush_heap)
next
  case (8 q r)
  then show ?case
    by (simp add: prio_prepend_request_def prio_add_request_def prio_iter_mset heappush_mset)
next
  case (9 q rs)
  then show ?case by (simp add: prio_prepend_requests_def fold_prio_add)
next
  case (10 q rs)
  then show ?case by (simp add: prio_prepend_requests_def fold_prio_add prio_iter_mset)
next
  case (11 q r q')
  then show ?case by (auto simp: prio_remove_request_def rlt.heapify_heap elim: rbindE)
next
  case (12 q r q')
  then show ?case
    by (auto simp: prio_remove_request_def prio_iter_mset heapify_mset elim!: rbindE
        dest: remove_object_Inr)
next
  case (13 q r e)
  then show ?case
    using remove_object_Inl [of r q e] prio_iter_mset [of q]
    by (cases "remove_object r q") (simp_all add: prio_remove_request_def)
next
  case (14 q rs)
  then show ?case by (simp add: prio_remove_requests_def rlt.heapify_heap)
next
  case (15 q rs)
  then show ?case
    by (simp add: prio_remove_requests_def prio_iter_mset heapify_mset
        filter_objects_mset [OF prio_iter_mset])
next
  case (16 q)
  then show ?case using prio_iter_mset [of q] by (metis mset_eq_length prio_len_def)
qed

fun queue_inv :: "scheduler_queue \<Rightarrow> bool" where
  "queue_inv (FCFSRequestQueue q) = True"
| "queue_inv (PriorityRequestQueue h) = is_heap request_lt h"

lemma queue_pop_cases:
  assumes "queue_pop q = Inr (r, q')"
  obtains (fcfs) l l' where "q = FCFSRequestQueue l" "q' = FCFSRequestQueue l'"
      "fcfs_pop_request l = Inr (r, l')"
    | (prio) h h' where "q = PriorityRequestQueue h" "q' = PriorityRequestQueue h'"
      "prio_pop_request h = Inr (r, h')"
  using assms by (cases q) (auto elim!: rbindE)

lemma queue_remove_cases:
  assumes "queue_remove_request r q = Inr q'"
  obtains (fcfs) l l' where "q = FCFSRequestQueue l" "q' = FCFSRequestQueue l'"
      "fcfs_remove_request r l = Inr l'"
    | (prio) h h' where "q = PriorityRequestQueue h" "q' = PriorityRequestQueue h'"
      "prio_remove_request r h = Inr h'"
  using assms by (cases q) (auto elim!: rbindE)

lemma rbind_tag_Inl [simp]: "rbind m (\<lambda>x. Inr (f x)) = Inl e \<longleftrightarrow> m = Inl e"
  by (cases m) simp_all

lemma rbind_pair_tag_Inl [simp]: "rbind m (\<lambda>(a, b). Inr (f a b)) = Inl e \<longleftrightarrow> m = Inl e"
  by (cases m) (simp_all add: split_beta)

interpretation sq: request_queue queue_add queue_pop queue_peek queue_prepend queue_prepend_all
  queue_remove_request queue_remove_all queue_len queue_iter queue_inv
proof (unfold_locales, goal_cases)
  case (1 q r)
  then show ?case by (cases q) (simp_all add: prio.add_inv)
next
  case (2 q r)
  then show ?case by (cases q) (simp_all add: prio.add_mset fcfs.add_mset)
next
  case (3 q r q')
  then show ?case using prio.pop_inv by (elim queue_pop_cases) auto
next
  case (4 q r q')
  then show ?case using prio.pop_iter fcfs.pop_iter by (elim queue_pop_cases) auto
next
  case (5 q e)
  then show ?case by (cases q) (simp_all add: prio.pop_empty fcfs.pop_empty)
next
  case (6 q)
  then show ?case by (cases q) (simp_all add: prio.peek_iter fcfs.peek_iter)
next
  case (7 q r)
  then show ?case by (cases q) (simp_all add: prio.prepend_inv)
next
  case (8 q r)
  then show ?case by (cases q) (simp_all add: prio.prepend_mset fcfs.prepend_mset)
next
  case (9 q rs)
  then show ?case by (cases q) (simp_all add: prio.prepend_all_inv)
next
  case (10 q rs)
  then show ?case by (cases q) (simp_all add: prio.prepend_all_mset fcfs.prepend_all_mset)
next
  case (11 q r q')
  then show ?case using prio.remove_one_inv by (elim queue_remove_cases) auto
next
  case (12 q r q')
  then show ?case
    using prio.remove_one_mset fcfs.remove_one_mset by (elim queue_remove_cases) auto
next
  case (13 q r e)
  then show ?case by (cases q) (simp_all add: prio.remove_one_error fcfs.remove_one_error)
next
  case (14 q rs)
  then show ?case by (cases q) (simp_all add: prio.remove_many_inv)
next
  case (15 q rs)
  then show ?case by (cases q) (simp_all add: prio.remove_many_mset fcfs.remove_many_mset)
next
  case (16 q)
  then show ?case by (cases q) (simp_all add: prio.len_iter fcfs.len_iter)
qed

section \<open>Order\<close>

text \<open>The queues a scheduler of a policy can hold: built by \<open>create_request_queue\<close> and the
  operations.\<close>

inductive queue_reachable :: "scheduling_policy \<Rightarrow> scheduler_queue \<Rightarrow> bool" where
  create: "queue_reachable p (create_request_queue p)"
| add: "queue_reachable p q \<Longrightarrow> queue_reachable p (queue_add r q)"
| pop: "queue_reachable p q \<Longrightarrow> queue_pop q = Inr (r, q') \<Longrightarrow> queue_reachable p q'"
| prepend: "queue_reachable p q \<Longrightarrow> queue_reachable p (queue_prepend r q)"
| prepend_all: "queue_reachable p q \<Longrightarrow> queue_reachable p (queue_prepend_all rs q)"
| remove: "queue_reachable p q \<Longrightarrow> queue_remove_request r q = Inr q' \<Longrightarrow> queue_reachable p q'"
| remove_all: "queue_reachable p q \<Longrightarrow> queue_reachable p (queue_remove_all rs q)"

lemma create_request_queue_inv: "queue_inv (create_request_queue p)"
  by (simp add: create_request_queue_def is_heap_def heap_from_def)

lemma queue_reachable_inv: "queue_reachable p q \<Longrightarrow> queue_inv q"
  by (induction rule: queue_reachable.induct)
    (blast intro: create_request_queue_inv sq.add_inv sq.pop_inv sq.prepend_inv
      sq.prepend_all_inv sq.remove_one_inv sq.remove_many_inv)+

lemma queue_reachable_priority:
  assumes "queue_reachable p q"
  shows "p = PRIORITY \<longleftrightarrow> (\<exists>h. q = PriorityRequestQueue h)"
  using assms
proof (induction rule: queue_reachable.induct)
  case (create p)
  then show ?case by (simp add: create_request_queue_def)
next
  case (pop p q r q')
  then show ?case by (elim queue_pop_cases) auto
next
  case (remove p q r q')
  then show ?case by (elim queue_remove_cases) auto
next
  case (add p q r)
  then show ?case by (cases q) auto
next
  case (prepend p q r)
  then show ?case by (cases q) auto
next
  case (prepend_all p q rs)
  then show ?case by (cases q) auto
next
  case (remove_all p q rs)
  then show ?case by (cases q) auto
qed

abbreviation not_after :: "request \<Rightarrow> request \<Rightarrow> bool" where
  "not_after r s \<equiv> \<not> request_lt s r"

lemma prio_iter_sorted:
  "is_heap request_lt h \<Longrightarrow> sorted_wrt not_after (prio_iter h)"
proof (induction h rule: prio_iter.induct)
  case (1 h)
  show ?case
  proof (cases "h = []")
    case True
    then have "prio_iter h = []" by simp
    then show ?thesis by (simp only: sorted_wrt.simps)
  next
    case False
    then obtain h' where p: "heappop request_lt h = Inr (h ! 0, h')" by (rule heappop_root)
    have "is_heap request_lt h'" using rlt.heappop_heap 1(2) p by blast
    then have "sorted_wrt not_after (prio_iter h')" using 1(1) [OF p refl] by simp
    moreover have "set h' \<subseteq> set h"
      using heappop_mset [OF p] by (metis insertI2 set_mset_add_mset_insert set_mset_mset subsetI)
    then have "\<forall>s \<in> set h'. not_after (h ! 0) s" using rlt.heappop_least [OF 1(2) p] by blast
    ultimately show ?thesis by (simp add: prio_iter_pop [OF p])
  qed
qed

text \<open>With distinct objects the order is strict, so the sorted list is unique.\<close>

lemma sorted_requests_unique:
  assumes "sorted_wrt not_after rs" "sorted_wrt not_after ss" "mset rs = mset ss"
    and "inj_on object_id (set rs)"
  shows "rs = ss"
  using assms
proof (induction rs arbitrary: ss)
  case (Cons r rs)
  then obtain s ss' where ss: "ss = s # ss'" by (cases ss) auto
  have sets: "insert r (set rs) = insert s (set ss')"
    using Cons.prems(3) ss by (metis list.set(2) set_mset_mset)
  have "r = s"
  proof (rule ccontr)
    assume ne: "r \<noteq> s"
    then have "s \<in> set rs" "r \<in> set ss'" using sets by auto
    then have "not_after r s" "not_after s r" using Cons.prems(1,2) ss by auto
    moreover have "object_id r \<noteq> object_id s"
      using ne \<open>s \<in> set rs\<close> Cons.prems(4) by (auto dest: inj_onD)
    ultimately show False using request_lt_total by blast
  qed
  moreover have "rs = ss'"
    using Cons.prems ss \<open>r = s\<close> by (intro Cons.IH) auto
  ultimately show ?case using ss by simp
qed simp

section \<open>Properties\<close>



text \<open>C21. The priority queue serves by \<open>Request.__lt__\<close> and by nothing else. The iteration order of a
  reachable priority queue is sorted by priority, arrival time, request id and object; it is the
  order in which pops return the requests; and two reachable queues that hold the same requests
  (as objects) iterate alike, whatever the order in which the requests were added, removed and
  prepended.\<close>

theorem priority_queue_order:
  assumes "queue_reachable PRIORITY q" "queue_reachable PRIORITY q'"
    and "mset (queue_iter q) = mset (queue_iter q')" "inj_on object_id (set (queue_iter q))"
  shows "sorted_wrt not_after (queue_iter q) \<and> queue_iter q = queue_iter q' \<and>
    (\<forall>n \<le> queue_len q. \<exists>q2. pops queue_pop n q = Inr (take n (queue_iter q'), q2))"
proof -
  have sorted: "sorted_wrt not_after (queue_iter q)" if q: "queue_reachable PRIORITY q" for q
    using queue_reachable_priority [OF q] queue_reachable_inv [OF q] prio_iter_sorted by auto
  have eq: "queue_iter q = queue_iter q'"
    using sorted assms by (intro sorted_requests_unique) auto
  have "\<exists>q2. pops queue_pop n q = Inr (take n (queue_iter q'), q2)" if "n \<le> queue_len q" for n
    using sq.pops_take [OF queue_reachable_inv [OF assms(1)], of n] that eq
      sq.len_iter [OF queue_reachable_inv [OF assms(1)]] by auto
  then show ?thesis using sorted [OF assms(1)] eq by blast
qed

text \<open>Three requests, added in two orders.\<close>

definition sample_queue :: "nat list \<Rightarrow> scheduler_queue" where
  "sample_queue ks =
     fold (\<lambda>k. queue_add (plain_request k (if k = 2 then 0 else 1) (of_nat k) [7])) ks
       (create_request_queue PRIORITY)"

lemma fold_queue_add:
  "queue_reachable p q \<Longrightarrow> queue_reachable p (fold (\<lambda>k. queue_add (f k)) ks q) \<and>
     mset (queue_iter (fold (\<lambda>k. queue_add (f k)) ks q)) = mset (map f ks) + mset (queue_iter q)"
proof (induction ks arbitrary: q)
  case (Cons k ks)
  have "queue_reachable p (queue_add (f k) q)" using Cons.prems by (rule queue_reachable.add)
  from Cons.IH [OF this] sq.add_mset [OF queue_reachable_inv [OF Cons.prems]] show ?case by simp
qed simp

theorem priority_queue_order_witness:
  "sorted_wrt not_after (queue_iter (sample_queue [0, 1, 2])) \<and>
   queue_iter (sample_queue [0, 1, 2]) = queue_iter (sample_queue [2, 1, 0]) \<and>
   map object_id (queue_iter (sample_queue [2, 1, 0])) = [2, 0, 1]"
proof -
  have ids: "map object_id (queue_iter (sample_queue [2, 1, 0])) = [2, 0, 1]"
    "map object_id (queue_iter (sample_queue [0, 1, 2])) = [2, 0, 1]"
    by code_simp+
  have inj: "inj_on object_id (set (queue_iter (sample_queue [0, 1, 2])))"
    using ids(2) distinct_map [of object_id "queue_iter (sample_queue [0, 1, 2])"] by simp
  have reach: "queue_reachable PRIORITY (sample_queue ks)" for ks
    unfolding sample_queue_def by (rule fold_queue_add [OF queue_reachable.create, THEN conjunct1])
  have "mset (queue_iter (sample_queue [0, 1, 2])) = mset (queue_iter (sample_queue [2, 1, 0]))"
    unfolding sample_queue_def fold_queue_add [OF queue_reachable.create, THEN conjunct2] by simp
  from priority_queue_order [OF reach reach this inj] ids(1) show ?thesis by blast
qed

text \<open>C22. A request that is added is served: whatever the policy, popping as many times as the queue
  is long raises nothing, returns the added request among the popped ones and empties the
  queue.\<close>

theorem queue_add_served:
  assumes "queue_reachable p q"
  shows "\<exists>rs q'. pops queue_pop (queue_len (queue_add r q)) (queue_add r q) = Inr (rs, q') \<and>
    r \<in> set rs \<and> queue_iter q' = []"
  using sq.add_served [OF queue_reachable_inv [OF assms]] .

theorem queue_add_served_witness:
  "\<exists>rs q'. pops queue_pop (queue_len (queue_add (plain_request 5 3 0 [7]) (sample_queue [])))
     (queue_add (plain_request 5 3 0 [7]) (sample_queue [])) = Inr (rs, q') \<and>
   plain_request 5 3 0 [7] \<in> set rs \<and> queue_iter q' = []"
proof -
  have "queue_reachable PRIORITY (sample_queue [])"
    by (simp add: sample_queue_def queue_reachable.create)
  then show ?thesis by (rule queue_add_served)
qed

end
