(* ===== verification/Encoder_Cache.thy ===== *)
theory Encoder_Cache
  imports Request_Model
begin

text \<open>
  The encoder cache (\<open>v1/core/encoder_cache_manager.py\<close>): which multimodal encoder outputs are
  cached, which requests reference them, and when they are evicted. A Python set is a list without
  repetition; the order in which \<open>free\<close> visits the set of input ids is an argument. The section on
  reachable states follows the cache together with the set of outputs the worker holds.
\<close>

section \<open>Operations\<close>

record encoder_cache_manager =
  cache_size :: int
  num_free_slots :: int
  num_freeable_slots :: int
  cached :: "(string, string list) dict"
  num_embeds_by_hash :: "(string, int) dict"
  request_cached_ids :: "(string, int list) dict"
  request_hash_refs :: "(string, (string, int) dict) dict"
  freeable :: "(string, int) dict"
  freed :: "string list"

definition encoder_cache_init :: "int \<Rightarrow> encoder_cache_manager" where
  "encoder_cache_init capacity =
     \<lparr>cache_size = capacity, num_free_slots = capacity, num_freeable_slots = capacity, cached = [],
      num_embeds_by_hash = [], request_cached_ids = [], request_hash_refs = [], freeable = [],
      freed = []\<rparr>"

definition encoder_cache_reset :: "encoder_cache_manager \<Rightarrow> encoder_cache_manager" where
  "encoder_cache_reset m =
     m\<lparr>cached := [], num_embeds_by_hash := [], request_cached_ids := [], request_hash_refs := [],
       freeable := [], freed := [], num_free_slots := cache_size m,
       num_freeable_slots := cache_size m\<rparr>"

definition input_hash :: "request \<Rightarrow> int \<Rightarrow> string result" where
  "input_hash r i = rbind (py_index (mm_features r) i) (\<lambda>f. Inr (mm_identifier f))"

definition add_cached_input_id ::
  "string \<Rightarrow> int \<Rightarrow> string \<Rightarrow> encoder_cache_manager \<Rightarrow> encoder_cache_manager" where
  "add_cached_input_id rid i h m =
     (let cached_ids = (case dict_get (request_cached_ids m) rid of Some s \<Rightarrow> s | None \<Rightarrow> []);
          m1 = m\<lparr>request_cached_ids := dict_set rid cached_ids (request_cached_ids m)\<rparr>
      in if i \<in> set cached_ids then m1
         else let refs = (case dict_get (request_hash_refs m) rid of Some d \<Rightarrow> d | None \<Rightarrow> []);
                  n = (case dict_get refs h of Some c \<Rightarrow> c | None \<Rightarrow> 0)
              in m1\<lparr>request_cached_ids := dict_set rid (cached_ids @ [i]) (request_cached_ids m1),
                    request_hash_refs := dict_set rid (dict_set h (n + 1) refs)
                                           (request_hash_refs m)\<rparr>)"

definition check_and_update_cache ::
  "request \<Rightarrow> int \<Rightarrow> encoder_cache_manager \<Rightarrow> (bool \<times> encoder_cache_manager) result" where
  "check_and_update_cache r i m =
     rbind (input_hash r i) (\<lambda>h.
       case dict_get (cached m) h of
         None \<Rightarrow> Inr (False, m)
       | Some rs \<Rightarrow>
           rbind (if rs = []
                  then rbind (of_option KeyError (dict_get (freeable m) h)) (\<lambda>n.
                         Inr (m\<lparr>freeable := dict_del h (freeable m),
                                num_freeable_slots := num_freeable_slots m - n\<rparr>))
                  else Inr m) (\<lambda>m1.
             Inr (True, add_cached_input_id (request_id r) i h
                          (m1\<lparr>cached := dict_set h (List.insert (request_id r) rs) (cached m1)\<rparr>))))"

definition get_cached_num_encoder_embeds ::
  "request \<Rightarrow> int \<Rightarrow> encoder_cache_manager \<Rightarrow> int option result" where
  "get_cached_num_encoder_embeds r i m =
     rbind (input_hash r i) (\<lambda>h. Inr (dict_get (num_embeds_by_hash m) h))"

text \<open>The eviction loop of \<open>can_allocate\<close>: the oldest freeable entry leaves until \<open>n\<close> slots are
  free.\<close>

function evict_until :: "int \<Rightarrow> encoder_cache_manager \<Rightarrow> encoder_cache_manager result" where
  "evict_until n m =
     (if n > num_free_slots m then
        case freeable m of
          [] \<Rightarrow> Inl KeyError
        | (h, k) # rest \<Rightarrow>
            (if dict_get (cached m) h = None then Inl KeyError
             else if dict_get (num_embeds_by_hash m) h = None then Inl KeyError
             else evict_until n
               (m\<lparr>freeable := rest, cached := dict_del h (cached m),
                  num_embeds_by_hash := dict_del h (num_embeds_by_hash m), freed := freed m @ [h],
                  num_free_slots := num_free_slots m + k\<rparr>))
      else Inr m)"
  by pat_completeness auto
termination by (relation "measure (\<lambda>(n, m). length (freeable m))") auto

declare evict_until.simps [simp del]

definition can_allocate ::
  "request \<Rightarrow> int \<Rightarrow> int \<Rightarrow> int \<Rightarrow> encoder_cache_manager \<Rightarrow> (bool \<times> encoder_cache_manager) result" where
  "can_allocate r i encoder_compute_budget num_embeds_to_schedule m =
     rbind (get_num_encoder_embeds r i) (\<lambda>k.
       if k > encoder_compute_budget then Inr (False, m)
       else let n = k + num_embeds_to_schedule
            in if n \<le> num_free_slots m then Inr (True, m)
               else if n > num_freeable_slots m then Inr (False, m)
               else rbind (evict_until n m) (\<lambda>m'. Inr (True, m')))"

definition allocate :: "request \<Rightarrow> int \<Rightarrow> encoder_cache_manager \<Rightarrow> encoder_cache_manager result" where
  "allocate r i m =
     rbind (input_hash r i) (\<lambda>h.
       let rid = request_id r; rs = (case dict_get (cached m) h of Some s \<Rightarrow> s | None \<Rightarrow> [])
       in rbind (get_num_encoder_embeds r i) (\<lambda>n.
            let known = (case dict_get (num_embeds_by_hash m) h of Some k \<Rightarrow> k | None \<Rightarrow> n);
                m1 = m\<lparr>cached := dict_set h rs (cached m),
                       num_embeds_by_hash := dict_set h known (num_embeds_by_hash m)\<rparr>
            in rbind (py_assert (known = n)) (\<lambda>_.
               rbind (py_assert (num_free_slots m1 \<ge> n)) (\<lambda>_.
               rbind (py_assert (num_freeable_slots m1 \<ge> n)) (\<lambda>_.
               let m2 = add_cached_input_id rid i h
                          (m1\<lparr>cached := dict_set h (List.insert rid rs) (cached m1)\<rparr>)
               in Inr (m2\<lparr>num_free_slots := num_free_slots m2 - n,
                         num_freeable_slots := num_freeable_slots m2 - n\<rparr>))))))"

definition get_cached_input_ids :: "request \<Rightarrow> encoder_cache_manager \<Rightarrow> int list" where
  "get_cached_input_ids r m =
     (case dict_get (request_cached_ids m) (request_id r) of Some s \<Rightarrow> s | None \<Rightarrow> [])"

text \<open>The first half of \<open>free_encoder_input\<close>: the request's own bookkeeping.\<close>

definition drop_cached_input_id ::
  "string \<Rightarrow> int \<Rightarrow> string \<Rightarrow> encoder_cache_manager \<Rightarrow> encoder_cache_manager result" where
  "drop_cached_input_id rid i h m =
     (case dict_get (request_cached_ids m) rid of
        None \<Rightarrow> Inr m
      | Some ids \<Rightarrow>
          (if i \<in> set ids then
             rbind (of_option KeyError (dict_get (request_hash_refs m) rid)) (\<lambda>refs.
             rbind (of_option KeyError (dict_get refs h)) (\<lambda>c.
               let ids' = removeAll i ids;
                   refs' = (if c - 1 = 0 then dict_del h refs else dict_set h (c - 1) refs)
               in Inr (if ids' = []
                       then m\<lparr>request_cached_ids := dict_del rid (request_cached_ids m),
                              request_hash_refs := dict_del rid (request_hash_refs m)\<rparr>
                       else m\<lparr>request_cached_ids := dict_set rid ids' (request_cached_ids m),
                              request_hash_refs := dict_set rid refs' (request_hash_refs m)\<rparr>)))
           else Inr m))"

definition free_encoder_input ::
  "request \<Rightarrow> int \<Rightarrow> encoder_cache_manager \<Rightarrow> encoder_cache_manager result" where
  "free_encoder_input r i m =
     rbind (input_hash r i) (\<lambda>h.
       let rid = request_id r
       in rbind (drop_cached_input_id rid i h m) (\<lambda>m1.
            case dict_get (cached m1) h of
              None \<Rightarrow> Inr m1
            | Some rs \<Rightarrow>
                (if rs = [] then Inr m1
                 else if (case dict_get (request_hash_refs m1) rid of
                            None \<Rightarrow> False | Some d \<Rightarrow> dict_get d h \<noteq> None) then Inr m1
                 else let rs' = removeAll rid rs; m2 = m1\<lparr>cached := dict_set h rs' (cached m1)\<rparr>
                      in if rs' = []
                         then rbind (of_option KeyError (dict_get (num_embeds_by_hash m2) h)) (\<lambda>n.
                                Inr (m2\<lparr>freeable := dict_set h n (freeable m2),
                                        num_freeable_slots := num_freeable_slots m2 + n\<rparr>))
                         else Inr m2)))"

text \<open>\<open>set_order\<close> enumerates a set of input ids.\<close>

definition encoder_free ::
  "(int list \<Rightarrow> int list) \<Rightarrow> request \<Rightarrow> encoder_cache_manager \<Rightarrow> encoder_cache_manager result" where
  "encoder_free set_order r m = rfold (free_encoder_input r) (set_order (get_cached_input_ids r m)) m"

definition get_freed_mm_hashes ::
  "encoder_cache_manager \<Rightarrow> string list \<times> encoder_cache_manager" where
  "get_freed_mm_hashes m =
     (filter (\<lambda>h. dict_get (cached m) h = None) (freed m), m\<lparr>freed := []\<rparr>)"

section \<open>Encoder budget\<close>

record scheduler_config =
  disable_chunked_mm_input :: bool
  max_num_batched_tokens :: int
  max_num_encoder_input_tokens :: int
  sc_encoder_cache_size :: int

definition compute_mm_encoder_budget ::
  "scheduler_config \<Rightarrow> (string, int) dict \<Rightarrow> (int \<times> int) result" where
  "compute_mm_encoder_budget c mm_max_toks_per_item =
     (if mm_max_toks_per_item = [] then Inr (0, 0)
      else let biggest = Max (set (map snd mm_max_toks_per_item))
           in if disable_chunked_mm_input c \<and> biggest > max_num_batched_tokens c
              then Inl ValueError
              else Inr (max (max_num_encoder_input_tokens c) biggest,
                        max (sc_encoder_cache_size c) biggest))"

section \<open>Encoder-decoder models\<close>

record encoder_decoder_cache =
  ed_cache_size :: int
  ed_num_free_slots :: int
  allocated :: "string list"
  to_free :: "string list"

definition encoder_decoder_init :: "int \<Rightarrow> encoder_decoder_cache" where
  "encoder_decoder_init capacity =
     \<lparr>ed_cache_size = capacity, ed_num_free_slots = capacity, allocated = [], to_free = []\<rparr>"

definition encoder_decoder_reset :: "encoder_decoder_cache \<Rightarrow> encoder_decoder_cache" where
  "encoder_decoder_reset m =
     m\<lparr>ed_num_free_slots := ed_cache_size m, allocated := [], to_free := []\<rparr>"

definition ed_check_and_update_cache :: "request \<Rightarrow> int \<Rightarrow> encoder_decoder_cache \<Rightarrow> bool" where
  "ed_check_and_update_cache r i m = False"

definition ed_can_allocate ::
  "request \<Rightarrow> int \<Rightarrow> int \<Rightarrow> int \<Rightarrow> encoder_decoder_cache \<Rightarrow> bool result" where
  "ed_can_allocate r i encoder_compute_budget num_embeds_to_schedule m =
     rbind (get_num_encoder_embeds r i) (\<lambda>k.
       Inr (if k > encoder_compute_budget then False
            else k + num_embeds_to_schedule \<le> ed_num_free_slots m))"

definition ed_allocate :: "request \<Rightarrow> int \<Rightarrow> encoder_decoder_cache \<Rightarrow> encoder_decoder_cache result" where
  "ed_allocate r i m =
     rbind (get_num_encoder_embeds r i) (\<lambda>n.
     rbind (input_hash r i) (\<lambda>h.
       Inr (m\<lparr>ed_num_free_slots := ed_num_free_slots m - n, allocated := allocated m @ [h]\<rparr>)))"

definition ed_free_encoder_input ::
  "request \<Rightarrow> int \<Rightarrow> encoder_decoder_cache \<Rightarrow> encoder_decoder_cache result" where
  "ed_free_encoder_input r i m =
     rbind (get_num_encoder_embeds r i) (\<lambda>n.
       Inr (m\<lparr>ed_num_free_slots := ed_num_free_slots m + n\<rparr>))"

definition ed_free :: "request \<Rightarrow> encoder_decoder_cache \<Rightarrow> encoder_decoder_cache result" where
  "ed_free r m =
     rfold (ed_free_encoder_input r) (map int [0..<length (mm_features r)]) m"

definition ed_get_cached_input_ids :: "request \<Rightarrow> int list" where
  "ed_get_cached_input_ids r = map int [0..<length (mm_features r)]"

definition ed_get_freed_mm_hashes ::
  "encoder_decoder_cache \<Rightarrow> string list \<times> encoder_decoder_cache" where
  "ed_get_freed_mm_hashes m = (to_free m, m\<lparr>to_free := allocated m, allocated := []\<rparr>)"

section \<open>Dictionaries of counts\<close>

abbreviation total :: "('k, int) dict \<Rightarrow> int" where
  "total d \<equiv> sum_list (map snd d)"

lemma total_set_new: "dict_get d k = None \<Longrightarrow> total (dict_set k v d) = total d + v"
  by (induction d) (auto split: if_splits)

lemma total_del:
  "distinct (map fst d) \<Longrightarrow> dict_get d k = Some v \<Longrightarrow> total (dict_del k d) = total d - v"
proof (induction d)
  case (Cons a d)
  obtain b c where a: "a = (b, c)" by (rule prod.exhaust)
  show ?case
  proof (cases "b = k")
    case True
    then have "k \<notin> fst ` set d" using Cons.prems a by auto
    then have "dict_del k d = d" by (rule delete_id)
    then show ?thesis using True Cons.prems a by simp
  next
    case False
    then show ?thesis using Cons a by simp
  qed
qed simp

lemma set_same: "dict_get d k = Some v \<Longrightarrow> distinct (map fst d) \<Longrightarrow> dict_set k v d = d"
  by (induction d) (force split: if_splits)+

lemma total_nonneg: "(\<And>k v. dict_get d k = Some v \<Longrightarrow> 0 \<le> v) \<Longrightarrow> distinct (map fst d) \<Longrightarrow> 0 \<le> total d"
  by (intro sum_list_nonneg) (auto simp: map_of_eq_Some_iff)

declare map_of_eq_Some_iff [simp del]

section \<open>Invariant\<close>

text \<open>Slot accounting: an entry is freeable exactly when no request references it.\<close>

definition slots_inv :: "encoder_cache_manager \<Rightarrow> bool" where
  "slots_inv m \<longleftrightarrow>
     distinct (map fst (cached m)) \<and> distinct (map fst (num_embeds_by_hash m)) \<and>
     distinct (map fst (freeable m)) \<and>
     (\<forall>h. dict_get (cached m) h = None \<longleftrightarrow> dict_get (num_embeds_by_hash m) h = None) \<and>
     (\<forall>h. dict_get (freeable m) h =
            (if dict_get (cached m) h = Some [] then dict_get (num_embeds_by_hash m) h else None)) \<and>
     (\<forall>h n. dict_get (num_embeds_by_hash m) h = Some n \<longrightarrow> 0 \<le> n) \<and>
     num_free_slots m = cache_size m - total (num_embeds_by_hash m) \<and>
     num_freeable_slots m = num_free_slots m + total (freeable m) \<and> 0 \<le> num_free_slots m"

definition ids_of :: "encoder_cache_manager \<Rightarrow> string \<Rightarrow> int list" where
  "ids_of m rid = (case dict_get (request_cached_ids m) rid of Some s \<Rightarrow> s | None \<Rightarrow> [])"

text \<open>\<open>hs rid i\<close> is the hash of input \<open>i\<close> of request \<open>rid\<close>. A request's counters are the numbers of
  its cached inputs per hash.\<close>

definition counts_ok :: "(int \<Rightarrow> string) \<Rightarrow> int list \<Rightarrow> (string, int) dict \<Rightarrow> bool" where
  "counts_ok hash ids refs \<longleftrightarrow> ids \<noteq> [] \<and> distinct ids \<and>
     (\<forall>h. dict_get refs h =
        (if h \<in> hash ` set ids then Some (int (length (filter (\<lambda>i. hash i = h) ids))) else None))"

definition books_inv :: "(string \<Rightarrow> int \<Rightarrow> string) \<Rightarrow> encoder_cache_manager \<Rightarrow> bool" where
  "books_inv hs m \<longleftrightarrow>
     (\<forall>rid. case (dict_get (request_cached_ids m) rid, dict_get (request_hash_refs m) rid) of
        (None, None) \<Rightarrow> True
      | (Some ids, Some refs) \<Rightarrow> counts_ok (hs rid) ids refs
      | _ \<Rightarrow> False)"

definition links_inv :: "(string \<Rightarrow> int \<Rightarrow> string) \<Rightarrow> encoder_cache_manager \<Rightarrow> bool" where
  "links_inv hs m \<longleftrightarrow>
     (\<forall>h rid. (\<exists>rs. dict_get (cached m) h = Some rs \<and> rid \<in> set rs) \<longleftrightarrow>
        h \<in> hs rid ` set (ids_of m rid))"

definition encoder_inv :: "(string \<Rightarrow> int \<Rightarrow> string) \<Rightarrow> encoder_cache_manager \<Rightarrow> bool" where
  "encoder_inv hs m \<longleftrightarrow> slots_inv m \<and> books_inv hs m \<and> links_inv hs m"

lemma slots_inv_embeds:
  assumes "slots_inv m" "dict_get (cached m) h = Some rs"
  obtains n where "dict_get (num_embeds_by_hash m) h = Some n" "0 \<le> n"
proof (cases "dict_get (num_embeds_by_hash m) h")
  case None
  then have "dict_get (cached m) h = None" using assms(1) by (simp add: slots_inv_def)
  then show ?thesis using assms(2) by simp
next
  case (Some n)
  then show ?thesis using assms(1) that by (auto simp: slots_inv_def)
qed

lemma books_inv_cases:
  assumes "books_inv hs m"
  obtains (none) "dict_get (request_cached_ids m) rid = None" "dict_get (request_hash_refs m) rid = None"
      "ids_of m rid = []"
    | (some) ids refs where "dict_get (request_cached_ids m) rid = Some ids"
      "dict_get (request_hash_refs m) rid = Some refs" "counts_ok (hs rid) ids refs" "ids_of m rid = ids"
  using assms unfolding books_inv_def ids_of_def
  by (cases "dict_get (request_cached_ids m) rid"; cases "dict_get (request_hash_refs m) rid")
    (auto dest: spec [of _ rid])

lemma books_inv_set:
  assumes "books_inv hs m" "counts_ok (hs rid) ids refs"
  shows "books_inv hs (m\<lparr>request_cached_ids := dict_set rid ids (request_cached_ids m),
    request_hash_refs := dict_set rid refs (request_hash_refs m)\<rparr>)"
  using assms by (simp add: books_inv_def dict_simps)

lemma books_inv_del:
  assumes "books_inv hs m"
  shows "books_inv hs (m\<lparr>request_cached_ids := dict_del rid (request_cached_ids m),
    request_hash_refs := dict_del rid (request_hash_refs m)\<rparr>)"
  using assms by (simp add: books_inv_def dict_simps)

lemma counts_ok_add:
  assumes "counts_ok hash ids refs \<or> ids = [] \<and> refs = []" "i \<notin> set ids"
  shows "counts_ok hash (ids @ [i])
    (dict_set (hash i) ((case dict_get refs (hash i) of Some c \<Rightarrow> c | None \<Rightarrow> 0) + 1) refs)"
proof -
  have refs: "dict_get refs h =
      (if h \<in> hash ` set ids then Some (int (length (filter (\<lambda>i. hash i = h) ids))) else None)" for h
    using assms(1) by (auto simp: counts_ok_def)
  have zero: "h \<notin> hash ` set ids \<Longrightarrow> filter (\<lambda>i. hash i = h) ids = []" for h
    by (auto simp: filter_empty_conv)
  show ?thesis
    unfolding counts_ok_def
  proof (intro conjI allI)
    show "distinct (ids @ [i])" using assms by (auto simp: counts_ok_def)
    fix h
    show "dict_get (dict_set (hash i) ((case dict_get refs (hash i) of Some c \<Rightarrow> c | None \<Rightarrow> 0) + 1) refs) h =
      (if h \<in> hash ` set (ids @ [i])
       then Some (int (length (filter (\<lambda>i. hash i = h) (ids @ [i])))) else None)"
      by (cases "h = hash i") (simp_all add: dict_get_set refs zero)
  qed simp
qed

lemma add_cached_input_id_books:
  assumes "books_inv hs m" "hs rid i = h"
  obtains ids refs where
    "add_cached_input_id rid i h m = m\<lparr>request_cached_ids := ids, request_hash_refs := refs\<rparr>"
    "books_inv hs (add_cached_input_id rid i h m)"
    "\<And>rid'. set (ids_of (add_cached_input_id rid i h m) rid') =
       set (ids_of m rid') \<union> (if rid' = rid then {i} else {})"
proof -
  let ?m = "add_cached_input_id rid i h m"
  have shape: "\<exists>ids refs. ?m = m\<lparr>request_cached_ids := ids, request_hash_refs := refs\<rparr>"
    by (simp add: add_cached_input_id_def Let_def) (metis encoder_cache_manager.surjective
        encoder_cache_manager.update_convs(6,7))
  have sets: "set (ids_of ?m rid') = set (ids_of m rid') \<union> (if rid' = rid then {i} else {})" for rid'
    by (auto simp: add_cached_input_id_def Let_def ids_of_def dict_simps split: option.splits)
  have "books_inv hs ?m"
    using assms(1)
  proof (cases rule: books_inv_cases [where rid = rid])
    case none
    have "books_inv hs (m\<lparr>request_cached_ids := dict_set rid ([] @ [i]) (request_cached_ids m),
        request_hash_refs := dict_set rid (dict_set (hs rid i) 1 []) (request_hash_refs m)\<rparr>)"
      using counts_ok_add [of "hs rid" "[]" "[]" i] by (intro books_inv_set [OF assms(1)]) simp
    then show ?thesis
      using none assms(2) by (simp add: add_cached_input_id_def Let_def update_last)
  next
    case (some ids refs)
    show ?thesis
    proof (cases "i \<in> set ids")
      case True
      then have "books_inv hs (m\<lparr>request_cached_ids := dict_set rid ids (request_cached_ids m)\<rparr>)"
        using assms(1) some by (auto simp: books_inv_def dict_simps)
      then show ?thesis using True some by (simp add: add_cached_input_id_def Let_def)
    next
      case False
      then show ?thesis
        using books_inv_set [OF assms(1) counts_ok_add [of "hs rid" ids refs i]] some assms(2)
        by (simp add: add_cached_input_id_def Let_def update_last)
    qed
  qed
  with shape sets show ?thesis using that by blast
qed

lemma length_filter_removeAll:
  "distinct xs \<Longrightarrow> i \<in> set xs \<Longrightarrow>
     int (length (filter P (removeAll i xs))) = int (length (filter P xs)) - (if P i then 1 else 0)"
proof (induction xs)
  case (Cons x xs)
  then show ?case by (cases "x = i") auto
qed simp

lemma counts_ok_remove:
  assumes ok: "counts_ok hash ids refs" and i: "i \<in> set ids" and ne: "removeAll i ids \<noteq> []"
    and c: "dict_get refs (hash i) = Some c"
  shows "counts_ok hash (removeAll i ids)
    (if c - 1 = 0 then dict_del (hash i) refs else dict_set (hash i) (c - 1) refs)"
proof -
  have d: "distinct ids"
    and refs: "\<And>h. dict_get refs h =
      (if h \<in> hash ` set ids then Some (int (length (filter (\<lambda>i. hash i = h) ids))) else None)"
    using ok by (auto simp: counts_ok_def)
  have len: "int (length (filter (\<lambda>i. hash i = h) (removeAll i ids))) =
      int (length (filter (\<lambda>i. hash i = h) ids)) - (if hash i = h then 1 else 0)" for h
    using length_filter_removeAll [OF d i, of "\<lambda>j. hash j = h"] .
  have cv: "c = int (length (filter (\<lambda>j. hash j = hash i) ids))" using c refs i by simp
  have mem: "h \<in> hash ` set (removeAll i ids) \<longleftrightarrow> filter (\<lambda>i. hash i = h) (removeAll i ids) \<noteq> []" for h
    by (auto simp: filter_empty_conv)
  show ?thesis
    unfolding counts_ok_def
  proof (intro conjI allI)
    show "removeAll i ids \<noteq> []" by (fact ne)
    show "distinct (removeAll i ids)" using d by (rule distinct_removeAll)
    fix h
    show "dict_get (if c - 1 = 0 then dict_del (hash i) refs else dict_set (hash i) (c - 1) refs) h =
      (if h \<in> hash ` set (removeAll i ids)
       then Some (int (length (filter (\<lambda>i. hash i = h) (removeAll i ids)))) else None)"
    proof (cases "h = hash i")
      case True
      have "h \<in> hash ` set (removeAll i ids) \<longleftrightarrow> c - 1 \<noteq> 0"
        using mem [of h] len [of h] cv True by auto
      then show ?thesis using True len [of h] cv by (simp add: dict_get_set dict_get_del)
    next
      case False
      then have "h \<in> hash ` set (removeAll i ids) \<longleftrightarrow> h \<in> hash ` set ids" by auto
      then show ?thesis using False len [of h] refs [of h] by (simp add: dict_get_set dict_get_del)
    qed
  qed
qed

definition same_but_books :: "encoder_cache_manager \<Rightarrow> encoder_cache_manager \<Rightarrow> bool" where
  "same_but_books m m' \<longleftrightarrow>
     m' = m\<lparr>request_cached_ids := request_cached_ids m', request_hash_refs := request_hash_refs m'\<rparr>"

lemma same_but_booksD:
  "same_but_books m m' \<Longrightarrow>
     cache_size m' = cache_size m \<and> num_free_slots m' = num_free_slots m \<and>
     num_freeable_slots m' = num_freeable_slots m \<and> cached m' = cached m \<and>
     num_embeds_by_hash m' = num_embeds_by_hash m \<and> freeable m' = freeable m \<and> freed m' = freed m"
  unfolding same_but_books_def by (cases m; cases m') simp

text \<open>Dropping an input never raises, removes exactly that input, and afterwards the request's
  counters hold the hash exactly when another of its inputs has it.\<close>

lemma drop_cached_input_id_present:
  assumes bi: "books_inv hs m" and ids: "dict_get (request_cached_ids m) rid = Some ids"
    and refs: "dict_get (request_hash_refs m) rid = Some refs" and ok: "counts_ok (hs rid) ids refs"
    and i: "i \<in> set ids"
  obtains m1 where "drop_cached_input_id rid i (hs rid i) m = Inr m1" "books_inv hs m1"
    "same_but_books m m1"
    "\<forall>rid'. set (ids_of m1 rid') = set (ids_of m rid') - (if rid' = rid then {i} else {})"
proof -
  obtain c where c: "dict_get refs (hs rid i) = Some c" using ok i by (auto simp: counts_ok_def)
  show ?thesis
  proof (cases "removeAll i ids = []")
    case True
    then have "set (removeAll i ids) = {}" by simp
    then have sub: "set ids - {i} = {}" by simp
    let ?m = "m\<lparr>request_cached_ids := dict_del rid (request_cached_ids m),
      request_hash_refs := dict_del rid (request_hash_refs m)\<rparr>"
    have "drop_cached_input_id rid i (hs rid i) m = Inr ?m"
      using True c i ids refs by (simp add: drop_cached_input_id_def Let_def)
    moreover have "set (ids_of ?m rid') = set (ids_of m rid') - (if rid' = rid then {i} else {})" for rid'
      using sub ids by (simp add: ids_of_def dict_get_del)
    ultimately show ?thesis
      using books_inv_del [OF bi] by (intro that [of ?m]) (simp_all add: same_but_books_def)
  next
    case False
    let ?refs = "if c - 1 = 0 then dict_del (hs rid i) refs else dict_set (hs rid i) (c - 1) refs"
    let ?m = "m\<lparr>request_cached_ids := dict_set rid (removeAll i ids) (request_cached_ids m),
      request_hash_refs := dict_set rid ?refs (request_hash_refs m)\<rparr>"
    have "drop_cached_input_id rid i (hs rid i) m = Inr ?m"
      using False c i ids refs by (simp add: drop_cached_input_id_def Let_def)
    moreover have "set (ids_of ?m rid') = set (ids_of m rid') - (if rid' = rid then {i} else {})" for rid'
      using ids by (auto simp: ids_of_def dict_get_set)
    ultimately show ?thesis
      using books_inv_set [OF bi counts_ok_remove [OF ok i False c]]
      by (intro that [of ?m]) (simp_all add: same_but_books_def)
  qed
qed

lemma drop_cached_input_id_books:
  assumes bi: "books_inv hs m"
  obtains m1 where
    "drop_cached_input_id rid i (hs rid i) m = Inr m1" "books_inv hs m1" "same_but_books m m1"
    "\<forall>rid'. set (ids_of m1 rid') = set (ids_of m rid') - (if rid' = rid then {i} else {})"
    "(case dict_get (request_hash_refs m1) rid of None \<Rightarrow> False | Some d \<Rightarrow> dict_get d (hs rid i) \<noteq> None) \<longleftrightarrow>
       hs rid i \<in> hs rid ` set (ids_of m1 rid)"
proof -
  have last: "(case dict_get (request_hash_refs m1) rid of None \<Rightarrow> False | Some d \<Rightarrow> dict_get d h \<noteq> None) \<longleftrightarrow>
      h \<in> hs rid ` set (ids_of m1 rid)" if "books_inv hs m1" for m1 h
    using that by (cases rule: books_inv_cases [where rid = rid]) (auto simp: counts_ok_def)
  have self: "same_but_books m m" by (simp add: same_but_books_def)
  from bi show ?thesis
  proof (cases rule: books_inv_cases [where rid = rid])
    case none
    show ?thesis
      using none last [OF bi] bi self by (intro that [of m]) (simp_all add: drop_cached_input_id_def)
  next
    case (some ids refs)
    show ?thesis
    proof (cases "i \<in> set ids")
      case True
      obtain m1 where m1: "drop_cached_input_id rid i (hs rid i) m = Inr m1" "books_inv hs m1"
        "same_but_books m m1"
        "\<forall>rid'. set (ids_of m1 rid') = set (ids_of m rid') - (if rid' = rid then {i} else {})"
        using drop_cached_input_id_present [where hs = hs, OF bi some(1-3) True] by blast
      show ?thesis by (rule that [OF m1 last [OF m1(2)]])
    next
      case False
      then show ?thesis
        using some last [OF bi] bi self by (intro that [of m]) (simp_all add: drop_cached_input_id_def)
    qed
  qed
qed

section \<open>Eviction\<close>

text \<open>What \<open>k\<close> rounds of eviction do.\<close>

definition evicted :: "nat \<Rightarrow> encoder_cache_manager \<Rightarrow> encoder_cache_manager \<Rightarrow> bool" where
  "evicted k m m' \<longleftrightarrow>
     freeable m' = drop k (freeable m) \<and> freed m' = freed m @ map fst (take k (freeable m)) \<and>
     (\<forall>h. dict_get (cached m') h =
        (if h \<in> set (map fst (take k (freeable m))) then None else dict_get (cached m) h)) \<and>
     num_free_slots m' = num_free_slots m + total (take k (freeable m)) \<and>
     num_freeable_slots m' = num_freeable_slots m \<and> cache_size m' = cache_size m \<and>
     request_cached_ids m' = request_cached_ids m \<and> request_hash_refs m' = request_hash_refs m"

lemma evict_one:
  assumes si: "slots_inv m" and f: "freeable m = (h, k) # rest"
  shows "dict_get (cached m) h = Some []" "dict_get (num_embeds_by_hash m) h = Some k"
    and "slots_inv (m\<lparr>freeable := rest, cached := dict_del h (cached m),
      num_embeds_by_hash := dict_del h (num_embeds_by_hash m), freed := freed m @ [h],
      num_free_slots := num_free_slots m + k\<rparr>)"
proof -
  have "dict_get (freeable m) h = Some k" using f by simp
  then have "dict_get (cached m) h = Some [] \<and> dict_get (num_embeds_by_hash m) h = Some k"
    using si by (auto simp: slots_inv_def split: if_splits)
  then show c: "dict_get (cached m) h = Some []" and n: "dict_get (num_embeds_by_hash m) h = Some k"
    by auto
  have fr: "dict_get (freeable m) h' = (if dict_get (cached m) h' = Some []
      then dict_get (num_embeds_by_hash m) h' else None)" "h \<notin> fst ` set rest" for h'
    using si f by (auto simp: slots_inv_def)
  have rest: "dict_get rest h' = (if h' = h then None else if dict_get (cached m) h' = Some []
      then dict_get (num_embeds_by_hash m) h' else None)" for h'
    using fr(1) [of h'] fr(2) f map_of_eq_None_iff [of rest h] by (cases "h' = h") simp_all
  show "slots_inv (m\<lparr>freeable := rest, cached := dict_del h (cached m),
      num_embeds_by_hash := dict_del h (num_embeds_by_hash m), freed := freed m @ [h],
      num_free_slots := num_free_slots m + k\<rparr>)"
    using si c n unfolding slots_inv_def f
    by (simp add: rest dict_get_del distinct_delete total_del)
qed

lemma evict_until_spec:
  assumes "slots_inv m" "n \<le> num_freeable_slots m"
  shows "\<exists>k m'. evict_until n m = Inr m' \<and> k \<le> length (freeable m) \<and> evicted k m m' \<and> slots_inv m' \<and>
    n \<le> num_free_slots m' \<and>
    (\<forall>j < k. num_free_slots m + total (take j (freeable m)) < n)"
  using assms
proof (induction "freeable m" arbitrary: m)
  case Nil
  then have "n \<le> num_free_slots m" by (simp add: slots_inv_def)
  then show ?case
    using Nil by (intro exI [of _ 0] exI [of _ m]) (simp add: evict_until.simps [of n m] evicted_def)
next
  case (Cons a rest)
  obtain h k where a: "a = (h, k)" by (rule prod.exhaust)
  have f: "freeable m = (h, k) # rest" using Cons.hyps(2) a by simp
  note one = evict_one [OF Cons.prems(1) f]
  show ?case
  proof (cases "n > num_free_slots m")
    case False
    then show ?thesis
      using Cons.prems by (intro exI [of _ 0] exI [of _ m]) (simp add: evict_until.simps [of n m] evicted_def)
  next
    case True
    let ?m = "m\<lparr>freeable := rest, cached := dict_del h (cached m),
      num_embeds_by_hash := dict_del h (num_embeds_by_hash m), freed := freed m @ [h],
      num_free_slots := num_free_slots m + k\<rparr>"
    obtain j m' where j: "evict_until n ?m = Inr m'" "j \<le> length rest" "evicted j ?m m'" "slots_inv m'"
      "n \<le> num_free_slots m'" "\<forall>l < j. num_free_slots m + k + total (take l rest) < n"
      using Cons.hyps(1) [of ?m] one(3) Cons.prems(2) by auto
    have "evict_until n m = Inr m'"
      using True f one(1,2) j(1) by (simp add: evict_until.simps [of n m])
    moreover have "evicted (Suc j) m m'" using j(3) f by (auto simp: evicted_def dict_simps)
    moreover have "\<forall>l < Suc j. num_free_slots m + total (take l (freeable m)) < n"
      using j(6) True f by (auto simp: less_Suc_eq_0_disj add.assoc)
    ultimately show ?thesis using j f by (intro exI [of _ "Suc j"] exI [of _ m']) simp
  qed
qed

section \<open>Every operation keeps the invariant\<close>

text \<open>The inputs of a request are those \<open>hs\<close> describes, with non-negative embedding counts.\<close>

definition features_of :: "(string \<Rightarrow> int \<Rightarrow> string) \<Rightarrow> request \<Rightarrow> bool" where
  "features_of hs r \<longleftrightarrow>
     (\<forall>i f. py_index (mm_features r) i = Inr f \<longrightarrow>
        hs (request_id r) i = mm_identifier f \<and> 0 \<le> get_num_embeds (mm_position f))"

lemma input_hash_features:
  assumes "features_of hs r" "input_hash r i = Inr h"
  obtains n where "h = hs (request_id r) i" "get_num_encoder_embeds r i = Inr n" "0 \<le> n"
proof -
  obtain f where f: "py_index (mm_features r) i = Inr f" "h = mm_identifier f"
    using assms(2) by (auto simp: input_hash_def elim: rbindE)
  then have "i < int (length (mm_features r))"
    by (auto simp: py_index_def Let_def split: if_splits)
  then show ?thesis
    using that f assms(1) by (auto simp: features_of_def get_num_encoder_embeds_def)
qed

lemma encoder_init_inv: "0 \<le> n \<Longrightarrow> encoder_inv hs (encoder_cache_init n)"
  by (simp add: encoder_inv_def encoder_cache_init_def slots_inv_def books_inv_def links_inv_def
      ids_of_def)

lemma encoder_reset_inv:
  assumes "encoder_inv hs m"
  shows "encoder_inv hs (encoder_cache_reset m)"
proof -
  have "0 \<le> total (num_embeds_by_hash m)"
    using assms by (intro total_nonneg) (auto simp: encoder_inv_def slots_inv_def)
  then have "0 \<le> cache_size m" using assms by (simp add: encoder_inv_def slots_inv_def)
  then show ?thesis
    by (simp add: encoder_inv_def encoder_cache_reset_def slots_inv_def books_inv_def links_inv_def
        ids_of_def)
qed

lemma encoder_inv_freed: "encoder_inv hs (m\<lparr>freed := xs\<rparr>) = encoder_inv hs m"
  by (simp add: encoder_inv_def slots_inv_def books_inv_def links_inv_def ids_of_def)

text \<open>Referencing an entry that no request references takes it off the freeable list.\<close>

lemma slots_inv_reference:
  assumes "slots_inv m" "dict_get (cached m) h = Some rs" "rs' \<noteq> []"
    and "rs = [] \<Longrightarrow> dict_get (num_embeds_by_hash m) h = Some n"
  shows "slots_inv ((if rs = []
      then m\<lparr>freeable := dict_del h (freeable m), num_freeable_slots := num_freeable_slots m - n\<rparr>
      else m)\<lparr>cached := dict_set h rs' (cached m)\<rparr>)"
proof (cases "rs = []")
  case True
  have "dict_get (freeable m) h = Some n" "distinct (map fst (freeable m))"
    using assms True by (auto simp: slots_inv_def)
  then have "total (dict_del h (freeable m)) = total (freeable m) - n" by (intro total_del)
  then show ?thesis
    using assms True by (auto simp: slots_inv_def dict_get_set dict_get_del distinct_delete distinct_update)
next
  case False
  obtain k where "dict_get (num_embeds_by_hash m) h = Some k"
    using slots_inv_embeds [OF assms(1,2)] .
  then show ?thesis
    using False assms by (auto simp: slots_inv_def dict_get_set distinct_update)
qed

lemma slots_inv_same_books:
  "same_but_books m m' \<Longrightarrow> slots_inv m' = slots_inv m"
  using same_but_booksD [of m m'] by (simp add: slots_inv_def)

lemma links_inv_reference:
  assumes "links_inv hs m" "cached m' = dict_set (hs rid i) rs' (cached m)"
    and "set rs' = insert rid (case dict_get (cached m) (hs rid i) of Some rs \<Rightarrow> set rs | None \<Rightarrow> {})"
    and "\<And>rid'. set (ids_of m' rid') = set (ids_of m rid') \<union> (if rid' = rid then {i} else {})"
  shows "links_inv hs m'"
proof -
  have old: "(\<exists>rs. dict_get (cached m) h = Some rs \<and> rid' \<in> set rs) \<longleftrightarrow>
      h \<in> hs rid' ` set (ids_of m rid')" for h rid'
    using assms(1) by (simp add: links_inv_def)
  show ?thesis
    unfolding links_inv_def
  proof (intro allI)
    fix h rid'
    show "(\<exists>rs. dict_get (cached m') h = Some rs \<and> rid' \<in> set rs) \<longleftrightarrow> h \<in> hs rid' ` set (ids_of m' rid')"
      using old [of h rid'] assms(2-4)
      by (cases "h = hs rid i"; cases "rid' = rid") (auto simp: dict_get_set split: option.splits)
  qed
qed

lemma add_cached_input_id_same: "same_but_books m (add_cached_input_id rid i h m)"
  by (simp add: same_but_books_def add_cached_input_id_def Let_def)

lemma encoder_inv_reference:
  assumes iv: "encoder_inv hs m" and si: "slots_inv m1"
    and m1: "request_cached_ids m1 = request_cached_ids m" "request_hash_refs m1 = request_hash_refs m"
    and c: "cached m1 = dict_set (hs rid i) rs' (cached m)"
    and rs: "set rs' = insert rid (case dict_get (cached m) (hs rid i) of Some rs \<Rightarrow> set rs | None \<Rightarrow> {})"
  shows "encoder_inv hs (add_cached_input_id rid i (hs rid i) m1) \<and>
    (\<forall>rid'. set (ids_of (add_cached_input_id rid i (hs rid i) m1) rid') =
       set (ids_of m rid') \<union> (if rid' = rid then {i} else {}))"
proof -
  let ?m2 = "add_cached_input_id rid i (hs rid i) m1"
  have ids: "ids_of m1 = ids_of m" using m1 by (simp add: ids_of_def fun_eq_iff)
  have bi: "books_inv hs m1" using iv m1 by (simp add: encoder_inv_def books_inv_def)
  have b2: "books_inv hs ?m2"
    and i2: "\<And>rid'. set (ids_of ?m2 rid') = set (ids_of m rid') \<union> (if rid' = rid then {i} else {})"
    using add_cached_input_id_books [OF bi refl] ids by metis+
  have same: "same_but_books m1 ?m2" by (rule add_cached_input_id_same)
  have "links_inv hs ?m2"
    using iv c same_but_booksD [OF same] rs i2
    by (intro links_inv_reference [of hs m ?m2 rid i rs']) (simp_all add: encoder_inv_def)
  then show ?thesis
    using b2 i2 si slots_inv_same_books [OF same] by (simp add: encoder_inv_def)
qed

text \<open>A lookup never raises on a valid input; it hits exactly when the hash is cached.\<close>

lemma check_and_update_cache_spec:
  assumes iv: "encoder_inv hs m" and fo: "features_of hs r" and h: "input_hash r i = Inr h"
  shows "\<exists>m'. check_and_update_cache r i m = Inr (dict_get (cached m) h \<noteq> None, m') \<and> encoder_inv hs m' \<and>
    dom (dict_get (cached m')) = dom (dict_get (cached m)) \<and> freed m' = freed m \<and>
    cache_size m' = cache_size m \<and>
    (\<forall>rid'. set (ids_of m' rid') = set (ids_of m rid') \<union>
       (if dict_get (cached m) h \<noteq> None \<and> rid' = request_id r then {i} else {}))"
proof (cases "dict_get (cached m) h")
  case None
  then show ?thesis using iv h by (simp add: check_and_update_cache_def)
next
  case (Some rs)
  let ?rid = "request_id r" and ?rs = "List.insert (request_id r) rs"
  have hh: "h = hs ?rid i" using input_hash_features [OF fo h] by metis
  have si: "slots_inv m" using iv by (simp add: encoder_inv_def)
  obtain n where n: "dict_get (num_embeds_by_hash m) h = Some n"
    using slots_inv_embeds [OF si Some] .
  define m1 where "m1 = (if rs = []
      then m\<lparr>freeable := dict_del h (freeable m), num_freeable_slots := num_freeable_slots m - n\<rparr>
      else m)\<lparr>cached := dict_set h ?rs (cached m)\<rparr>"
  define m2 where "m2 = add_cached_input_id ?rid i h m1"
  have "rs = [] \<Longrightarrow> dict_get (freeable m) h = Some n" using si Some n by (simp add: slots_inv_def)
  then have eq: "check_and_update_cache r i m = Inr (True, m2)"
    using Some h by (simp add: check_and_update_cache_def m1_def m2_def)
  have set_rs: "set ?rs = insert ?rid (set rs)" by simp
  then have "?rs \<noteq> []" by (metis insert_not_empty list.set(1))
  then have "slots_inv m1" unfolding m1_def using slots_inv_reference [OF si Some] n by blast
  then have iv2: "encoder_inv hs m2 \<and>
      (\<forall>rid'. set (ids_of m2 rid') = set (ids_of m rid') \<union> (if rid' = ?rid then {i} else {}))"
    unfolding m2_def hh using Some set_rs
    by (intro encoder_inv_reference [OF iv, of m1 ?rid i ?rs]) (simp_all add: m1_def hh)
  have m2: "cached m2 = dict_set h ?rs (cached m)" "freed m2 = freed m" "cache_size m2 = cache_size m"
    using same_but_booksD [OF add_cached_input_id_same [of m1 ?rid i h]] by (auto simp: m1_def m2_def)
  have "dom (dict_get (cached m2)) = dom (dict_get (cached m))"
    using m2(1) Some by (auto simp: dict_get_set split: if_splits)
  then show ?thesis using Some eq iv2 m2(2,3) by (intro exI [of _ m2]) simp
qed

lemma evictable_unreferenced:
  assumes "slots_inv m" "h \<in> set (map fst (take k (freeable m)))"
  shows "dict_get (cached m) h = Some []"
proof -
  have "h \<in> fst ` set (freeable m)" using assms(2) set_take_subset [of k "freeable m"] by auto
  then have "dict_get (freeable m) h \<noteq> None" by (simp add: map_of_eq_None_iff)
  moreover have "dict_get (freeable m) h = (if dict_get (cached m) h = Some []
      then dict_get (num_embeds_by_hash m) h else None)"
    using assms(1) by (simp add: slots_inv_def)
  ultimately show ?thesis by (metis (full_types))
qed

lemma encoder_inv_evicted:
  assumes iv: "encoder_inv hs m" and ev: "evicted k m m'" and si: "slots_inv m'"
  shows "encoder_inv hs m'"
proof -
  have books: "books_inv hs m'" using iv ev by (simp add: encoder_inv_def books_inv_def evicted_def)
  have ids: "ids_of m' = ids_of m" using ev by (simp add: evicted_def ids_of_def fun_eq_iff)
  have gone: "dict_get (cached m) h = Some []" if "h \<in> set (map fst (take k (freeable m)))" for h
    using evictable_unreferenced [OF _ that] iv by (simp add: encoder_inv_def)
  have at: "dict_get (cached m') h =
      (if h \<in> set (map fst (take k (freeable m))) then None else dict_get (cached m) h)" for h
    using ev by (simp add: evicted_def)
  have "links_inv hs m'"
    unfolding links_inv_def ids
  proof (intro allI)
    fix h rid
    have "(\<exists>rs. dict_get (cached m') h = Some rs \<and> rid \<in> set rs) \<longleftrightarrow>
        (\<exists>rs. dict_get (cached m) h = Some rs \<and> rid \<in> set rs)"
      using at [of h] gone [of h] by auto
    also have "\<dots> \<longleftrightarrow> h \<in> hs rid ` set (ids_of m rid)"
      using iv by (simp add: encoder_inv_def links_inv_def)
    finally show "(\<exists>rs. dict_get (cached m') h = Some rs \<and> rid \<in> set rs) \<longleftrightarrow>
        h \<in> hs rid ` set (ids_of m rid)" .
  qed
  with books si show ?thesis by (simp add: encoder_inv_def)
qed

lemma evicted_0 [simp]: "evicted 0 m m"
  by (simp add: evicted_def)

lemma free_le_freeable: "slots_inv m \<Longrightarrow> num_free_slots m \<le> num_freeable_slots m"
proof -
  assume si: "slots_inv m"
  have "0 \<le> v" if "dict_get (freeable m) k = Some v" for k v
    using si that unfolding slots_inv_def by (metis option.distinct(1))
  then have "0 \<le> total (freeable m)" using si by (intro total_nonneg) (auto simp: slots_inv_def)
  then show ?thesis using si by (simp add: slots_inv_def)
qed

text \<open>\<open>can_allocate\<close> never raises in a state of the invariant; it answers yes exactly when the input
  fits the compute budget and the reclaimable slots, and then evicts the shortest run of the
  oldest unreferenced entries that makes room.\<close>

lemma can_allocate_spec:
  assumes iv: "encoder_inv hs m" and k: "get_num_encoder_embeds r i = Inr k"
  shows "\<exists>j m'. can_allocate r i budget sched m =
      Inr (k \<le> budget \<and> k + sched \<le> num_freeable_slots m, m') \<and> encoder_inv hs m' \<and>
    j \<le> length (freeable m) \<and> evicted j m m' \<and>
    (k \<le> budget \<and> k + sched \<le> num_freeable_slots m \<longrightarrow> k + sched \<le> num_free_slots m') \<and>
    (\<forall>l < j. num_free_slots m + total (take l (freeable m)) < k + sched) \<and>
    (\<not> (k \<le> budget \<and> k + sched \<le> num_freeable_slots m) \<longrightarrow> m' = m)"
proof -
  have si: "slots_inv m" using iv by (simp add: encoder_inv_def)
  consider (budget) "k > budget" | (enough) "k \<le> budget" "k + sched \<le> num_free_slots m"
    | (lack) "k \<le> budget" "k + sched > num_freeable_slots m"
    | (evict) "k \<le> budget" "k + sched > num_free_slots m" "k + sched \<le> num_freeable_slots m"
    by linarith
  then show ?thesis
  proof cases
    case budget
    then show ?thesis using iv k by (intro exI [of _ 0] exI [of _ m]) (simp add: can_allocate_def)
  next
    case enough
    then show ?thesis
      using iv k free_le_freeable [OF si]
      by (intro exI [of _ 0] exI [of _ m]) (simp add: can_allocate_def)
  next
    case lack
    then show ?thesis
      using iv k free_le_freeable [OF si]
      by (intro exI [of _ 0] exI [of _ m]) (simp add: can_allocate_def Let_def)
  next
    case evict
    obtain j m' where j: "evict_until (k + sched) m = Inr m'" "j \<le> length (freeable m)" "evicted j m m'"
      "slots_inv m'" "k + sched \<le> num_free_slots m'"
      "\<forall>l < j. num_free_slots m + total (take l (freeable m)) < k + sched"
      using evict_until_spec [OF si evict(3)] by blast
    have "can_allocate r i budget sched m = Inr (True, m')"
      using evict k j(1) by (simp add: can_allocate_def Let_def)
    then show ?thesis
      using evict j encoder_inv_evicted [OF iv j(3,4)] by (intro exI [of _ j] exI [of _ m']) simp
  qed
qed

text \<open>Allocation of an input that is not cached raises exactly when the free slots do not
  suffice.\<close>

lemma slots_inv_allocate:
  assumes "slots_inv m" "dict_get (cached m) h = None" "0 \<le> n" "n \<le> num_free_slots m" "rs \<noteq> []"
  shows "slots_inv (m\<lparr>num_embeds_by_hash := dict_set h n (num_embeds_by_hash m),
    cached := dict_set h rs (cached m),
    num_free_slots := num_free_slots m - n, num_freeable_slots := num_freeable_slots m - n\<rparr>)"
proof -
  have "dict_get (num_embeds_by_hash m) h = None" "dict_get (freeable m) h = None"
    using assms by (simp_all add: slots_inv_def)
  then show ?thesis
    using assms by (auto simp: slots_inv_def dict_get_set distinct_update total_set_new)
qed

lemma add_cached_input_id_slots:
  "(add_cached_input_id rid i h m)\<lparr>num_free_slots := a, num_freeable_slots := b\<rparr> =
   add_cached_input_id rid i h (m\<lparr>num_free_slots := a, num_freeable_slots := b\<rparr>)"
  by (cases "dict_get (request_cached_ids m) rid") (simp_all add: add_cached_input_id_def Let_def)

lemma allocate_spec:
  assumes iv: "encoder_inv hs m" and fo: "features_of hs r" and h: "input_hash r i = Inr h"
    and new: "dict_get (cached m) h = None" and n: "get_num_encoder_embeds r i = Inr n"
  shows "if n \<le> num_free_slots m
    then \<exists>m'. allocate r i m = Inr m' \<and> encoder_inv hs m' \<and>
      num_free_slots m' = num_free_slots m - n \<and> freed m' = freed m \<and>
      dom (dict_get (cached m')) = insert h (dom (dict_get (cached m))) \<and>
      cache_size m' = cache_size m \<and>
      (\<forall>rid'. set (ids_of m' rid') = set (ids_of m rid') \<union> (if rid' = request_id r then {i} else {}))
    else allocate r i m = Inl AssertionError"
proof -
  let ?rid = "request_id r"
  have hh: "h = hs ?rid i" and n0: "0 \<le> n" using input_hash_features [OF fo h] n by (metis sum.inject(2))+
  have si: "slots_inv m" using iv by (simp add: encoder_inv_def)
  have ne: "dict_get (num_embeds_by_hash m) h = None" using si new by (simp add: slots_inv_def)
  define m1 where "m1 = m\<lparr>num_embeds_by_hash := dict_set h n (num_embeds_by_hash m),
    cached := dict_set h [?rid] (cached m),
    num_free_slots := num_free_slots m - n, num_freeable_slots := num_freeable_slots m - n\<rparr>"
  define m2 where "m2 = add_cached_input_id ?rid i h m1"
  show ?thesis
  proof (cases "n \<le> num_free_slots m")
    case False
    then show ?thesis using h n ne by (simp add: allocate_def Let_def)
  next
    case True
    have same: "same_but_books m1 m2" by (simp add: m2_def add_cached_input_id_same)
    have "n \<le> num_freeable_slots m" using True free_le_freeable [OF si] by simp
    then have eq: "allocate r i m = Inr m2"
      using True h n ne new
        same_but_booksD [OF add_cached_input_id_same [of "m\<lparr>num_embeds_by_hash :=
          dict_set h n (num_embeds_by_hash m), cached := dict_set h [?rid] (cached m)\<rparr>" ?rid i h]]
      by (simp add: allocate_def Let_def m2_def m1_def add_cached_input_id_slots List.insert_def)
    have "slots_inv m1" unfolding m1_def using si new n0 True by (intro slots_inv_allocate) auto
    then have iv2: "encoder_inv hs m2 \<and>
        (\<forall>rid'. set (ids_of m2 rid') = set (ids_of m rid') \<union> (if rid' = ?rid then {i} else {}))"
      unfolding m2_def hh using new
      by (intro encoder_inv_reference [OF iv, of m1 ?rid i "[?rid]"]) (simp_all add: m1_def hh)
    have m2: "num_free_slots m2 = num_free_slots m - n" "freed m2 = freed m"
      "cached m2 = dict_set h [?rid] (cached m)" "cache_size m2 = cache_size m"
      using same_but_booksD [OF same] by (simp_all add: m1_def)
    have "dom (dict_get (cached m2)) = insert h (dom (dict_get (cached m)))"
      using m2(3) by (auto simp: dict_get_set split: if_splits)
    then show ?thesis using True eq iv2 m2 by (simp add: exI [of _ m2])
  qed
qed

text \<open>Freeing an input: the entry becomes freeable when its last reference goes.\<close>

lemma slots_inv_release:
  assumes si: "slots_inv m" and c: "dict_get (cached m) h = Some rs" "rs \<noteq> []"
    and n: "dict_get (num_embeds_by_hash m) h = Some n"
  shows "slots_inv (m\<lparr>cached := dict_set h [] (cached m), freeable := dict_set h n (freeable m),
    num_freeable_slots := num_freeable_slots m + n\<rparr>)"
proof -
  have "dict_get (freeable m) h = None" using si c by (simp add: slots_inv_def)
  then have "total (dict_set h n (freeable m)) = total (freeable m) + n" by (rule total_set_new)
  then show ?thesis
    using si c n by (auto simp: slots_inv_def dict_get_set distinct_update)
qed

lemma slots_inv_unref:
  assumes "slots_inv m" "dict_get (cached m) h = Some rs" "rs \<noteq> []" "rs' \<noteq> []"
  shows "slots_inv (m\<lparr>cached := dict_set h rs' (cached m)\<rparr>)"
  using slots_inv_reference [of m h rs rs'] assms by simp

lemma links_inv_drop:
  assumes li: "links_inv hs m" and c: "cached m1 = cached m"
    and ids: "\<And>rid'. set (ids_of m1 rid') = set (ids_of m rid') - (if rid' = rid then {i} else {})"
    and other: "hs rid i \<in> hs rid ` set (ids_of m1 rid) \<or>
      dict_get (cached m) (hs rid i) = None \<or> dict_get (cached m) (hs rid i) = Some []"
  shows "links_inv hs m1"
  unfolding links_inv_def c
proof (intro allI)
  fix h rid'
  have old: "(\<exists>rs. dict_get (cached m) h = Some rs \<and> rid' \<in> set rs) \<longleftrightarrow>
      h \<in> hs rid' ` set (ids_of m rid')"
    using li unfolding links_inv_def by blast
  also have "\<dots> \<longleftrightarrow> h \<in> hs rid' ` set (ids_of m1 rid')"
  proof (cases "rid' = rid \<and> h = hs rid i")
    case True
    show ?thesis
    proof (cases "hs rid i \<in> hs rid ` set (ids_of m1 rid)")
      case yes: True
      have "set (ids_of m1 rid) \<subseteq> set (ids_of m rid)" using ids [of rid] by simp
      then have "hs rid i \<in> hs rid ` set (ids_of m rid)" using yes by (meson image_mono subsetD)
      then show ?thesis using yes True by simp
    next
      case False
      then have "\<not> (\<exists>rs. dict_get (cached m) h = Some rs \<and> rid' \<in> set rs)" using other True by auto
      then have "h \<notin> hs rid' ` set (ids_of m rid')" using old by simp
      then show ?thesis using False True by simp
    qed
  next
    case False
    then show ?thesis using ids [of rid'] by (cases "rid' = rid") auto
  qed
  finally show "(\<exists>rs. dict_get (cached m) h = Some rs \<and> rid' \<in> set rs) \<longleftrightarrow>
    h \<in> hs rid' ` set (ids_of m1 rid')" .
qed

lemma links_inv_release:
  assumes li: "links_inv hs m" and c: "cached m2 = dict_set (hs rid i) (removeAll rid rs) (cached m)"
    and rs: "dict_get (cached m) (hs rid i) = Some rs"
    and ids: "\<And>rid'. set (ids_of m2 rid') = set (ids_of m rid') - (if rid' = rid then {i} else {})"
    and none: "hs rid i \<notin> hs rid ` set (ids_of m2 rid)"
  shows "links_inv hs m2"
  unfolding links_inv_def
proof (intro allI)
  fix h rid'
  have old: "(\<exists>rs. dict_get (cached m) h = Some rs \<and> rid' \<in> set rs) \<longleftrightarrow>
      h \<in> hs rid' ` set (ids_of m rid')"
    using li by (simp add: links_inv_def)
  show "(\<exists>rs. dict_get (cached m2) h = Some rs \<and> rid' \<in> set rs) \<longleftrightarrow> h \<in> hs rid' ` set (ids_of m2 rid')"
  proof (cases "h = hs rid i")
    case True
    then show ?thesis
      using old c rs ids [of rid'] none by (cases "rid' = rid") (auto simp: dict_get_set)
  next
    case False
    then show ?thesis using old c ids [of rid'] by (auto simp: dict_get_set)
  qed
qed

text \<open>The entry of \<open>h\<close> keeps the references \<open>rs\<close>, or becomes freeable when they are none.\<close>

definition release_entry ::
  "string \<Rightarrow> string list \<Rightarrow> int \<Rightarrow> encoder_cache_manager \<Rightarrow> encoder_cache_manager" where
  "release_entry h rs n m =
     (if rs = []
      then m\<lparr>cached := dict_set h [] (cached m), freeable := dict_set h n (freeable m),
             num_freeable_slots := num_freeable_slots m + n\<rparr>
      else m\<lparr>cached := dict_set h rs (cached m)\<rparr>)"

lemma encoder_inv_release:
  assumes li: "links_inv hs m" and s1: "slots_inv m1" and b1: "books_inv hs m1"
    and c1: "cached m1 = cached m"
    and ids: "\<And>rid'. set (ids_of m1 rid') = set (ids_of m rid') - (if rid' = rid then {i} else {})"
    and rs: "dict_get (cached m) (hs rid i) = Some rs" "rs \<noteq> []"
    and none: "hs rid i \<notin> hs rid ` set (ids_of m1 rid)"
    and n: "dict_get (num_embeds_by_hash m1) (hs rid i) = Some n"
  shows "encoder_inv hs (release_entry (hs rid i) (removeAll rid rs) n m1)"
proof -
  let ?m2 = "release_entry (hs rid i) (removeAll rid rs) n m1"
  have "slots_inv ?m2"
    using slots_inv_release [OF s1 _ rs(2) n] slots_inv_unref [OF s1 _ rs(2)] rs(1) c1
    by (simp add: release_entry_def)
  moreover have "request_cached_ids ?m2 = request_cached_ids m1" "request_hash_refs ?m2 = request_hash_refs m1"
    and c2: "cached ?m2 = dict_set (hs rid i) (removeAll rid rs) (cached m)"
    by (simp_all add: release_entry_def c1)
  moreover from this have "books_inv hs ?m2" and i2: "ids_of ?m2 = ids_of m1"
    using b1 by (simp_all add: books_inv_def ids_of_def fun_eq_iff)
  moreover have "links_inv hs ?m2"
    using links_inv_release [OF li c2 rs(1)] ids none i2 by simp
  ultimately show ?thesis by (simp add: encoder_inv_def)
qed

lemma free_encoder_input_spec:
  assumes iv: "encoder_inv hs m" and fo: "features_of hs r" and h: "input_hash r i = Inr h"
  shows "\<exists>m'. free_encoder_input r i m = Inr m' \<and> encoder_inv hs m' \<and>
    dom (dict_get (cached m')) = dom (dict_get (cached m)) \<and> freed m' = freed m \<and>
    cache_size m' = cache_size m \<and>
    (\<forall>rid'. set (ids_of m' rid') = set (ids_of m rid') - (if rid' = request_id r then {i} else {}))"
proof -
  let ?rid = "request_id r"
  have hh: "h = hs ?rid i" using input_hash_features [OF fo h] by metis
  have iv': "slots_inv m" "books_inv hs m" "links_inv hs m" using iv by (simp_all add: encoder_inv_def)
  obtain m1 where raw: "drop_cached_input_id ?rid i (hs ?rid i) m = Inr m1" "books_inv hs m1"
    "same_but_books m m1"
    "\<forall>rid'. set (ids_of m1 rid') = set (ids_of m rid') - (if rid' = ?rid then {i} else {})"
    "(case dict_get (request_hash_refs m1) ?rid of None \<Rightarrow> False | Some d \<Rightarrow> dict_get d (hs ?rid i) \<noteq> None) \<longleftrightarrow>
       hs ?rid i \<in> hs ?rid ` set (ids_of m1 ?rid)"
    using drop_cached_input_id_books [OF iv'(2), where rid = ?rid and i = i] .
  note m1 = raw [folded hh, rule_format]
  have f1: "cached m1 = cached m" "freed m1 = freed m" "num_embeds_by_hash m1 = num_embeds_by_hash m"
    "cache_size m1 = cache_size m"
    using same_but_booksD [OF m1(3)] by auto
  have s1: "slots_inv m1" using slots_inv_same_books [OF m1(3)] iv' by simp
  have "dict_get (cached m) h = None \<or> dict_get (cached m) h = Some [] \<or>
      (\<exists>rs. dict_get (cached m) h = Some rs \<and> rs \<noteq> [])"
    by (cases "dict_get (cached m) h") auto
  then consider (idle) "dict_get (cached m) h = None \<or> dict_get (cached m) h = Some []"
    | (held) rs where "dict_get (cached m) h = Some rs" "rs \<noteq> []" "h \<in> hs ?rid ` set (ids_of m1 ?rid)"
    | (released) rs where "dict_get (cached m) h = Some rs" "rs \<noteq> []" "h \<notin> hs ?rid ` set (ids_of m1 ?rid)"
    by blast
  then show ?thesis
  proof cases
    case idle
    have "links_inv hs m1"
      by (rule links_inv_drop [OF iv'(3) f1(1) m1(4)]) (use idle in \<open>simp add: hh\<close>)
    moreover have "free_encoder_input r i m = Inr m1"
      using h m1(1) f1(1) idle by (auto simp: free_encoder_input_def Let_def)
    ultimately show ?thesis
      using s1 m1(2) raw(4) f1 by (intro exI [of _ m1]) (simp add: encoder_inv_def)
  next
    case held
    have "links_inv hs m1"
      by (rule links_inv_drop [OF iv'(3) f1(1) m1(4)]) (use held(3) in \<open>simp add: hh\<close>)
    moreover have "free_encoder_input r i m = Inr m1"
      using h m1(1) f1(1) held m1(5) by (simp add: free_encoder_input_def Let_def)
    ultimately show ?thesis
      using s1 m1(2) raw(4) f1 by (intro exI [of _ m1]) (simp add: encoder_inv_def)
  next
    case (released rs)
    obtain n where n: "dict_get (num_embeds_by_hash m) h = Some n"
      using slots_inv_embeds [OF iv'(1) released(1)] .
    let ?m2 = "release_entry h (removeAll ?rid rs) n m1"
    have "free_encoder_input r i m = Inr ?m2"
      using h m1(1,5) f1 released n by (simp add: free_encoder_input_def Let_def release_entry_def)
    moreover have "encoder_inv hs ?m2"
      using encoder_inv_release [OF iv'(3) s1 m1(2) f1(1) m1(4), of rs n] released n f1(3) hh by simp
    moreover have "ids_of ?m2 = ids_of m1" "cached ?m2 = dict_set h (removeAll ?rid rs) (cached m)"
      "freed ?m2 = freed m" "cache_size ?m2 = cache_size m"
      using f1 by (simp_all add: release_entry_def ids_of_def fun_eq_iff)
    moreover from this have "dom (dict_get (cached ?m2)) = dom (dict_get (cached m))"
      using released(1) by (auto simp: dict_get_set split: if_splits)
    ultimately show ?thesis using raw(4) by (intro exI [of _ ?m2]) simp
  qed
qed

lemma free_inputs_spec:
  assumes "encoder_inv hs m" "features_of hs r" "\<forall>i \<in> set is. \<exists>h. input_hash r i = Inr h"
  shows "\<exists>m'. rfold (free_encoder_input r) is m = Inr m' \<and> encoder_inv hs m' \<and>
    dom (dict_get (cached m')) = dom (dict_get (cached m)) \<and> freed m' = freed m \<and>
    cache_size m' = cache_size m \<and>
    (\<forall>rid'. set (ids_of m' rid') = set (ids_of m rid') - (if rid' = request_id r then set is else {}))"
  using assms
proof (induction "is" arbitrary: m)
  case (Cons i js)
  then obtain h where h: "input_hash r i = Inr h" by auto
  obtain m1 where m1: "free_encoder_input r i m = Inr m1" "encoder_inv hs m1"
    "dom (dict_get (cached m1)) = dom (dict_get (cached m))" "freed m1 = freed m"
    "cache_size m1 = cache_size m"
    "\<forall>rid'. set (ids_of m1 rid') = set (ids_of m rid') - (if rid' = request_id r then {i} else {})"
    using free_encoder_input_spec [OF Cons.prems(1,2) h] by blast
  obtain m2 where m2: "rfold (free_encoder_input r) js m1 = Inr m2" "encoder_inv hs m2"
    "dom (dict_get (cached m2)) = dom (dict_get (cached m1))" "freed m2 = freed m1"
    "cache_size m2 = cache_size m1"
    "\<forall>rid'. set (ids_of m2 rid') = set (ids_of m1 rid') - (if rid' = request_id r then set js else {})"
    using Cons.IH [OF m1(2) Cons.prems(2)] Cons.prems(3) by auto
  have "set (ids_of m2 rid') = set (ids_of m rid') - (if rid' = request_id r then set (i # js) else {})" for rid'
    using m1(6) [rule_format, of rid'] m2(6) [rule_format, of rid'] by auto
  then show ?case using m1 m2 by (intro exI [of _ m2]) simp
qed simp

section \<open>Reachable caches\<close>

text \<open>\<open>tab\<close> is the table of requests of the engine, by request id.\<close>

definition hash_table :: "(string \<Rightarrow> request) \<Rightarrow> string \<Rightarrow> int \<Rightarrow> string" where
  "hash_table tab rid i = (case input_hash (tab rid) i of Inr h \<Rightarrow> h | Inl _ \<Rightarrow> [])"

definition table_ok :: "(string \<Rightarrow> request) \<Rightarrow> bool" where
  "table_ok tab \<longleftrightarrow>
     (\<forall>rid. request_id (tab rid) = rid \<and>
        (\<forall>f \<in> set (mm_features (tab rid)). 0 \<le> get_num_embeds (mm_position f)))"

lemma table_features: "table_ok tab \<Longrightarrow> features_of (hash_table tab) (tab rid)"
proof -
  assume ok: "table_ok tab"
  have "f \<in> set (mm_features (tab rid))" if "py_index (mm_features (tab rid)) i = Inr f" for i f
    using that by (auto simp: py_index_def Let_def split: if_splits)
  then show ?thesis
    using ok by (auto simp: features_of_def table_ok_def hash_table_def input_hash_def)
qed

text \<open>A state is the manager together with the set of outputs the worker holds: an allocation makes
  the worker compute an output, the hashes that \<open>get_freed_mm_hashes\<close> returns make it drop outputs,
  and a reset drops all of them. An input is allocated only after a lookup missed.\<close>

inductive encoder_step ::
  "(string \<Rightarrow> request) \<Rightarrow> encoder_cache_manager \<times> string set \<Rightarrow> encoder_cache_manager \<times> string set \<Rightarrow> bool"
  for tab where
  check: "check_and_update_cache (tab rid) i m = Inr (b, m') \<Longrightarrow> encoder_step tab (m, w) (m', w)"
| can: "can_allocate (tab rid) i budget sched m = Inr (b, m') \<Longrightarrow> encoder_step tab (m, w) (m', w)"
| alloc: "input_hash (tab rid) i = Inr h \<Longrightarrow> dict_get (cached m) h = None \<Longrightarrow>
    allocate (tab rid) i m = Inr m' \<Longrightarrow> encoder_step tab (m, w) (m', insert h w)"
| free_input: "free_encoder_input (tab rid) i m = Inr m' \<Longrightarrow> encoder_step tab (m, w) (m', w)"
| free: "set (order (get_cached_input_ids (tab rid) m)) = set (get_cached_input_ids (tab rid) m) \<Longrightarrow>
    encoder_free order (tab rid) m = Inr m' \<Longrightarrow> encoder_step tab (m, w) (m', w)"
| report: "get_freed_mm_hashes m = (hs, m') \<Longrightarrow> encoder_step tab (m, w) (m', w - set hs)"
| reset: "encoder_step tab (m, w) (encoder_cache_reset m, {})"

definition encoder_reachable ::
  "(string \<Rightarrow> request) \<Rightarrow> int \<Rightarrow> encoder_cache_manager \<Rightarrow> string set \<Rightarrow> bool" where
  "encoder_reachable tab capacity m w \<longleftrightarrow> (encoder_step tab)\<^sup>*\<^sup>* (encoder_cache_init capacity, {}) (m, w)"

definition cache_state_ok :: "(string \<Rightarrow> request) \<Rightarrow> int \<Rightarrow> encoder_cache_manager \<Rightarrow> string set \<Rightarrow> bool" where
  "cache_state_ok tab capacity m w \<longleftrightarrow>
     encoder_inv (hash_table tab) m \<and> cache_size m = capacity \<and>
     w = dom (dict_get (cached m)) \<union> set (freed m) \<and>
     (\<forall>rid. \<forall>i \<in> set (ids_of m rid). \<exists>h. input_hash (tab rid) i = Inr h)"

lemma table_inputs:
  assumes "table_ok tab"
  shows "input_hash (tab rid) i = Inr h \<Longrightarrow> \<exists>n. get_num_encoder_embeds (tab rid) i = Inr n \<and> 0 \<le> n"
    and "request_id (tab rid) = rid"
  using input_hash_features [OF table_features [OF assms]] assms by (blast, simp add: table_ok_def)

lemma cache_state_ok_init: "0 \<le> capacity \<Longrightarrow> cache_state_ok tab capacity (encoder_cache_init capacity) {}"
  using encoder_init_inv [of capacity "hash_table tab"]
  by (simp add: cache_state_ok_def) (simp add: encoder_cache_init_def ids_of_def)

lemma ids_of_freed [simp]: "ids_of (m\<lparr>freed := xs\<rparr>) = ids_of m"
  by (simp add: ids_of_def fun_eq_iff)

lemma evicted_worker:
  assumes "slots_inv m" "evicted k m m'"
  shows "dom (dict_get (cached m')) \<union> set (freed m') = dom (dict_get (cached m)) \<union> set (freed m)"
proof -
  define out where "out = set (map fst (take k (freeable m)))"
  have at: "dict_get (cached m') h = (if h \<in> out then None else dict_get (cached m) h)" for h
    using assms(2) by (simp add: evicted_def out_def)
  then have "dom (dict_get (cached m')) = dom (dict_get (cached m)) - out" by (auto split: if_splits)
  moreover have "out \<subseteq> dom (dict_get (cached m))"
    using evictable_unreferenced [OF assms(1)] unfolding out_def by blast
  moreover have "set (freed m') = set (freed m) \<union> out" using assms(2) by (simp add: evicted_def out_def)
  ultimately show ?thesis by blast
qed

lemma encoder_step_ok:
  assumes ok: "table_ok tab" and step: "encoder_step tab s s'"
    and st: "cache_state_ok tab capacity (fst s) (snd s)"
  shows "cache_state_ok tab capacity (fst s') (snd s')"
  using step st
proof cases
  case (check rid i m b m' w)
  then obtain h where h: "input_hash (tab rid) i = Inr h"
    by (auto simp: check_and_update_cache_def elim: rbindE)
  have iv: "encoder_inv (hash_table tab) m" using st check by (simp add: cache_state_ok_def)
  from check_and_update_cache_spec [OF iv table_features [OF ok] h] check(3) show ?thesis
    using st check(1,2) h table_inputs(2) [OF ok] by (auto simp: cache_state_ok_def)
next
  case (can rid i budget sched m b m' w)
  then obtain k where k: "get_num_encoder_embeds (tab rid) i = Inr k"
    by (auto simp: can_allocate_def elim: rbindE)
  have iv: "encoder_inv (hash_table tab) m" using st can by (simp add: cache_state_ok_def)
  obtain j where j: "encoder_inv (hash_table tab) m'" "evicted j m m'"
    using can_allocate_spec [OF iv k, of budget sched] can(3) by auto
  have "dom (dict_get (cached m')) \<union> set (freed m') = dom (dict_get (cached m)) \<union> set (freed m)"
    using evicted_worker [OF _ j(2)] iv by (simp add: encoder_inv_def)
  then show ?thesis
    using st can(1,2) j by (simp add: cache_state_ok_def evicted_def ids_of_def)
next
  case (alloc rid i h m m' w)
  have iv: "encoder_inv (hash_table tab) m" using st alloc by (simp add: cache_state_ok_def)
  obtain n where n: "get_num_encoder_embeds (tab rid) i = Inr n" using table_inputs(1) [OF ok alloc(3)] by blast
  from allocate_spec [OF iv table_features [OF ok] alloc(3,4) n] alloc(5) show ?thesis
    using st alloc(1-3) table_inputs(2) [OF ok] by (auto simp: cache_state_ok_def split: if_splits)
next
  case (free_input rid i m m' w)
  then obtain h where h: "input_hash (tab rid) i = Inr h"
    by (auto simp: free_encoder_input_def elim: rbindE)
  have iv: "encoder_inv (hash_table tab) m" using st free_input by (simp add: cache_state_ok_def)
  from free_encoder_input_spec [OF iv table_features [OF ok] h] free_input(3) show ?thesis
    using st free_input(1,2) table_inputs(2) [OF ok] by (auto simp: cache_state_ok_def)
next
  case (free order rid m m' w)
  have iv: "encoder_inv (hash_table tab) m" using st free by (simp add: cache_state_ok_def)
  have "\<forall>i \<in> set (order (get_cached_input_ids (tab rid) m)). \<exists>h. input_hash (tab rid) i = Inr h"
    using free(1,3) st table_inputs(2) [OF ok]
    by (simp add: cache_state_ok_def get_cached_input_ids_def ids_of_def)
  from free_inputs_spec [OF iv table_features [OF ok] this] free(4) show ?thesis
    using st free(1,2) by (auto simp: cache_state_ok_def encoder_free_def)
next
  case (report m hs m' w)
  then show ?thesis
    using st by (auto simp: cache_state_ok_def get_freed_mm_hashes_def encoder_inv_freed)
next
  case (reset m w)
  then show ?thesis
    using st encoder_reset_inv [of "hash_table tab" m]
    by (simp add: cache_state_ok_def) (simp add: encoder_cache_reset_def ids_of_def)
qed

lemma encoder_reachable_ok:
  assumes "table_ok tab" "0 \<le> capacity" "encoder_reachable tab capacity m w"
  shows "cache_state_ok tab capacity m w"
proof -
  have "cache_state_ok tab capacity (fst s) (snd s)"
    if "(encoder_step tab)\<^sup>*\<^sup>* (encoder_cache_init capacity, {}) s" for s
    using that
  proof (induction rule: rtranclp_induct)
    case base
    then show ?case using cache_state_ok_init [OF assms(2)] by simp
  next
    case (step s s')
    then show ?case using encoder_step_ok [OF assms(1) step(2)] by blast
  qed
  then show ?thesis using assms(3) unfolding encoder_reachable_def by fastforce
qed

section \<open>A small instance\<close>

text \<open>Requests with an image of three embeddings and one of two, on a cache of four: the first image
  is allocated, then freed, then evicted to make room for the second.\<close>

definition sample_feature :: "string \<Rightarrow> int \<Rightarrow> mm_feature" where
  "sample_feature h n =
     \<lparr>modality = ''image'', mm_identifier = h,
      mm_position = \<lparr>pr_offset = 0, pr_length = n, pr_is_embed = None\<rparr>, mm_hash = None\<rparr>"

definition sample_table :: "string \<Rightarrow> request" where
  "sample_table rid =
     (plain_request 0 0 0 [1])\<lparr>request_id := rid,
        mm_features := [sample_feature ''a'' 3, sample_feature ''b'' 2]\<rparr>"

definition sample_allocated :: encoder_cache_manager where
  "sample_allocated =
     (case allocate (sample_table ''r'') 0 (encoder_cache_init 4) of Inr m \<Rightarrow> m | Inl _ \<Rightarrow> undefined)"

definition sample_freed :: encoder_cache_manager where
  "sample_freed =
     (case free_encoder_input (sample_table ''r'') 0 sample_allocated of Inr m \<Rightarrow> m | Inl _ \<Rightarrow> undefined)"

lemma sample_table_ok: "table_ok sample_table"
  by (simp add: table_ok_def sample_table_def sample_feature_def get_num_embeds_def embeds_cumsum_def)

lemma sample_reachable:
  "encoder_reachable sample_table 4 sample_allocated {''a''}"
  "encoder_reachable sample_table 4 sample_freed {''a''}"
proof -
  have "input_hash (sample_table ''r'') 0 = Inr ''a''" "dict_get (cached (encoder_cache_init 4)) ''a'' = None"
    "allocate (sample_table ''r'') 0 (encoder_cache_init 4) = Inr sample_allocated"
    by code_simp+
  from encoder_step.alloc [where tab = sample_table, OF this, of "{}"]
  show one: "encoder_reachable sample_table 4 sample_allocated {''a''}"
    unfolding encoder_reachable_def by (rule r_into_rtranclp)
  have "free_encoder_input (sample_table ''r'') 0 sample_allocated = Inr sample_freed" by code_simp
  from rtranclp.rtrancl_into_rtrancl [OF one [unfolded encoder_reachable_def] encoder_step.free_input [where tab = sample_table, OF this]]
  show "encoder_reachable sample_table 4 sample_freed {''a''}" unfolding encoder_reachable_def .
qed

section \<open>Properties\<close>

text \<open>C23. The encoder cache is consistent in every state that lookups, evictions, allocations, frees,
  reports and resets can reach. Free slots plus the embeddings of all entries are the capacity;
  reclaimable slots are the free ones plus those of the entries no request references; the output
  of every input a request holds is cached, referenced and not evictable; and the worker holds the
  outputs of exactly the cached entries and of the evicted ones not yet reported.\<close>

theorem encoder_cache_consistent:
  assumes "table_ok tab" "0 \<le> capacity" "encoder_reachable tab capacity m w"
  shows "num_free_slots m + total (num_embeds_by_hash m) = capacity \<and>
    num_freeable_slots m = num_free_slots m + total (freeable m) \<and>
    0 \<le> num_free_slots m \<and> num_free_slots m \<le> num_freeable_slots m \<and>
    (\<forall>rid. \<forall>i \<in> set (get_cached_input_ids (tab rid) m). \<exists>h rs. input_hash (tab rid) i = Inr h \<and>
       dict_get (cached m) h = Some rs \<and> rid \<in> set rs \<and> dict_get (freeable m) h = None \<and> h \<in> w) \<and>
    w = dom (dict_get (cached m)) \<union> set (freed m)"
proof -
  have st: "cache_state_ok tab capacity m w" using assms by (rule encoder_reachable_ok)
  then have si: "slots_inv m" and li: "links_inv (hash_table tab) m" and cs: "cache_size m = capacity"
    and w: "w = dom (dict_get (cached m)) \<union> set (freed m)"
    by (simp_all add: cache_state_ok_def encoder_inv_def)
  have "\<exists>h rs. input_hash (tab rid) i = Inr h \<and> dict_get (cached m) h = Some rs \<and> rid \<in> set rs \<and>
      dict_get (freeable m) h = None \<and> h \<in> w" if "i \<in> set (get_cached_input_ids (tab rid) m)" for rid i
  proof -
    have i: "i \<in> set (ids_of m rid)"
      using that table_inputs(2) [OF assms(1)] by (simp add: get_cached_input_ids_def ids_of_def)
    then obtain h where h: "input_hash (tab rid) i = Inr h" using st by (auto simp: cache_state_ok_def)
    then have "h \<in> hash_table tab rid ` set (ids_of m rid)" using i by (force simp: hash_table_def)
    then obtain rs where rs: "dict_get (cached m) h = Some rs" "rid \<in> set rs"
      using li unfolding links_inv_def by blast
    moreover have "dict_get (freeable m) h = None" using si rs by (auto simp: slots_inv_def)
    ultimately show ?thesis using h w by blast
  qed
  then show ?thesis using si cs w free_le_freeable [OF si] by (auto simp: slots_inv_def)
qed

theorem encoder_cache_consistent_witness:
  "num_free_slots sample_allocated + total (num_embeds_by_hash sample_allocated) = 4 \<and>
   num_free_slots sample_allocated = 1 \<and> {''a''} = dom (dict_get (cached sample_allocated)) \<union> set (freed sample_allocated)"
proof -
  have "num_free_slots sample_allocated = 1" by code_simp
  then show ?thesis
    using encoder_cache_consistent [OF sample_table_ok _ sample_reachable(1)] by simp
qed

text \<open>C24. \<open>can_allocate\<close> decides correctly and evicts as little as possible. In every reachable state
  and for every valid input it raises nothing; it answers yes exactly when the input fits the
  compute budget and, with what is already scheduled, the reclaimable slots; then that many slots
  are free afterwards, the evicted entries are the oldest of the freeable list, none of them is
  referenced, one eviction fewer would not have sufficed, and they are added to the list of
  evictions to report; if it answers no the cache is unchanged.\<close>

theorem can_allocate_correct:
  assumes "table_ok tab" "0 \<le> capacity" "encoder_reachable tab capacity m w"
    and "get_num_encoder_embeds (tab rid) i = Inr k"
  shows "\<exists>j m'. can_allocate (tab rid) i budget sched m =
      Inr (k \<le> budget \<and> k + sched \<le> num_freeable_slots m, m') \<and>
    (k \<le> budget \<and> k + sched \<le> num_freeable_slots m \<longrightarrow> k + sched \<le> num_free_slots m') \<and>
    freeable m' = drop j (freeable m) \<and> freed m' = freed m @ map fst (take j (freeable m)) \<and>
    (\<forall>h \<in> set (map fst (take j (freeable m))). dict_get (cached m) h = Some [] \<and> dict_get (cached m') h = None) \<and>
    (\<forall>l < j. num_free_slots m + total (take l (freeable m)) < k + sched) \<and>
    (\<not> (k \<le> budget \<and> k + sched \<le> num_freeable_slots m) \<longrightarrow> m' = m)"
proof -
  have iv: "encoder_inv (hash_table tab) m"
    using encoder_reachable_ok [OF assms(1-3)] by (simp add: cache_state_ok_def)
  obtain j m' where j: "can_allocate (tab rid) i budget sched m =
      Inr (k \<le> budget \<and> k + sched \<le> num_freeable_slots m, m')" "evicted j m m'"
    "k \<le> budget \<and> k + sched \<le> num_freeable_slots m \<longrightarrow> k + sched \<le> num_free_slots m'"
    "\<forall>l < j. num_free_slots m + total (take l (freeable m)) < k + sched"
    "\<not> (k \<le> budget \<and> k + sched \<le> num_freeable_slots m) \<longrightarrow> m' = m"
    using can_allocate_spec [OF iv assms(4), of budget sched] by blast
  moreover have "\<forall>h \<in> set (map fst (take j (freeable m))). dict_get (cached m) h = Some [] \<and> dict_get (cached m') h = None"
    using evictable_unreferenced [of m _ j] iv j(2) by (auto simp: encoder_inv_def evicted_def)
  ultimately show ?thesis
    by (intro exI [of _ j] exI [of _ m']) (simp add: evicted_def)
qed

theorem can_allocate_correct_witness:
  "\<exists>m'. can_allocate (sample_table ''s'') 1 10 0 sample_freed = Inr (True, m') \<and> 2 \<le> num_free_slots m'"
proof -
  have k: "get_num_encoder_embeds (sample_table ''s'') 1 = Inr 2" "num_freeable_slots sample_freed = 4"
    by code_simp+
  show ?thesis
    using can_allocate_correct [OF sample_table_ok _ sample_reachable(2) k(1), of 10 0] k(2) by auto
qed

text \<open>C25. An allocation that follows a positive \<open>can_allocate\<close> never fails an assertion: for an input
  that is not cached, with nothing negative already scheduled, \<open>allocate\<close> succeeds, takes exactly the
  input's slots, and the request then holds the input.\<close>

theorem allocate_after_can_allocate:
  assumes "table_ok tab" "0 \<le> capacity" "encoder_reachable tab capacity m w"
    and "input_hash (tab rid) i = Inr h" "dict_get (cached m) h = None" "0 \<le> sched"
    and "can_allocate (tab rid) i budget sched m = Inr (True, m')"
  shows "\<exists>n m2. get_num_encoder_embeds (tab rid) i = Inr n \<and> allocate (tab rid) i m' = Inr m2 \<and>
    num_free_slots m2 = num_free_slots m' - n \<and> 0 \<le> num_free_slots m2 \<and>
    i \<in> set (get_cached_input_ids (tab rid) m2) \<and> h \<in> dom (dict_get (cached m2))"
proof -
  have iv: "encoder_inv (hash_table tab) m"
    using encoder_reachable_ok [OF assms(1-3)] by (simp add: cache_state_ok_def)
  obtain n where n: "get_num_encoder_embeds (tab rid) i = Inr n" "0 \<le> n"
    using table_inputs(1) [OF assms(1,4)] by blast
  obtain j where j: "encoder_inv (hash_table tab) m'" "evicted j m m'" "n + sched \<le> num_free_slots m'"
    using can_allocate_spec [OF iv n(1), of budget sched] assms(7) by auto
  have "dict_get (cached m') h = None" using j(2) assms(5) by (simp add: evicted_def)
  from allocate_spec [OF j(1) table_features [OF assms(1)] assms(4) this n(1)] j(3) n(2) assms(6)
  obtain m2 where m2: "allocate (tab rid) i m' = Inr m2" "num_free_slots m2 = num_free_slots m' - n"
    "dom (dict_get (cached m2)) = insert h (dom (dict_get (cached m')))"
    "\<forall>rid'. set (ids_of m2 rid') =
       set (ids_of m' rid') \<union> (if rid' = request_id (tab rid) then {i} else {})"
    by auto
  have "i \<in> set (get_cached_input_ids (tab rid) m2)"
    using m2(4) by (simp add: get_cached_input_ids_def ids_of_def)
  then show ?thesis using n m2 j(3) assms(6) by (intro exI [of _ n] exI [of _ m2]) simp
qed

theorem allocate_after_can_allocate_witness:
  "\<exists>m' m2. can_allocate (sample_table ''s'') 1 10 0 sample_freed = Inr (True, m') \<and>
     allocate (sample_table ''s'') 1 m' = Inr m2 \<and> 1 \<in> set (get_cached_input_ids (sample_table ''s'') m2)"
proof -
  have k: "input_hash (sample_table ''s'') 1 = Inr ''b''" "dict_get (cached sample_freed) ''b'' = None"
    "\<not> isl (can_allocate (sample_table ''s'') 1 10 0 sample_freed)"
    "fst (projr (can_allocate (sample_table ''s'') 1 10 0 sample_freed))"
    by code_simp+
  then obtain m' where m': "can_allocate (sample_table ''s'') 1 10 0 sample_freed = Inr (True, m')"
    by (cases "can_allocate (sample_table ''s'') 1 10 0 sample_freed") auto
  from allocate_after_can_allocate [OF sample_table_ok _ sample_reachable(2) k(1,2) _ this] m'
  show ?thesis by auto
qed

section \<open>Encoder-decoder models\<close>

lemma feature_at:
  assumes "i < length (mm_features r)"
  shows "input_hash r (int i) = Inr (mm_identifier (mm_features r ! i))"
    and "get_num_encoder_embeds r (int i) = Inr (get_num_embeds (mm_position (mm_features r ! i)))"
  using assms by (simp_all add: input_hash_def get_num_encoder_embeds_def py_index_nat)

lemma ed_allocate_all:
  assumes "\<forall>i \<in> set is. i < length (mm_features r)"
  shows "rfold (ed_allocate r) (map int is) m =
    Inr (m\<lparr>ed_num_free_slots := ed_num_free_slots m -
             (\<Sum>i \<leftarrow> is. get_num_embeds (mm_position (mm_features r ! i))),
           allocated := allocated m @ map (\<lambda>i. mm_identifier (mm_features r ! i)) is\<rparr>)"
  using assms by (induction "is" arbitrary: m) (simp_all add: ed_allocate_def feature_at)

lemma ed_free_all:
  assumes "\<forall>i \<in> set is. i < length (mm_features r)"
  shows "rfold (ed_free_encoder_input r) (map int is) m =
    Inr (m\<lparr>ed_num_free_slots := ed_num_free_slots m +
             (\<Sum>i \<leftarrow> is. get_num_embeds (mm_position (mm_features r ! i)))\<rparr>)"
  using assms by (induction "is" arbitrary: m) (simp_all add: ed_free_encoder_input_def feature_at)

text \<open>C30. Encoder-decoder models release encoder outputs in two phases. Allocating all inputs of a
  request and freeing the request restores the number of free slots and raises nothing; the next
  report does not name the allocated hashes, the second one names exactly them, and the third,
  without further allocations, names none.\<close>

theorem encoder_decoder_two_phase:
  "\<exists>a f. rfold (ed_allocate r) (ed_get_cached_input_ids r) m = Inr a \<and> ed_free r a = Inr f \<and>
     ed_num_free_slots f = ed_num_free_slots m \<and>
     (let (out1, m1) = ed_get_freed_mm_hashes f; (out2, m2) = ed_get_freed_mm_hashes m1;
          (out3, m3) = ed_get_freed_mm_hashes m2
      in out1 = to_free m \<and> out2 = allocated m @ map mm_identifier (mm_features r) \<and> out3 = [])"
proof -
  let ?n = "[0..<length (mm_features r)]"
  have "map (\<lambda>i. mm_identifier (mm_features r ! i)) ?n = map mm_identifier (mm_features r)"
    by (rule nth_equalityI) simp_all
  then show ?thesis
    by (simp add: ed_get_cached_input_ids_def ed_free_def ed_allocate_all ed_free_all
        ed_get_freed_mm_hashes_def)
qed

end
