(* ===== verification/Sched_Utils.thy ===== *)
theory Sched_Utils
  imports Block_Hash
begin

text \<open>
  When a request stops (\<open>v1/core/sched/utils.py\<close>) and how sampled tokens are appended to it
  (\<open>Scheduler._update_request_with_output\<close>): repetition detection, the stop conditions in their
  order, and the loop that appends tokens until one of them stops the request.
\<close>

section \<open>Repetition\<close>

text \<open>The inner loop over the earlier copies of one position, and the outer loop over the positions of
  the pattern. A negative index past the front would raise \<open>IndexError\<close>.\<close>

fun copies_match :: "int list \<Rightarrow> int \<Rightarrow> int \<Rightarrow> int \<Rightarrow> int list \<Rightarrow> bool result" where
  "copies_match toks pattern_len n target [] = Inr True"
| "copies_match toks pattern_len n target (m # ms) =
     rbind (py_index toks (- (pattern_len * m + n))) (\<lambda>t.
       if t \<noteq> target then Inr False else copies_match toks pattern_len n target ms)"

fun positions_match :: "int list \<Rightarrow> int \<Rightarrow> int \<Rightarrow> int list \<Rightarrow> bool result" where
  "positions_match toks pattern_len count [] = Inr True"
| "positions_match toks pattern_len count (n # ns) =
     rbind (py_index toks (- n)) (\<lambda>target.
     rbind (copies_match toks pattern_len n target (py_range 1 count)) (\<lambda>ok.
       if ok then positions_match toks pattern_len count ns else Inr False))"

definition has_repeating_pattern :: "int list \<Rightarrow> int \<Rightarrow> int \<Rightarrow> bool result" where
  "has_repeating_pattern toks pattern_len repetition_min_count =
     positions_match toks pattern_len repetition_min_count (py_range 1 (pattern_len + 1))"

fun pattern_search :: "int list \<Rightarrow> int \<Rightarrow> int list \<Rightarrow> bool result" where
  "pattern_search toks count [] = Inr False"
| "pattern_search toks count (pattern_len # ps) =
     (if pattern_len * count > int (length toks) then Inr False
      else rbind (has_repeating_pattern toks pattern_len count) (\<lambda>found.
             if found then Inr True else pattern_search toks count ps))"

definition check_sequence_repetition :: "int list \<Rightarrow> repetition_detection_params \<Rightarrow> bool result" where
  "check_sequence_repetition toks params =
     (let biggest = max_pattern_size params; count = min_count params;
          smallest = (if min_pattern_size params \<le> 0 then 1 else min_pattern_size params)
      in if biggest \<le> 0 \<or> count < 2 \<or> smallest > biggest then Inr False
         else pattern_search toks count (py_range smallest (biggest + 1)))"

section \<open>Removing items\<close>

text \<open>The set of items is a list without repetition.\<close>

definition remove_all :: "'a list \<Rightarrow> 'a list \<Rightarrow> 'a list" where
  "remove_all lst items =
     (if items = [] then lst
      else if length items = 1 then remove1 (hd items) lst
      else filter (\<lambda>x. x \<notin> set items) lst)"

section \<open>Stop conditions\<close>

definition check_stop :: "request \<Rightarrow> int \<Rightarrow> (bool \<times> request) result" where
  "check_stop r max_model_len =
     rbind (py_assert (pooling_params r = None)) (\<lambda>_.
     rbind (of_option AssertionError (sampling_params r)) (\<lambda>sp.
     rbind (py_index (output_token_ids r) (- 1)) (\<lambda>last_token_id.
       if sp_eos_token_id sp = Some last_token_id
       then Inr (True, r\<lparr>status := FINISHED_STOPPED\<rparr>)
       else if last_token_id \<in> set (case sp_stop_token_ids sp of Some ts \<Rightarrow> ts | None \<Rightarrow> [])
       then Inr (True, r\<lparr>status := FINISHED_STOPPED, stop_reason := Some (StopToken last_token_id)\<rparr>)
       else if num_tokens r \<ge> max_model_len \<or> num_output_tokens r \<ge> max_tokens r
       then Inr (True, r\<lparr>status := FINISHED_LENGTH_CAPPED\<rparr>)
       else if num_output_tokens r < sp_min_tokens sp then Inr (False, r)
       else case sp_repetition_detection sp of
              None \<Rightarrow> Inr (False, r)
            | Some params \<Rightarrow>
                rbind (check_sequence_repetition (output_token_ids r) params) (\<lambda>repeated.
                  if repeated
                  then Inr (True, r\<lparr>status := FINISHED_REPETITION,
                                   stop_reason := Some (StopText ''repetition_detected'')\<rparr>)
                  else Inr (False, r)))))"

section \<open>Appending sampled tokens\<close>

text \<open>The loop appends one token after the other; it returns the tokens it kept, whether the request
  stopped, and the request. \<open>total_new\<close> and \<open>num_new\<close> are the number of sampled tokens and the
  position of the loop.\<close>

fun append_until_stop ::
  "block_hasher option \<Rightarrow> int \<Rightarrow> bool \<Rightarrow> int \<Rightarrow> int \<Rightarrow> int list \<Rightarrow> request \<Rightarrow>
   (int list \<times> bool \<times> request) result" where
  "append_until_stop hasher max_model_len is_stale total_new num_new [] r = Inr ([], False, r)"
| "append_until_stop hasher max_model_len is_stale total_new num_new (t # ts) r =
     rbind (append_output_token_ids hasher [t] r) (\<lambda>r1.
     rbind (check_stop r1 max_model_len) (\<lambda>(stopped, r2).
       if stopped
       then Inr ([t], True,
                 if is_stale then r2
                 else r2\<lparr>num_computed_tokens := num_computed_tokens r2 - (total_new - num_new)\<rparr>)
       else rbind (append_until_stop hasher max_model_len is_stale total_new (num_new + 1) ts r2)
              (\<lambda>(kept, stopped', r3). Inr (t # kept, stopped', r3))))"

definition update_request_with_output ::
  "block_hasher option \<Rightarrow> int \<Rightarrow> request \<Rightarrow> int list \<Rightarrow> bool \<Rightarrow> (int list \<times> bool \<times> request) result" where
  "update_request_with_output hasher max_model_len r new_token_ids is_stale =
     rbind (append_until_stop hasher max_model_len is_stale (int (length new_token_ids)) 1
              new_token_ids r) (\<lambda>(kept, stopped, r1).
       if \<not> is_stale \<and> num_output_placeholders r1 > 0
       then let left = num_output_placeholders r1 - int (length new_token_ids)
            in rbind (py_assert (left \<ge> 0)) (\<lambda>_.
                 Inr (kept, stopped, r1\<lparr>num_output_placeholders := left\<rparr>))
       else Inr (kept, stopped, r1))"

section \<open>Repetition: what is detected\<close>

text \<open>The specification: the last \<open>count * p\<close> tokens are \<open>count\<close> copies of one pattern of length
  \<open>p\<close>.\<close>

definition ends_with_copies :: "int list \<Rightarrow> nat \<Rightarrow> nat \<Rightarrow> bool" where
  "ends_with_copies toks p count \<longleftrightarrow>
     (\<exists>front pattern. length pattern = p \<and> toks = front @ concat (replicate count pattern))"

lemma py_range_nat: "py_range (int a) (int b) = map int [a..<b]"
proof (rule nth_equalityI)
  show "length (py_range (int a) (int b)) = length (map int [a..<b])" by simp
  fix i assume "i < length (py_range (int a) (int b))"
  then show "py_range (int a) (int b) ! i = map int [a..<b] ! i" by (simp add: py_range_def)
qed

lemma nth_concat_replicate:
  "j < c * length xs \<Longrightarrow> concat (replicate c xs) ! j = xs ! (j mod length xs)"
proof (induction c arbitrary: j)
  case (Suc c)
  show ?case
  proof (cases "j < length xs")
    case False
    then have "j - length xs < c * length xs" using Suc.prems by auto
    then show ?thesis using Suc.IH [of "j - length xs"] False by (simp add: nth_append mod_if [of j])
  qed (simp add: nth_append)
qed simp

lemma length_concat_replicate [simp]: "length (concat (replicate c xs)) = c * length xs"
  by (induction c) simp_all

text \<open>Counting from the end: position \<open>n\<close> of copy \<open>m\<close>.\<close>

lemma from_end:
  assumes "1 \<le> n" "n \<le> p" "m < c"
  shows "p * m + n \<le> p * c" "(p * c - (p * m + n)) mod p = (p - n :: nat)"
proof -
  obtain d where d: "c = m + 1 + d" using assms(3) by (metis Suc_eq_plus1 add.commute less_iff_Suc_add add_Suc)
  show "p * m + n \<le> p * c" using d assms(2) by (simp add: algebra_simps)
  have eq: "p * c - (p * m + n) = p * d + (p - n)" using d assms(2) by (simp add: algebra_simps)
  show "(p * c - (p * m + n)) mod p = p - n"
    unfolding eq using assms by (simp only: mod_mult_self4) simp
qed

lemma copies_nth:
  assumes "0 < p" "p * c \<le> length toks"
    and "\<And>n m. 1 \<le> n \<Longrightarrow> n \<le> p \<Longrightarrow> m < c \<Longrightarrow>
      toks ! (length toks - (p * m + n)) = toks ! (length toks - n)"
  shows "drop (length toks - p * c) toks = concat (replicate c (drop (length toks - p) toks))"
proof (cases "c = 0")
  case False
  define L where "L = length toks"
  have pL: "p \<le> L" using assms(2) False by (cases c) (auto simp: L_def)
  show ?thesis
  proof (rule nth_equalityI)
    show "length (drop (length toks - p * c) toks) =
        length (concat (replicate c (drop (length toks - p) toks)))"
      using assms(2) pL by (simp add: L_def mult.commute)
    fix j assume "j < length (drop (length toks - p * c) toks)"
    then have j: "j < p * c" using assms(2) by simp
    define q s where "q = j div p" and "s = j mod p"
    have jq: "j = p * q + s" "s < p" "q < c"
      using assms(1) j by (simp_all add: q_def s_def less_mult_imp_div_less mult.commute)
    obtain d where d: "c = q + 1 + d" using jq(3) by (metis Suc_eq_plus1 add.commute less_iff_Suc_add add_Suc)
    have pos: "L - (p * d + (p - s)) = L - p * c + j" "L - (p - s) = L - p + s"
      using assms(2) d jq pL by (simp_all add: L_def algebra_simps)
    have "drop (length toks - p * c) toks ! j = toks ! (L - (p * d + (p - s)))"
      using assms(2) pos j by (simp add: L_def)
    also have "\<dots> = toks ! (L - p + s)"
      using assms(3) [of "p - s" d] jq(2) d pos(2) by (simp add: L_def)
    also have "\<dots> = concat (replicate c (drop (length toks - p) toks)) ! j"
      using nth_concat_replicate [of j c "drop (length toks - p) toks"] j pL
      by (simp add: L_def s_def mult.commute)
    finally show "drop (length toks - p * c) toks ! j =
        concat (replicate c (drop (length toks - p) toks)) ! j" .
  qed
qed simp

lemma ends_with_copies_iff:
  assumes "0 < p" "p * c \<le> length toks"
  shows "ends_with_copies toks p c \<longleftrightarrow>
    (\<forall>n \<in> {1..p}. \<forall>m \<in> {1..<c}. toks ! (length toks - (p * m + n)) = toks ! (length toks - n))"
proof
  assume "ends_with_copies toks p c"
  then obtain front pattern where f: "length pattern = p" "toks = front @ concat (replicate c pattern)"
    by (auto simp: ends_with_copies_def)
  have at: "toks ! (length toks - (p * m + n)) = pattern ! (p - n)" if "1 \<le> n" "n \<le> p" "m < c" for n m
  proof -
    have "length toks - (p * m + n) = length front + (p * c - (p * m + n))"
      using f from_end(1) [OF that] by (simp add: mult.commute)
    then show ?thesis
      using f nth_concat_replicate [of "p * c - (p * m + n)" c pattern] from_end(2) [OF that] that assms(1)
      by (simp add: mult.commute)
  qed
  show "\<forall>n \<in> {1..p}. \<forall>m \<in> {1..<c}. toks ! (length toks - (p * m + n)) = toks ! (length toks - n)"
    using at [of _ 0] at by fastforce
next
  assume all: "\<forall>n \<in> {1..p}. \<forall>m \<in> {1..<c}. toks ! (length toks - (p * m + n)) = toks ! (length toks - n)"
  have "toks ! (length toks - (p * m + n)) = toks ! (length toks - n)" if "1 \<le> n" "n \<le> p" "m < c" for n m
    using all that by (cases "m = 0") auto
  then have copies: "drop (length toks - p * c) toks = concat (replicate c (drop (length toks - p) toks))"
    using assms by (intro copies_nth) auto
  show "ends_with_copies toks p c"
  proof (cases "c = 0")
    case True
    have "toks = toks @ concat (replicate 0 (replicate p 0))" by simp
    then show ?thesis using True unfolding ends_with_copies_def by (metis length_replicate)
  next
    case False
    then have "p \<le> length toks" using assms(2) by (cases c) auto
    then have "length (drop (length toks - p) toks) = p" by simp
    moreover have "toks = take (length toks - p * c) toks @ drop (length toks - p * c) toks" by simp
    ultimately show ?thesis unfolding ends_with_copies_def using copies by metis
  qed
qed

lemma copies_match_eq:
  assumes "\<forall>m \<in> set ms. p * m + n \<le> length toks" "1 \<le> n"
  shows "copies_match toks (int p) (int n) t (map int ms) =
    Inr (\<forall>m \<in> set ms. toks ! (length toks - (p * m + n)) = t)"
  using assms(1)
proof (induction ms)
  case (Cons m ms)
  have "py_index toks (- int (p * m + n)) = Inr (toks ! (length toks - (p * m + n)))"
    using Cons.prems assms(2) by (intro py_index_neg) auto
  then show ?case using Cons by simp
qed simp

lemma positions_match_eq:
  assumes "p * c \<le> length toks" "\<forall>n \<in> set ns. 1 \<le> n \<and> n \<le> p" "1 \<le> c"
  shows "positions_match toks (int p) (int c) (map int ns) =
    Inr (\<forall>n \<in> set ns. \<forall>m \<in> {1..<c}. toks ! (length toks - (p * m + n)) = toks ! (length toks - n))"
  using assms(2)
proof (induction ns)
  case (Cons n ns)
  have le: "p * m + n \<le> length toks" if "m < c" for m
    using from_end(1) [of n p m c] Cons.prems that assms(1) by simp
  have "n \<le> length toks" using le [of 0] assms(3) by simp
  then have "py_index toks (- int n) = Inr (toks ! (length toks - n))"
    using Cons.prems by (intro py_index_neg) auto
  moreover have "copies_match toks (int p) (int n) (toks ! (length toks - n)) (py_range 1 (int c)) =
      Inr (\<forall>m \<in> {1..<c}. toks ! (length toks - (p * m + n)) = toks ! (length toks - n))"
    using copies_match_eq [of "[1..<c]" p n toks "toks ! (length toks - n)"] le Cons.prems
      py_range_nat [of 1 c] by simp
  ultimately show ?case using Cons by simp
qed simp

lemma has_repeating_pattern_eq:
  assumes "0 < p" "1 \<le> c" "p * c \<le> length toks"
  shows "has_repeating_pattern toks (int p) (int c) = Inr (ends_with_copies toks p c)"
proof -
  have "py_range 1 (int p + 1) = map int [1..<p + 1]" using py_range_nat [of 1 "p + 1"] by (simp add: add.commute del: upt_Suc)
  moreover have "set [1..<p + 1] = {1..p}" by auto
  ultimately show ?thesis
    using positions_match_eq [of p c toks "[1..<p + 1]"] assms ends_with_copies_iff [OF assms(1,3)]
    by (simp add: has_repeating_pattern_def del: upt_Suc)
qed

lemma ends_with_copies_length: "ends_with_copies toks p c \<Longrightarrow> p * c \<le> length toks"
  by (auto simp: ends_with_copies_def mult.commute)

lemma pattern_search_eq:
  assumes "1 \<le> a" "1 \<le> c"
  shows "pattern_search toks (int c) (map int [a..<b]) = Inr (\<exists>p \<in> {a..<b}. ends_with_copies toks p c)"
  using assms(1)
proof (induction "b - a" arbitrary: a)
  case 0
  then show ?case by simp
next
  case (Suc k)
  then have split: "[a..<b] = a # [Suc a..<b]" "{a..<b} = insert a {Suc a..<b}"
    by (simp add: upt_conv_Cons) (use Suc.hyps(2) in auto)
  show ?case
  proof (cases "a * c > length toks")
    case True
    have "\<not> ends_with_copies toks p c" if "p \<in> {a..<b}" for p
    proof
      assume "ends_with_copies toks p c"
      then have "p * c \<le> length toks" by (rule ends_with_copies_length)
      moreover have "a * c \<le> p * c" using that by (intro mult_right_mono) auto
      ultimately show False using True by simp
    qed
    moreover have "int a * int c > int (length toks)" using True by (metis of_nat_less_iff of_nat_mult)
    ultimately show ?thesis using split(1) by auto
  next
    case False
    then have "\<not> int a * int c > int (length toks)" by (metis of_nat_less_iff of_nat_mult)
    moreover have "has_repeating_pattern toks (int a) (int c) = Inr (ends_with_copies toks a c)"
      using has_repeating_pattern_eq [of a c toks] False Suc.prems assms(2) by simp
    moreover have "pattern_search toks (int c) (map int [Suc a..<b]) =
        Inr (\<exists>p \<in> {Suc a..<b}. ends_with_copies toks p c)"
      using Suc.hyps(1) [of "Suc a"] Suc.hyps(2) by simp
    ultimately show ?thesis unfolding split by simp
  qed
qed

lemma check_sequence_repetition_eq:
  "check_sequence_repetition toks params =
     Inr (2 \<le> min_count params \<and>
          (\<exists>p. 1 \<le> p \<and> min_pattern_size params \<le> int p \<and> int p \<le> max_pattern_size params \<and>
               ends_with_copies toks p (nat (min_count params))))"
proof -
  define lo where "lo = (if min_pattern_size params \<le> 0 then 1 else min_pattern_size params)"
  show ?thesis
  proof (cases "max_pattern_size params \<le> 0 \<or> min_count params < 2 \<or> lo > max_pattern_size params")
    case True
    then have "check_sequence_repetition toks params = Inr False"
      by (auto simp: check_sequence_repetition_def lo_def Let_def)
    moreover have "\<not> (2 \<le> min_count params \<and>
          (\<exists>p. 1 \<le> p \<and> min_pattern_size params \<le> int p \<and> int p \<le> max_pattern_size params \<and>
               ends_with_copies toks p (nat (min_count params))))"
      using True by (auto simp: lo_def split: if_splits)
    ultimately show ?thesis by simp
  next
    case False
    define a b c where "a = nat lo" and "b = nat (max_pattern_size params) + 1" and "c = nat (min_count params)"
    have abc: "lo = int a" "max_pattern_size params + 1 = int b" "min_count params = int c" "1 \<le> a" "1 \<le> c"
      using False by (auto simp: a_def b_def c_def lo_def)
    have range: "p \<in> {a..<b} \<longleftrightarrow>
        1 \<le> p \<and> min_pattern_size params \<le> int p \<and> int p \<le> max_pattern_size params" for p
      using False by (auto simp: a_def b_def lo_def split: if_splits)
    have "check_sequence_repetition toks params = pattern_search toks (int c) (py_range (int a) (int b))"
      using False abc by (simp add: check_sequence_repetition_def lo_def [symmetric] Let_def)
    also have "\<dots> = Inr (\<exists>p \<in> {a..<b}. ends_with_copies toks p c)"
      using abc by (simp add: py_range_nat pattern_search_eq)
    also have "(\<exists>p \<in> {a..<b}. ends_with_copies toks p c) \<longleftrightarrow>
        (\<exists>p. 1 \<le> p \<and> min_pattern_size params \<le> int p \<and> int p \<le> max_pattern_size params \<and>
             ends_with_copies toks p c)"
      unfolding Bex_def range by blast
    finally show ?thesis using False by (simp add: c_def)
  qed
qed

section \<open>Stop conditions: what stops a request\<close>

definition token_stops :: "sampling_params \<Rightarrow> int \<Rightarrow> bool" where
  "token_stops sp t \<longleftrightarrow> sp_eos_token_id sp = Some t \<or> (\<exists>ts. sp_stop_token_ids sp = Some ts \<and> t \<in> set ts)"

definition length_capped :: "request \<Rightarrow> int \<Rightarrow> bool" where
  "length_capped r max_model_len \<longleftrightarrow> num_tokens r \<ge> max_model_len \<or> num_output_tokens r \<ge> max_tokens r"

definition repeats :: "sampling_params \<Rightarrow> request \<Rightarrow> bool" where
  "repeats sp r \<longleftrightarrow>
     sp_min_tokens sp \<le> num_output_tokens r \<and>
     (\<exists>params. sp_repetition_detection sp = Some params \<and>
        check_sequence_repetition (output_token_ids r) params = Inr True)"

text \<open>The status the request gets, or none if it goes on.\<close>

definition stop_status :: "sampling_params \<Rightarrow> request \<Rightarrow> int \<Rightarrow> request_status option" where
  "stop_status sp r max_model_len =
     (if token_stops sp (last (output_token_ids r)) then Some FINISHED_STOPPED
      else if length_capped r max_model_len then Some FINISHED_LENGTH_CAPPED
      else if repeats sp r then Some FINISHED_REPETITION
      else None)"

lemma py_index_last: "xs \<noteq> [] \<Longrightarrow> py_index xs (- 1) = Inr (last xs)"
  using py_index_neg [of 1 xs] by (simp add: last_conv_nth Suc_le_eq)

lemma py_index_last_Nil: "py_index [] (- 1) = Inl IndexError"
  by (simp add: py_index_def)

lemma check_stop_eq:
  assumes "pooling_params r = None" "sampling_params r = Some sp" "output_token_ids r \<noteq> []"
  obtains reason where "check_stop r max_model_len =
    (case stop_status sp r max_model_len of
       None \<Rightarrow> Inr (False, r)
     | Some st \<Rightarrow> Inr (True, r\<lparr>status := st, stop_reason := reason\<rparr>))"
proof -
  have same: "r\<lparr>status := st\<rparr> = r\<lparr>status := st, stop_reason := stop_reason r\<rparr>" for st
    by simp
  let ?t = "last (output_token_ids r)"
  have last: "py_index (output_token_ids r) (- 1) = Inr ?t" using assms(3) by (rule py_index_last)
  consider (eos) "sp_eos_token_id sp = Some ?t"
    | (tok) ts where "sp_eos_token_id sp \<noteq> Some ?t" "sp_stop_token_ids sp = Some ts" "?t \<in> set ts"
    | (go) "\<not> token_stops sp ?t"
    by (auto simp: token_stops_def)
  then show ?thesis
  proof cases
    case eos
    then show ?thesis
      using assms last by (intro that [of "stop_reason r"])
        (simp add: check_stop_def stop_status_def token_stops_def)
  next
    case tok
    then show ?thesis
      using assms last by (intro that [of "Some (StopToken ?t)"])
        (simp add: check_stop_def stop_status_def token_stops_def)
  next
    case go
    then have go': "sp_eos_token_id sp \<noteq> Some ?t"
      "?t \<notin> set (case sp_stop_token_ids sp of Some ts \<Rightarrow> ts | None \<Rightarrow> [])"
      by (auto simp: token_stops_def split: option.splits)
    show ?thesis
    proof (cases "length_capped r max_model_len")
      case True
      then show ?thesis
        using assms last go go' by (intro that [of "stop_reason r"])
          (auto simp: check_stop_def stop_status_def length_capped_def)
    next
      case False
      note facts = assms last go go' False [unfolded length_capped_def]
      show ?thesis
      proof (cases "sp_repetition_detection sp")
        case None
        then show ?thesis using facts
          by (intro that [of None]) (auto simp: check_stop_def stop_status_def length_capped_def repeats_def)
      next
        case (Some params)
        obtain b where "check_sequence_repetition (output_token_ids r) params = Inr b"
          using check_sequence_repetition_eq by blast
        then show ?thesis using facts Some
          by (intro that [of "Some (StopText ''repetition_detected'')"])
            (auto simp: check_stop_def stop_status_def length_capped_def repeats_def)
      qed
    qed
  qed
qed

lemma stop_status_finished: "stop_status sp r max_model_len = Some st \<Longrightarrow> status_is_finished st"
  by (auto simp: stop_status_def status_is_finished_iff split: if_splits)

lemma check_stop_errors:
  "pooling_params r \<noteq> None \<or> sampling_params r = None \<Longrightarrow> check_stop r max_model_len = Inl AssertionError"
  "pooling_params r = None \<Longrightarrow> sampling_params r = Some sp \<Longrightarrow> output_token_ids r = [] \<Longrightarrow>
     check_stop r max_model_len = Inl IndexError"
  by (auto simp: check_stop_def py_index_last_Nil py_assert_def)

section \<open>Appending until a stop\<close>

text \<open>What is assumed of a running request: generation parameters, hashes in step with the tokens.\<close>

definition generating :: "hash_env \<Rightarrow> nat \<Rightarrow> nat \<Rightarrow> sampling_params \<Rightarrow> request \<Rightarrow> bool" where
  "generating env bs l sp r \<longleftrightarrow>
     pooling_params r = None \<and> sampling_params r = Some sp \<and> hashes_ok env bs l r \<and>
     mm_ordered (mm_features r)"

text \<open>How far the loop got: \<open>toks\<close> were appended, and the rest of the request that matters is
  kept.\<close>

definition extended :: "int list \<Rightarrow> request \<Rightarrow> request \<Rightarrow> bool" where
  "extended toks r r' \<longleftrightarrow>
     output_token_ids r' = output_token_ids r @ toks \<and> all_token_ids r' = all_token_ids r @ toks \<and>
     max_tokens r' = max_tokens r \<and> num_output_placeholders r' = num_output_placeholders r"

lemma hashes_ok_cong:
  assumes same: "same_context r r'" and toks: "all_token_ids r = all_token_ids r'"
    and hs: "block_hashes r = block_hashes r'"
    and memo: "prompt_embeds_per_block_hashes r = prompt_embeds_per_block_hashes r'"
  shows "hashes_ok env bs l r = hashes_ok env bs l r'"
proof -
  have "chain_hash env bs l r = chain_hash env bs l r'"
    using chain_hash_cong [OF same] toks by (auto intro!: ext)
  then show ?thesis
    using toks hs memo same_contextD(2) [OF same] by (simp add: hashes_ok_def num_hashed_def)
qed

lemma hashes_ok_update [simp]:
  "hashes_ok env bs l (r\<lparr>status := st\<rparr>) = hashes_ok env bs l r"
  "hashes_ok env bs l (r\<lparr>stop_reason := sr\<rparr>) = hashes_ok env bs l r"
  "hashes_ok env bs l (r\<lparr>num_computed_tokens := n\<rparr>) = hashes_ok env bs l r"
  "hashes_ok env bs l (r\<lparr>num_output_placeholders := n\<rparr>) = hashes_ok env bs l r"
  by (rule hashes_ok_cong; simp add: same_context_def)+

lemma append_one:
  assumes "generating env bs l sp r" "0 < bs"
  obtains r1 where "append_output_token_ids (Some (request_block_hasher env (int bs) (int l))) [t] r = Inr r1"
    "generating env bs l sp r1" "extended [t] r r1" "status r1 = status r"
    "num_computed_tokens r1 = num_computed_tokens r"
proof -
  obtain r1 where r1: "append_output_token_ids (Some (request_block_hasher env (int bs) (int l))) [t] r = Inr r1"
    "hashes_ok env bs l r1"
    using append_output_hashes_ok [of env bs l r "[t]"] assms by (auto simp: generating_def)
  show ?thesis
    using r1 assms(1) update_block_hashes_tokens [OF r1(1) [unfolded append_output_token_ids_def]]
      update_block_hashes_frame [OF r1(1) [unfolded append_output_token_ids_def]]
    by (intro that [OF r1(1)]) (simp_all add: generating_def extended_def)
qed

lemma extended_trans: "extended xs r r1 \<Longrightarrow> extended ys r1 r2 \<Longrightarrow> extended (xs @ ys) r r2"
  by (simp add: extended_def)

lemma extended_nonempty: "extended [t] r r1 \<Longrightarrow> output_token_ids r1 \<noteq> []"
  by (auto simp: extended_def)

text \<open>The specification of the loop: it keeps the shortest prefix whose last token stops the request,
  or everything.\<close>

definition loop_result ::
  "hash_env \<Rightarrow> nat \<Rightarrow> nat \<Rightarrow> sampling_params \<Rightarrow> bool \<Rightarrow> int \<Rightarrow> int list \<Rightarrow> request \<Rightarrow> int list \<Rightarrow> bool \<Rightarrow>
   request \<Rightarrow> bool" where
  "loop_result env bs l sp is_stale trimmed toks r kept stopped r' \<longleftrightarrow>
     generating env bs l sp r' \<and> extended kept r r' \<and> (\<exists>rest. toks = kept @ rest) \<and>
     (if stopped then status_is_finished (status r') \<and> kept \<noteq> [] else kept = toks \<and> status r' = status r) \<and>
     num_computed_tokens r' = num_computed_tokens r - (if stopped \<and> \<not> is_stale then trimmed else 0)"

lemma append_until_stop_spec:
  assumes "generating env bs l sp r" "0 < bs"
  shows "\<exists>kept stopped r'.
    append_until_stop (Some (request_block_hasher env (int bs) (int l))) L is_stale
      (num_new - 1 + int (length toks)) num_new toks r = Inr (kept, stopped, r') \<and>
    loop_result env bs l sp is_stale (int (length toks) - int (length kept)) toks r kept stopped r' \<and>
    (toks \<noteq> [] \<and> max_tokens r - num_output_tokens r \<le> int (length toks) \<longrightarrow> stopped) \<and>
    (num_output_tokens r < max_tokens r \<longrightarrow> num_output_tokens r' \<le> max_tokens r)"
  using assms(1)
proof (induction toks arbitrary: r num_new)
  case Nil
  then show ?case
    by (intro exI [of _ "[]"] exI [of _ False] exI [of _ r]) (simp add: loop_result_def extended_def)
next
  case (Cons t ts)
  let ?h = "Some (request_block_hasher env (int bs) (int l))"
  obtain r1 where r1: "append_output_token_ids ?h [t] r = Inr r1"
    "generating env bs l sp r1" "extended [t] r r1" "status r1 = status r"
    "num_computed_tokens r1 = num_computed_tokens r"
    using append_one [OF Cons.prems assms(2)] .
  obtain reason where stop: "check_stop r1 L =
    (case stop_status sp r1 L of None \<Rightarrow> Inr (False, r1)
     | Some st \<Rightarrow> Inr (True, r1\<lparr>status := st, stop_reason := reason\<rparr>))"
    using check_stop_eq [of r1 sp L] r1(2) extended_nonempty [OF r1(3)] by (auto simp: generating_def)
  have len: "num_output_tokens r1 = num_output_tokens r + 1" "max_tokens r1 = max_tokens r"
    using r1(3) by (auto simp: extended_def num_output_tokens_def)
  show ?case
  proof (cases "stop_status sp r1 L")
    case (Some st)
    let ?r2 = "r1\<lparr>status := st, stop_reason := reason\<rparr>"
    let ?r3 = "if is_stale then ?r2 else ?r2\<lparr>num_computed_tokens := num_computed_tokens ?r2 - int (length ts)\<rparr>"
    have "append_until_stop ?h L is_stale (num_new - 1 + int (length (t # ts))) num_new (t # ts) r =
        Inr ([t], True, ?r3)"
      using r1(1) stop Some by simp
    moreover have "loop_result env bs l sp is_stale (int (length (t # ts)) - int (length [t])) (t # ts) r [t] True ?r3"
      using r1 stop_status_finished [OF Some]
      by (auto simp: loop_result_def generating_def extended_def)
    moreover have "num_output_tokens ?r3 = num_output_tokens r + 1"
      using len by (simp add: num_output_tokens_def)
    ultimately show ?thesis by (intro exI [of _ "[t]"] exI [of _ True] exI [of _ ?r3]) simp
  next
    case None
    then have uncapped: "\<not> length_capped r1 L" by (auto simp: stop_status_def split: if_splits)
    obtain kept stopped r' where ih: "append_until_stop ?h L is_stale
        (num_new + 1 - 1 + int (length ts)) (num_new + 1) ts r1 = Inr (kept, stopped, r')"
      "loop_result env bs l sp is_stale (int (length ts) - int (length kept)) ts r1 kept stopped r'"
      "ts \<noteq> [] \<and> max_tokens r1 - num_output_tokens r1 \<le> int (length ts) \<longrightarrow> stopped"
      "num_output_tokens r1 < max_tokens r1 \<longrightarrow> num_output_tokens r' \<le> max_tokens r1"
      using Cons.IH [OF r1(2), of "num_new + 1"] by blast
    have "append_until_stop ?h L is_stale (num_new - 1 + int (length (t # ts))) num_new (t # ts) r =
        Inr (t # kept, stopped, r')"
      using r1(1) stop None ih(1) by (simp add: algebra_simps)
    moreover have "loop_result env bs l sp is_stale (int (length (t # ts)) - int (length (t # kept)))
        (t # ts) r (t # kept) stopped r'"
      using ih(2) r1 extended_trans [OF r1(3), of kept r'] by (auto simp: loop_result_def)
    moreover have "max_tokens r - num_output_tokens r \<le> int (length (t # ts)) \<longrightarrow> stopped"
      using ih(3) len uncapped by (cases ts) (auto simp: length_capped_def)
    moreover have "num_output_tokens r' \<le> max_tokens r"
      using ih(4) len uncapped by (simp add: length_capped_def)
    ultimately show ?thesis
      by (intro exI [of _ "t # kept"] exI [of _ stopped] exI [of _ r']) simp
  qed
qed

lemma update_request_with_output_spec:
  assumes "generating env bs l sp r" "0 < bs"
    and "is_stale \<or> num_output_placeholders r \<le> 0 \<or> int (length toks) \<le> num_output_placeholders r"
  shows "\<exists>kept stopped r'.
    update_request_with_output (Some (request_block_hasher env (int bs) (int l))) L r toks is_stale =
      Inr (kept, stopped, r'\<lparr>num_output_placeholders :=
        (if is_stale \<or> num_output_placeholders r \<le> 0 then num_output_placeholders r
         else num_output_placeholders r - int (length toks))\<rparr>) \<and>
    loop_result env bs l sp is_stale (int (length toks) - int (length kept)) toks r kept stopped r' \<and>
    (toks \<noteq> [] \<and> max_tokens r - num_output_tokens r \<le> int (length toks) \<longrightarrow> stopped) \<and>
    (num_output_tokens r < max_tokens r \<longrightarrow> num_output_tokens r' \<le> max_tokens r)"
proof -
  obtain kept stopped r' where k: "append_until_stop (Some (request_block_hasher env (int bs) (int l))) L is_stale
      (int (length toks)) 1 toks r = Inr (kept, stopped, r')"
    "loop_result env bs l sp is_stale (int (length toks) - int (length kept)) toks r kept stopped r'"
    "toks \<noteq> [] \<and> max_tokens r - num_output_tokens r \<le> int (length toks) \<longrightarrow> stopped"
    "num_output_tokens r < max_tokens r \<longrightarrow> num_output_tokens r' \<le> max_tokens r"
    using append_until_stop_spec [OF assms(1,2), of L is_stale 1 toks] by auto
  have same: "num_output_placeholders r' = num_output_placeholders r"
    using k(2) by (simp add: loop_result_def extended_def)
  show ?thesis
  proof (cases "is_stale \<or> num_output_placeholders r \<le> 0")
    case True
    then have "update_request_with_output (Some (request_block_hasher env (int bs) (int l))) L r toks is_stale =
        Inr (kept, stopped, r')"
      using k(1) same by (auto simp: update_request_with_output_def)
    moreover have "r'\<lparr>num_output_placeholders := num_output_placeholders r\<rparr> = r'" using same by simp
    ultimately show ?thesis using k True by (intro exI [of _ kept] exI [of _ stopped] exI [of _ r']) simp
  next
    case False
    then have "update_request_with_output (Some (request_block_hasher env (int bs) (int l))) L r toks is_stale =
        Inr (kept, stopped, r'\<lparr>num_output_placeholders := num_output_placeholders r - int (length toks)\<rparr>)"
      using k(1) same assms(3) by (auto simp: update_request_with_output_def Let_def)
    then show ?thesis using k False by (intro exI [of _ kept] exI [of _ stopped] exI [of _ r']) simp
  qed
qed

text \<open>The outputs of successive steps, until the request stops.\<close>

fun feed_outputs ::
  "block_hasher option \<Rightarrow> int \<Rightarrow> int list list \<Rightarrow> request \<Rightarrow> (bool \<times> request) result" where
  "feed_outputs hasher L [] r = Inr (False, r)"
| "feed_outputs hasher L (toks # batches) r =
     rbind (update_request_with_output hasher L r toks False) (\<lambda>(kept, stopped, r').
       if stopped then Inr (True, r') else feed_outputs hasher L batches r')"

section \<open>Removing items: the fast path\<close>

lemma remove_all_distinct: "distinct lst \<Longrightarrow> remove_all lst items = filter (\<lambda>x. x \<notin> set items) lst"
proof (cases items)
  case (Cons x xs)
  assume d: "distinct lst"
  have "remove1 x lst = filter (\<lambda>y. y \<noteq> x) lst" using d
    by (simp add: distinct_remove1_removeAll removeAll_filter_not_eq eq_commute)
  then show ?thesis using Cons by (cases xs) (simp_all add: remove_all_def)
qed (simp add: remove_all_def)

text \<open>With a single item to remove, only its first occurrence goes.\<close>

lemma remove_all_single_keeps_copies:
  "remove_all [7, 7] [7 :: int] = [7] \<and> remove_all [7, 7] [7, 8 :: int] = []"
  by (simp add: remove_all_def)

section \<open>A generating request\<close>

lemma sample_generating:
  "generating sample_env 2 1 sample_params (sample_request [1, 2, 3])"
  "max_tokens (sample_request [1, 2, 3]) = 16" "num_output_tokens (sample_request [1, 2, 3]) = 0"
  "num_output_placeholders (sample_request [1, 2, 3]) = 0" "status (sample_request [1, 2, 3]) = WAITING"
proof -
  have init: "request_init (sample_args [1, 2, 3]) 0 0
      (Some (request_block_hasher sample_env (int 2) (int 1))) = Inr (sample_request [1, 2, 3])"
    unfolding sample_request_def by code_simp
  have "hashes_ok sample_env 2 1 (sample_request [1, 2, 3])"
    by (rule request_init_hashes_ok [OF init]) (simp_all add: sample_args_def mm_ordered_def)
  moreover have "pooling_params (sample_request [1, 2, 3]) = None" "mm_features (sample_request [1, 2, 3]) = []"
    "sampling_params (sample_request [1, 2, 3]) = Some sample_params"
    by code_simp+
  ultimately show "generating sample_env 2 1 sample_params (sample_request [1, 2, 3])"
    by (simp add: generating_def mm_ordered_def)
  show "max_tokens (sample_request [1, 2, 3]) = 16" "num_output_tokens (sample_request [1, 2, 3]) = 0"
    "num_output_placeholders (sample_request [1, 2, 3]) = 0" "status (sample_request [1, 2, 3]) = WAITING"
    by code_simp+
qed

section \<open>Properties\<close>

text \<open>C26. Repetition detection is exact: it raises nothing (no index leaves the sequence) and answers
  yes exactly when at least two copies are asked for and the sequence ends with that many copies of
  some pattern whose length lies between the configured sizes.\<close>

theorem repetition_detection_exact:
  "check_sequence_repetition toks params =
     Inr (2 \<le> min_count params \<and>
          (\<exists>front pattern. 1 \<le> length pattern \<and> min_pattern_size params \<le> int (length pattern) \<and>
             int (length pattern) \<le> max_pattern_size params \<and>
             toks = front @ concat (replicate (nat (min_count params)) pattern)))"
  unfolding check_sequence_repetition_eq ends_with_copies_def by (intro arg_cong [of _ _ Inr]) auto

text \<open>C27. \<open>check_stop\<close> decides by the stop conditions in their order, on every branch. A pooling request
  or one without sampling parameters fails an assertion and a request without output raises
  \<open>IndexError\<close>; otherwise a stop token comes first, then the length limits, then a repetition, which
  counts only once the minimum number of tokens is reached; the request is finished with the
  corresponding reason exactly when it stops, and is otherwise unchanged.\<close>

theorem check_stop_correct:
  "(pooling_params r \<noteq> None \<or> sampling_params r = None \<longrightarrow> check_stop r L = Inl AssertionError) \<and>
   (\<forall>sp. pooling_params r = None \<and> sampling_params r = Some sp \<longrightarrow>
      (if output_token_ids r = [] then check_stop r L = Inl IndexError
       else \<exists>stopped r'. check_stop r L = Inr (stopped, r') \<and>
         (stopped \<longleftrightarrow> token_stops sp (last (output_token_ids r)) \<or> length_capped r L \<or> repeats sp r) \<and>
         (if stopped
          then get_finished_reason r' =
            Some (if token_stops sp (last (output_token_ids r)) then REASON_STOP
                  else if length_capped r L then REASON_LENGTH else REASON_REPETITION)
          else r' = r)))"
proof (intro conjI impI allI)
  show "check_stop r L = Inl AssertionError" if "pooling_params r \<noteq> None \<or> sampling_params r = None"
    using that by (rule check_stop_errors)
next
  fix sp assume sp: "pooling_params r = None \<and> sampling_params r = Some sp"
  show "if output_token_ids r = [] then check_stop r L = Inl IndexError
       else \<exists>stopped r'. check_stop r L = Inr (stopped, r') \<and>
         (stopped \<longleftrightarrow> token_stops sp (last (output_token_ids r)) \<or> length_capped r L \<or> repeats sp r) \<and>
         (if stopped
          then get_finished_reason r' =
            Some (if token_stops sp (last (output_token_ids r)) then REASON_STOP
                  else if length_capped r L then REASON_LENGTH else REASON_REPETITION)
          else r' = r)"
  proof (cases "output_token_ids r = []")
    case False
    obtain reason where "check_stop r L =
        (case stop_status sp r L of None \<Rightarrow> Inr (False, r)
         | Some st \<Rightarrow> Inr (True, r\<lparr>status := st, stop_reason := reason\<rparr>))"
      using check_stop_eq [of r sp L] sp False by auto
    then show ?thesis using False by (auto simp: stop_status_def get_finished_reason_def)
  qed (use check_stop_errors(2) sp in auto)
qed

theorem check_stop_correct_witness:
  "\<exists>stopped r'. check_stop ((sample_request [1, 2, 3])\<lparr>output_token_ids := [5]\<rparr>) 4096 = Inr (stopped, r') \<and>
     \<not> stopped \<and> r' = (sample_request [1, 2, 3])\<lparr>output_token_ids := [5]\<rparr>"
proof -
  let ?r = "(sample_request [1, 2, 3])\<lparr>output_token_ids := [5]\<rparr>"
  have sp: "pooling_params ?r = None" "sampling_params ?r = Some sample_params"
    using sample_generating(1) by (simp_all add: generating_def)
  have no: "\<not> token_stops sample_params 5" "\<not> length_capped ?r 4096" "\<not> repeats sample_params ?r"
    by (simp add: token_stops_def sample_params_def)
      (simp_all add: length_capped_def repeats_def num_tokens_def num_output_tokens_def
        sample_generating(2) sample_params_def, code_simp)
  show ?thesis
    using check_stop_correct [of ?r 4096] sp no by auto
qed

text \<open>C28. Appending sampled tokens keeps a request coherent. The call raises nothing when the returned
  tokens do not exceed the placeholders; it keeps a prefix of the tokens (all of them unless the
  request stops), appends exactly that prefix to both token lists, keeps the block hashes equal to
  the chain over the tokens, takes the trimmed tokens off the computed count, and finishes the
  request exactly when it reports a stop.\<close>

theorem update_with_output_correct:
  assumes "generating env bs l sp r" "0 < bs" "\<not> status_is_finished (status r)"
    and "is_stale \<or> num_output_placeholders r \<le> 0 \<or> int (length toks) \<le> num_output_placeholders r"
  shows "\<exists>k stopped r'.
    update_request_with_output (Some (request_block_hasher env (int bs) (int l))) L r toks is_stale =
      Inr (take k toks, stopped, r') \<and>
    output_token_ids r' = output_token_ids r @ take k toks \<and>
    all_token_ids r' = all_token_ids r @ take k toks \<and> hashes_ok env bs l r' \<and>
    (stopped \<longleftrightarrow> is_finished r') \<and> (\<not> stopped \<longrightarrow> k = length toks) \<and> k \<le> length toks \<and>
    num_computed_tokens r' =
      num_computed_tokens r - (if stopped \<and> \<not> is_stale then int (length toks) - int k else 0)"
proof -
  obtain kept stopped r' where k: "update_request_with_output (Some (request_block_hasher env (int bs) (int l))) L
      r toks is_stale =
      Inr (kept, stopped, r'\<lparr>num_output_placeholders :=
        (if is_stale \<or> num_output_placeholders r \<le> 0 then num_output_placeholders r
         else num_output_placeholders r - int (length toks))\<rparr>)"
    "loop_result env bs l sp is_stale (int (length toks) - int (length kept)) toks r kept stopped r'"
    using update_request_with_output_spec [OF assms(1,2,4), of L] by blast
  let ?r' = "r'\<lparr>num_output_placeholders :=
        (if is_stale \<or> num_output_placeholders r \<le> 0 then num_output_placeholders r
         else num_output_placeholders r - int (length toks))\<rparr>"
  have kept: "take (length kept) toks = kept" "length kept \<le> length toks"
    using k(2) by (auto simp: loop_result_def)
  have "\<not> stopped \<longrightarrow> length kept = length toks" "stopped \<longleftrightarrow> is_finished ?r'" "hashes_ok env bs l ?r'"
    using k(2) assms(3) by (auto simp: loop_result_def generating_def is_finished_def split: if_splits)
  moreover have "output_token_ids ?r' = output_token_ids r @ kept" "all_token_ids ?r' = all_token_ids r @ kept"
    "num_computed_tokens ?r' = num_computed_tokens r -
       (if stopped \<and> \<not> is_stale then int (length toks) - int (length kept) else 0)"
    using k(2) by (simp_all add: loop_result_def extended_def)
  ultimately show ?thesis
    using k(1) kept by (intro exI [of _ "length kept"] exI [of _ stopped] exI [of _ ?r']) simp
qed

theorem update_with_output_correct_witness:
  "\<exists>k stopped r'. update_request_with_output (Some (request_block_hasher sample_env 2 1)) 4096
       (sample_request [1, 2, 3]) [5, 6] False = Inr (take k [5, 6], stopped, r') \<and>
     output_token_ids r' = output_token_ids (sample_request [1, 2, 3]) @ take k [5, 6] \<and>
     hashes_ok sample_env 2 1 r'"
proof -
  have "\<not> status_is_finished (status (sample_request [1, 2, 3]))"
    by (simp add: sample_generating(5) status_is_finished_iff)
  from update_with_output_correct [OF sample_generating(1) _ this, of False "[5, 6]" 4096]
  show ?thesis using sample_generating(4) by auto
qed

text \<open>C29. Generation ends: whatever tokens the model samples, a request that has not reached its token
  limit is finished once as many tokens as the limit leaves have been returned, in whatever
  batches, and it never holds more output tokens than its limit.\<close>

theorem generation_ends:
  assumes "generating env bs l sp r" "0 < bs" "num_output_placeholders r = 0"
    and "num_output_tokens r < max_tokens r"
    and "max_tokens r \<le> num_output_tokens r + int (length (concat batches))"
  shows "\<exists>r'. feed_outputs (Some (request_block_hasher env (int bs) (int l))) L batches r = Inr (True, r') \<and>
    is_finished r' \<and> num_output_tokens r' \<le> max_tokens r"
  using assms
proof (induction batches arbitrary: r)
  case (Cons toks batches)
  let ?h = "Some (request_block_hasher env (int bs) (int l))"
  obtain kept stopped r' where k: "update_request_with_output ?h L r toks False = Inr (kept, stopped, r'\<lparr>num_output_placeholders := 0\<rparr>)"
    "loop_result env bs l sp False (int (length toks) - int (length kept)) toks r kept stopped r'"
    "num_output_tokens r' \<le> max_tokens r"
    "toks \<noteq> [] \<and> max_tokens r - num_output_tokens r \<le> int (length toks) \<longrightarrow> stopped"
    using update_request_with_output_spec [OF Cons.prems(1,2), of False toks L] Cons.prems(3,4) by auto
  let ?r' = "r'\<lparr>num_output_placeholders := 0\<rparr>"
  show ?case
  proof (cases stopped)
    case True
    then show ?thesis
      using k by (auto simp: loop_result_def is_finished_def num_output_tokens_def)
  next
    case False
    then have kept: "kept = toks" and ex: "extended toks r r'" and gen: "generating env bs l sp ?r'"
      using k(2) by (auto simp: loop_result_def generating_def)
    have out: "num_output_tokens ?r' = num_output_tokens r + int (length toks)" "max_tokens ?r' = max_tokens r"
      using ex by (auto simp: extended_def num_output_tokens_def)
    have "num_output_tokens ?r' < max_tokens ?r'"
      using k(4) False out Cons.prems(4) by (cases toks) auto
    then have "\<exists>r''. feed_outputs ?h L batches ?r' = Inr (True, r'') \<and> is_finished r'' \<and>
        num_output_tokens r'' \<le> max_tokens ?r'"
      using Cons.prems(5) out by (intro Cons.IH [OF gen Cons.prems(2)]) auto
    then show ?thesis using k(1) False out by simp
  qed
qed simp

theorem generation_ends_witness:
  "\<exists>r'. feed_outputs (Some (request_block_hasher sample_env 2 1)) 4096 (replicate 16 [5]) (sample_request [1, 2, 3]) =
       Inr (True, r') \<and> is_finished r' \<and> num_output_tokens r' \<le> 16"
  using generation_ends [OF sample_generating(1), of "replicate 16 [5]" 4096]
  by (simp add: sample_generating)

end
