(* ===== verification/Cache_Policy.thy ===== *)
theory Cache_Policy
  imports Block_Hash
begin

text \<open>
  Replacement policies of the CPU tier of KV offloading (\<open>v1/kv_offload/cpu/policies\<close>): the abstract
  class \<open>CachePolicy\<close> as a record of operations and the locale \<open>cache_policy\<close> with its contract. A
  chunk object is reached through the policy that holds it, so the assignments the manager makes to
  \<open>chunk.ref_cnt\<close> are the operation \<open>poke\<close>. Python sets are lists. The built-in policies are the
  theories \<open>Lru_Policy\<close> and \<open>Arc_Policy\<close>.
\<close>

section \<open>Ordered dictionaries\<close>

text \<open>\<open>OrderedDict.move_to_end\<close>; a key that is missing leaves the dictionary as it is.\<close>

definition move_to_end :: "'k \<Rightarrow> ('k, 'v) dict \<Rightarrow> ('k, 'v) dict" where
  "move_to_end key d = (case dict_get d key of None \<Rightarrow> d | Some v \<Rightarrow> dict_del key d @ [(key, v)])"

lemma dict_get_in: "dict_get d k \<noteq> None \<longleftrightarrow> k \<in> fst ` set d"
  by (metis map_of_eq_None_iff)

lemma keys_dict_set [simp]: "fst ` set (dict_set k v d) = insert k (fst ` set d)"
  using arg_cong [OF update_keys, of set k v d] by (auto split: if_splits)

lemma keys_dict_del [simp]: "fst ` set (dict_del k d) = fst ` set d - {k}"
  using arg_cong [OF delete_keys, of set k d] by simp

lemma move_to_end_get [simp]: "dict_get (move_to_end k d) x = dict_get d x"
  by (auto simp: move_to_end_def dict_get_del map_add_def split: option.splits)

lemma move_to_end_keys [simp]: "fst ` set (move_to_end k d) = fst ` set d"
  by (rule set_eqI) (metis dict_get_in move_to_end_get)

lemma move_to_end_distinct [simp]: "distinct (map fst d) \<Longrightarrow> distinct (map fst (move_to_end k d))"
  by (auto simp: move_to_end_def distinct_delete dest: delete_notin_dom [THEN notE] split: option.splits)

lemma move_to_end_map [simp]: "map_of (move_to_end k d) = map_of d"
  by (rule ext) simp

section \<open>Keys, chunks and request contexts\<close>

type_synonym offload_key = bytes

definition make_offload_key :: "bytes \<Rightarrow> int \<Rightarrow> offload_key result" where
  "make_offload_key block_hash group_idx = rbind (to_bytes4 group_idx) (\<lambda>g. Inr (block_hash @ g))"

definition get_offload_block_hash :: "offload_key \<Rightarrow> bytes" where
  "get_offload_block_hash key = py_slice key 0 (- 4)"

definition get_offload_group_idx :: "offload_key \<Rightarrow> int" where
  "get_offload_group_idx key = from_bytes (py_slice key (- 4) (int (length key)))"

text \<open>The reference count is a C \<open>int32\<close>: an assignment keeps the low 32 bits.\<close>

definition c_int32 :: "int \<Rightarrow> int" where
  "c_int32 x = sint (word_of_int x :: 32 word)"

record chunk_status =
  chunk_ref :: int
  chunk_id :: int

definition chunk_init :: "int \<Rightarrow> chunk_status" where
  "chunk_init i = \<lparr>chunk_ref = - 1, chunk_id = i\<rparr>"

definition is_ready :: "chunk_status \<Rightarrow> bool" where
  "is_ready c \<longleftrightarrow> chunk_ref c \<ge> 0"

text \<open>The per-request state of the LRU policy and of the manager. Objects that own a state are named
  by a number.\<close>

record request_rank =
  rank_owner :: nat
  rank_generation :: int
  rank_value :: int

record request_cache_access =
  access_owner :: nat
  access_generation :: int
  key_groups :: "(int, offload_key list) dict"
  seen_keys :: "offload_key list"
  inserted_keys :: "offload_key list"
  reused_keys :: "offload_key list"
  store_miss_keys :: "offload_key list"
  counted_keys :: "offload_key list"
  access_finished :: bool

record req_context =
  req_id :: string
  state_rank :: "request_rank option"
  state_access :: "request_cache_access option"
  offload_key_positions :: "(offload_key, int) dict"

definition req_context_init :: "string \<Rightarrow> req_context" where
  "req_context_init rid =
     \<lparr>req_id = rid, state_rank = None, state_access = None, offload_key_positions = []\<rparr>"

definition set_offload_key_position :: "offload_key \<Rightarrow> int \<Rightarrow> req_context \<Rightarrow> req_context" where
  "set_offload_key_position key end_token ctx =
     ctx\<lparr>offload_key_positions := dict_set key end_token (offload_key_positions ctx)\<rparr>"

definition get_offload_key_position :: "req_context \<Rightarrow> offload_key \<Rightarrow> int option" where
  "get_offload_key_position ctx key = dict_get (offload_key_positions ctx) key"

definition order_request_keys :: "offload_key list list \<Rightarrow> req_context \<Rightarrow> offload_key list" where
  "order_request_keys groups ctx =
     (let keys = concat groups;
          positioned = remdups (filter (\<lambda>k. get_offload_key_position ctx k \<noteq> None) keys)
      in if length positioned = length keys
         then sort_key (\<lambda>k. case get_offload_key_position ctx k of Some p \<Rightarrow> p | None \<Rightarrow> 0) keys
         else keys)"

section \<open>The interface\<close>

record 'p cache_policy_ops =
  cp_get :: "'p \<Rightarrow> offload_key \<Rightarrow> chunk_status option"
  cp_poke :: "offload_key \<Rightarrow> int \<Rightarrow> 'p \<Rightarrow> 'p"
  cp_insert :: "offload_key \<Rightarrow> chunk_status \<Rightarrow> req_context \<Rightarrow> 'p \<Rightarrow> 'p \<times> req_context"
  cp_remove :: "offload_key \<Rightarrow> 'p \<Rightarrow> 'p result"
  cp_on_store_miss :: "offload_key list \<Rightarrow> req_context \<Rightarrow> 'p \<Rightarrow> 'p"
  cp_on_request_access :: "offload_key list \<Rightarrow> req_context \<Rightarrow> 'p \<Rightarrow> ('p \<times> req_context) result"
  cp_on_request_finished :: "offload_key list list \<Rightarrow> offload_key list \<Rightarrow> offload_key list \<Rightarrow> req_context \<Rightarrow>
    'p \<Rightarrow> 'p result"
  cp_evict :: "nat \<Rightarrow> offload_key list \<Rightarrow> 'p \<Rightarrow> ((offload_key \<times> chunk_status) list option \<times> 'p) result"
  cp_clear :: "'p \<Rightarrow> 'p"
  cp_mark_evictable :: "offload_key \<Rightarrow> 'p \<Rightarrow> 'p result"
  cp_mark_non_evictable :: "offload_key \<Rightarrow> 'p \<Rightarrow> 'p result"

text \<open>Assignment to the reference count of the chunk stored under a key of a dictionary.\<close>

definition poke_chunk ::
  "offload_key \<Rightarrow> int \<Rightarrow> (offload_key, chunk_status) dict \<Rightarrow> (offload_key, chunk_status) dict" where
  "poke_chunk key n d =
     (case dict_get d key of None \<Rightarrow> d | Some c \<Rightarrow> dict_set key (c\<lparr>chunk_ref := c_int32 n\<rparr>) d)"

lemma c_int32_id: "- (2 ^ 31) \<le> x \<Longrightarrow> x < 2 ^ 31 \<Longrightarrow> c_int32 x = x"
  by (simp add: c_int32_def sint_sbintrunc' signed_take_bit_int_eq_self_iff)

lemma poke_chunk_get:
  "dict_get (poke_chunk key n d) k =
     (if k = key then map_option (\<lambda>c. c\<lparr>chunk_ref := c_int32 n\<rparr>) (dict_get d k) else dict_get d k)"
  by (simp add: poke_chunk_def dict_get_set split: option.splits)

lemma poke_chunk_keys [simp]:
  "distinct (map fst (poke_chunk key n d)) = distinct (map fst d)"
  "fst ` set (poke_chunk key n d) = fst ` set d"
proof -
  have keys: "map fst (poke_chunk key n d) = map fst d"
    by (auto simp: poke_chunk_def update_keys map_of_eq_None_iff split: option.splits
        dest!: map_of_SomeD)
  show "distinct (map fst (poke_chunk key n d)) = distinct (map fst d)" by (simp add: keys)
  show "fst ` set (poke_chunk key n d) = fst ` set d"
    using arg_cong [OF keys, of set] by simp
qed

text \<open>A chunk is idle when no transfer uses it.\<close>

definition idle_keys :: "(offload_key \<Rightarrow> chunk_status option) \<Rightarrow> offload_key set" where
  "idle_keys get = {k. \<exists>c. get k = Some c \<and> chunk_ref c = 0}"

text \<open>The contract of a policy. \<open>inv\<close> is the policy's own invariant, kept between the calls of the
  manager; a chunk is pinned or released by a call of the policy together with the assignment to
  its reference count.\<close>

locale cache_policy =
  fixes ops :: "'p cache_policy_ops" and inv :: "'p \<Rightarrow> bool"
  assumes get_finite: "inv p \<Longrightarrow> finite (dom (cp_get ops p))"
    and insert_law: "inv p \<Longrightarrow> cp_get ops p k = None \<Longrightarrow> chunk_ref c = - 1 \<Longrightarrow>
      cp_insert ops k c ctx p = (p', ctx') \<Longrightarrow>
      inv p' \<and> cp_get ops p' = (cp_get ops p)(k \<mapsto> c) \<and> state_access ctx' = state_access ctx"
    and remove_law: "inv p \<Longrightarrow> cp_get ops p k = Some c \<Longrightarrow>
      \<exists>p'. cp_remove ops k p = Inr p' \<and> inv p' \<and> cp_get ops p' = (cp_get ops p)(k := None)"
    and store_miss_law: "inv p \<Longrightarrow>
      inv (cp_on_store_miss ops keys ctx p) \<and> cp_get ops (cp_on_store_miss ops keys ctx p) = cp_get ops p"
    and access_law: "inv p \<Longrightarrow>
      \<exists>p' ctx'. cp_on_request_access ops keys ctx p = Inr (p', ctx') \<and> inv p' \<and>
        cp_get ops p' = cp_get ops p \<and> state_access ctx' = state_access ctx"
    and finished_law: "inv p \<Longrightarrow>
      \<exists>p'. cp_on_request_finished ops groups ins reused ctx p = Inr p' \<and> inv p' \<and>
        cp_get ops p' = cp_get ops p"
    and evict_enough: "inv p \<Longrightarrow> n \<le> card (idle_keys (cp_get ops p) - set protected) \<Longrightarrow>
      \<exists>ev p'. cp_evict ops n protected p = Inr (Some ev, p') \<and> inv p' \<and> length ev = n \<and>
        distinct (map fst ev) \<and>
        (\<forall>(k, c) \<in> set ev. cp_get ops p k = Some c \<and> chunk_ref c = 0 \<and> k \<notin> set protected) \<and>
        cp_get ops p' = (\<lambda>k. if k \<in> fst ` set ev then None else cp_get ops p k)"
    and evict_short: "inv p \<Longrightarrow> card (idle_keys (cp_get ops p) - set protected) < n \<Longrightarrow>
      \<exists>p'. cp_evict ops n protected p = Inr (None, p') \<and> inv p' \<and> cp_get ops p' = cp_get ops p"
    and clear_law: "inv p \<Longrightarrow> inv (cp_clear ops p) \<and> cp_get ops (cp_clear ops p) = (\<lambda>_. None)"
    and pin_law: "inv p \<Longrightarrow> cp_get ops p k = Some c \<Longrightarrow> chunk_ref c = 0 \<Longrightarrow> 0 < m \<Longrightarrow> m < 2 ^ 31 \<Longrightarrow>
      \<exists>p'. cp_mark_non_evictable ops k p = Inr p' \<and> inv (cp_poke ops k m p') \<and>
        cp_get ops (cp_poke ops k m p') = (cp_get ops p)(k \<mapsto> c\<lparr>chunk_ref := m\<rparr>)"
    and repin_law: "inv p \<Longrightarrow> cp_get ops p k = Some c \<Longrightarrow> chunk_ref c \<noteq> 0 \<Longrightarrow> 0 < m \<Longrightarrow> m < 2 ^ 31 \<Longrightarrow>
      inv (cp_poke ops k m p) \<and> cp_get ops (cp_poke ops k m p) = (cp_get ops p)(k \<mapsto> c\<lparr>chunk_ref := m\<rparr>)"
    and release_law: "inv p \<Longrightarrow> cp_get ops p k = Some c \<Longrightarrow> chunk_ref c \<noteq> 0 \<Longrightarrow>
      \<exists>p'. cp_mark_evictable ops k (cp_poke ops k 0 p) = Inr p' \<and> inv p' \<and>
        cp_get ops p' = (cp_get ops p)(k \<mapsto> c\<lparr>chunk_ref := 0\<rparr>)"

end
