(* ===== verification/Offload_Manager.thy ===== *)
theory Offload_Manager
  imports Cache_Policy "HOL-Library.Multiset"
begin

text \<open>
  \<open>CPUOffloadingManager\<close> (\<open>v1/kv_offload/cpu/manager.py\<close>) over any policy that meets the contract
  \<open>cache_policy\<close>. A manager is a record; every method is a function of the operations of its policy.
  A request context that a method changes is returned with the manager. Floating-point ratios are
  rationals. The static configuration facts of \<open>config_info\<close> are left out.
\<close>

section \<open>State\<close>

datatype medium = MediumCPU | MediumSTORAGE

datatype lookup_result = LookupMiss | LookupHit | LookupHitPending | LookupRetry

record offloading_event =
  event_keys :: "offload_key list"
  event_medium :: medium
  event_removed :: bool
  event_metadata_only :: bool
  event_req_context :: "req_context option"

record prepare_store_output =
  keys_to_store :: "offload_key list"
  store_spec :: "int list"
  evicted_keys :: "offload_key list"

record 'p offload_manager =
  om_owner :: nat
  om_num_chunks :: int
  om_num_allocated :: int
  om_free_list :: "int list"
  om_events :: "offloading_event list option"
  om_policy :: 'p
  om_num_evictable :: int
  om_num_write_pending :: int
  om_store_threshold :: int
  om_max_tracker_size :: int
  om_stores_skipped :: int
  om_allocation_sizes :: "int list"
  om_generation :: int
  om_counts :: "(offload_key, int) dict option"

definition om_init :: "nat \<Rightarrow> int \<Rightarrow> 'p \<Rightarrow> bool \<Rightarrow> int \<Rightarrow> int \<Rightarrow> 'p offload_manager" where
  "om_init owner num_chunks policy enable_events store_threshold max_tracker_size =
     \<lparr>om_owner = owner, om_num_chunks = num_chunks, om_num_allocated = 0, om_free_list = [],
      om_events = (if enable_events then Some [] else None), om_policy = policy,
      om_num_evictable = 0, om_num_write_pending = 0, om_store_threshold = store_threshold,
      om_max_tracker_size = max_tracker_size, om_stores_skipped = 0, om_allocation_sizes = [],
      om_generation = 0, om_counts = (if store_threshold \<ge> 2 then Some [] else None)\<rparr>"

section \<open>Chunk pool\<close>

definition get_num_free_chunks :: "'p offload_manager \<Rightarrow> int" where
  "get_num_free_chunks m = int (length (om_free_list m)) + om_num_chunks m - om_num_allocated m"

text \<open>Fresh chunks are numbered from the allocation counter; reused ones are popped from the end of
  the free list.\<close>

definition allocate_chunks ::
  "offload_key list \<Rightarrow> 'p offload_manager \<Rightarrow> (chunk_status list \<times> 'p offload_manager) result" where
  "allocate_chunks keys m =
     (let num_fresh = min (int (length keys)) (om_num_chunks m - om_num_allocated m);
          num_reused = int (length keys) - num_fresh;
          free = om_free_list m
      in rbind (py_assert (int (length free) \<ge> num_reused)) (\<lambda>_.
         Inr (map chunk_init (py_range (om_num_allocated m) (om_num_allocated m + num_fresh)) @
              map chunk_init (take (nat num_reused) (rev free)),
              m\<lparr>om_num_allocated := om_num_allocated m + max 0 num_fresh,
                om_free_list := take (length free - nat num_reused) free\<rparr>)))"

definition om_free_chunk :: "chunk_status \<Rightarrow> 'p offload_manager \<Rightarrow> 'p offload_manager" where
  "om_free_chunk chunk m = m\<lparr>om_free_list := om_free_list m @ [chunk_id chunk]\<rparr>"

definition get_load_store_spec :: "chunk_status list \<Rightarrow> int list" where
  "get_load_store_spec chunks = map chunk_id chunks"

section \<open>The store threshold\<close>

text \<open>The first loop of \<open>_record_accesses\<close> returns the counts and the set of protected keys; the second
  one carries the number of unprotected entries.\<close>

fun record_tracked ::
  "offload_key list \<Rightarrow> offload_key list \<Rightarrow> (offload_key, int) dict \<Rightarrow> offload_key list \<Rightarrow>
   (offload_key, int) dict \<times> offload_key list" where
  "record_tracked counted [] counts protected = (counts, protected)"
| "record_tracked counted (key # keys) counts protected =
     (case dict_get counts key of
        None \<Rightarrow> record_tracked counted keys counts protected
      | Some n \<Rightarrow>
          (let counts1 = move_to_end key counts;
               counts2 = (if key \<notin> set counted then dict_set key (n + 1) counts1 else counts1)
           in record_tracked counted keys counts2 (List.insert key protected)))"

fun record_new ::
  "int \<Rightarrow> offload_key list \<Rightarrow> int \<Rightarrow> (offload_key, int) dict \<Rightarrow> (offload_key, int) dict result" where
  "record_new max_size [] num_unprotected counts = Inr counts"
| "record_new max_size (key # keys) num_unprotected counts =
     (if dict_get counts key \<noteq> None then record_new max_size keys num_unprotected counts
      else if int (length counts) \<ge> max_size
      then if num_unprotected = 0 then record_new max_size keys num_unprotected counts
           else if counts = [] then Inl KeyError
           else record_new max_size keys (num_unprotected - 1) (dict_set key 1 (tl counts))
      else record_new max_size keys num_unprotected (dict_set key 1 counts))"

definition record_accesses ::
  "offload_key list \<Rightarrow> offload_key list \<Rightarrow> 'p offload_manager \<Rightarrow> 'p offload_manager result" where
  "record_accesses keys counted m =
     (case om_counts m of
        None \<Rightarrow> Inl AssertionError
      | Some counts \<Rightarrow>
          (let (counts1, protected) = record_tracked counted keys counts [];
               num_unprotected = int (length counts1) - int (length protected)
           in rbind (record_new (om_max_tracker_size m) keys num_unprotected counts1) (\<lambda>counts2.
                Inr (m\<lparr>om_counts := Some counts2\<rparr>))))"

section \<open>Accesses of a request\<close>

definition new_cache_access :: "'p offload_manager \<Rightarrow> request_cache_access" where
  "new_cache_access m =
     \<lparr>access_owner = om_owner m, access_generation = om_generation m, key_groups = [], seen_keys = [],
      inserted_keys = [], reused_keys = [], store_miss_keys = [], counted_keys = [],
      access_finished = False\<rparr>"

definition get_request_cache_access ::
  "'p offload_manager \<Rightarrow> req_context \<Rightarrow> request_cache_access \<times> req_context" where
  "get_request_cache_access m ctx =
     (case state_access ctx of
        None \<Rightarrow> (new_cache_access m, ctx\<lparr>state_access := Some (new_cache_access m)\<rparr>)
      | Some st \<Rightarrow>
          (if access_owner st \<noteq> om_owner m \<or> access_generation st \<noteq> om_generation m
           then (new_cache_access m, ctx\<lparr>state_access := Some (new_cache_access m)\<rparr>)
           else (st, ctx)))"

definition set_update :: "'a list \<Rightarrow> 'a list \<Rightarrow> 'a list" where
  "set_update s xs = fold List.insert xs s"

fun observe_keys ::
  "offload_key list \<Rightarrow> offload_key list \<Rightarrow> request_cache_access \<Rightarrow>
   (offload_key list \<times> request_cache_access) result" where
  "observe_keys [] new_keys st = Inr (new_keys, st)"
| "observe_keys (key # keys) new_keys st =
     (if key \<in> set (seen_keys st) then observe_keys keys new_keys st
      else rbind (py_assert (\<not> access_finished st)) (\<lambda>_.
        let group_idx = get_offload_group_idx key;
            group = (case dict_get (key_groups st) group_idx of None \<Rightarrow> [] | Some g \<Rightarrow> g)
        in observe_keys keys (new_keys @ [key])
             (st\<lparr>key_groups := dict_set group_idx (group @ [key]) (key_groups st),
                 seen_keys := List.insert key (seen_keys st)\<rparr>)))"

definition record_request_cache_access ::
  "'p cache_policy_ops \<Rightarrow> offload_key list \<Rightarrow> offload_key list \<Rightarrow> offload_key list \<Rightarrow> req_context \<Rightarrow>
   'p offload_manager \<Rightarrow> ('p offload_manager \<times> req_context) result" where
  "record_request_cache_access ops keys inserted reused ctx m =
     (let (st, ctx1) = get_request_cache_access m ctx
      in rbind (observe_keys keys [] st) (\<lambda>(new_keys, st1).
         rbind (if new_keys \<noteq> []
                then cp_on_request_access ops new_keys (ctx1\<lparr>state_access := Some st1\<rparr>) (om_policy m)
                else Inr (om_policy m, ctx1\<lparr>state_access := Some st1\<rparr>)) (\<lambda>(policy, ctx2).
           let ins = set_update (inserted_keys st1) inserted;
               st2 = st1\<lparr>inserted_keys := ins,
                         reused_keys := set_update (reused_keys st1) (filter (\<lambda>k. k \<notin> set ins) reused)\<rparr>
           in Inr (m\<lparr>om_policy := policy\<rparr>, ctx2\<lparr>state_access := Some st2\<rparr>))))"

definition on_new_request :: "'p offload_manager \<Rightarrow> req_context \<Rightarrow> req_context" where
  "on_new_request m ctx = snd (get_request_cache_access m ctx)"

section \<open>Loads\<close>

definition om_lookup :: "'p cache_policy_ops \<Rightarrow> offload_key \<Rightarrow> 'p offload_manager \<Rightarrow> lookup_result" where
  "om_lookup ops key m =
     (case cp_get ops (om_policy m) key of
        None \<Rightarrow> LookupMiss
      | Some chunk \<Rightarrow> if \<not> is_ready chunk then LookupHitPending else LookupHit)"

definition pin_chunk ::
  "'p cache_policy_ops \<Rightarrow> offload_key \<Rightarrow> 'p offload_manager \<times> int list \<Rightarrow>
   ('p offload_manager \<times> int list) result" where
  "pin_chunk ops key s =
     (let m = fst s in
      rbind (of_option AssertionError (cp_get ops (om_policy m) key)) (\<lambda>chunk.
      rbind (py_assert (is_ready chunk)) (\<lambda>_.
      rbind (if chunk_ref chunk = 0
             then rbind (cp_mark_non_evictable ops key (om_policy m)) (\<lambda>policy.
                  rbind (py_assert (om_num_evictable m - 1 \<ge> 0)) (\<lambda>_.
                    Inr (m\<lparr>om_policy := policy, om_num_evictable := om_num_evictable m - 1\<rparr>)))
             else Inr m) (\<lambda>m1.
        Inr (m1\<lparr>om_policy := cp_poke ops key (chunk_ref chunk + 1) (om_policy m1)\<rparr>,
             snd s @ [chunk_id chunk])))))"

definition om_prepare_load ::
  "'p cache_policy_ops \<Rightarrow> bool \<Rightarrow> offload_key list \<Rightarrow> req_context \<Rightarrow> 'p offload_manager \<Rightarrow>
   (int list \<times> 'p offload_manager \<times> req_context) result" where
  "om_prepare_load ops record_access keys ctx m =
     rbind (rfold (pin_chunk ops) keys (m, [])) (\<lambda>(m1, ids).
     rbind (if record_access then record_request_cache_access ops keys [] keys ctx m1
            else Inr (m1, ctx)) (\<lambda>(m2, ctx2).
       Inr (ids, m2, ctx2)))"

definition unpin_chunk ::
  "'p cache_policy_ops \<Rightarrow> offload_key \<Rightarrow> 'p offload_manager \<Rightarrow> 'p offload_manager result" where
  "unpin_chunk ops key m =
     rbind (of_option AssertionError (cp_get ops (om_policy m) key)) (\<lambda>chunk.
     rbind (py_assert (chunk_ref chunk > 0)) (\<lambda>_.
       let m1 = m\<lparr>om_policy := cp_poke ops key (chunk_ref chunk - 1) (om_policy m)\<rparr>
       in if chunk_ref chunk - 1 = 0
          then rbind (cp_mark_evictable ops key (om_policy m1)) (\<lambda>policy.
                 Inr (m1\<lparr>om_policy := policy, om_num_evictable := om_num_evictable m + 1\<rparr>))
          else Inr m1))"

definition om_complete_load ::
  "'p cache_policy_ops \<Rightarrow> offload_key list \<Rightarrow> 'p offload_manager \<Rightarrow> 'p offload_manager result" where
  "om_complete_load ops keys m = rfold (unpin_chunk ops) keys m"

section \<open>Stores\<close>

definition partition_offer ::
  "'p cache_policy_ops \<Rightarrow> 'p \<Rightarrow> offload_key list \<Rightarrow> offload_key list \<times> offload_key list" where
  "partition_offer ops policy keys =
     (filter (\<lambda>k. cp_get ops policy k = None) keys,
      filter (\<lambda>k. case cp_get ops policy k of None \<Rightarrow> False | Some c \<Rightarrow> is_ready c) keys)"

text \<open>The admission filter of the store threshold. The request state that is updated is the one in the
  request context.\<close>

definition admit_keys ::
  "offload_key list \<Rightarrow> offload_key list \<Rightarrow> request_cache_access \<Rightarrow> 'p offload_manager \<Rightarrow>
   offload_key list \<times> request_cache_access \<times> 'p offload_manager" where
  "admit_keys keys candidates st m =
     (case om_counts m of
        None \<Rightarrow> (candidates, st, m)
      | Some counts \<Rightarrow>
          (let admitted = (\<lambda>k. (case dict_get counts k of None \<Rightarrow> 0 | Some n \<Rightarrow> n) \<ge> om_store_threshold m)
           in (filter admitted candidates,
               st\<lparr>counted_keys := set_update (counted_keys st) keys\<rparr>,
               m\<lparr>om_stores_skipped := om_stores_skipped m +
                   int (length (filter (\<lambda>k. \<not> admitted k \<and> k \<notin> set (counted_keys st)) candidates))\<rparr>)))"

definition note_store_misses ::
  "'p cache_policy_ops \<Rightarrow> offload_key list \<Rightarrow> request_cache_access \<Rightarrow> req_context \<Rightarrow> 'p offload_manager \<Rightarrow>
   request_cache_access \<times> 'p offload_manager" where
  "note_store_misses ops to_store st ctx m =
     (let new_misses = filter (\<lambda>k. k \<notin> set (store_miss_keys st)) to_store
      in if new_misses \<noteq> []
         then (st\<lparr>store_miss_keys := set_update (store_miss_keys st) new_misses\<rparr>,
               m\<lparr>om_policy := cp_on_store_miss ops new_misses ctx (om_policy m)\<rparr>)
         else (st, m))"

text \<open>Making room: \<open>None\<close> when the eviction cannot succeed, otherwise the evicted keys.\<close>

definition make_room ::
  "'p cache_policy_ops \<Rightarrow> int \<Rightarrow> offload_key list \<Rightarrow> 'p offload_manager \<Rightarrow>
   (offload_key list option \<times> 'p offload_manager) result" where
  "make_room ops num_chunks_to_evict protected m =
     (if num_chunks_to_evict > 0 then
        if num_chunks_to_evict > om_num_evictable m then Inr (None, m)
        else rbind (cp_evict ops (nat num_chunks_to_evict) protected (om_policy m)) (\<lambda>(evicted, policy).
          case evicted of
            None \<Rightarrow> Inr (None, m\<lparr>om_policy := policy\<rparr>)
          | Some ev \<Rightarrow>
              rbind (py_assert (om_num_evictable m - int (length ev) \<ge> 0)) (\<lambda>_.
                Inr (Some (map fst ev),
                     fold om_free_chunk (map snd ev)
                       (m\<lparr>om_policy := policy, om_num_evictable := om_num_evictable m - int (length ev)\<rparr>))))
      else Inr (Some [], m))"

definition add_event :: "bool \<Rightarrow> offloading_event \<Rightarrow> 'p offload_manager \<Rightarrow> 'p offload_manager" where
  "add_event nonempty event m =
     (if nonempty then m\<lparr>om_events := map_option (\<lambda>es. es @ [event]) (om_events m)\<rparr> else m)"

definition insert_chunk ::
  "'p cache_policy_ops \<Rightarrow> offload_key \<times> chunk_status \<Rightarrow> 'p offload_manager \<times> req_context \<Rightarrow>
   'p offload_manager \<times> req_context" where
  "insert_chunk ops entry s =
     (let (policy, ctx) = cp_insert ops (fst entry) (snd entry) (snd s) (om_policy (fst s))
      in ((fst s)\<lparr>om_policy := policy\<rparr>, ctx))"

text \<open>The state object lives in the request context: it is read back from there after the calls that
  change it.\<close>

definition current_access :: "req_context \<Rightarrow> request_cache_access \<Rightarrow> request_cache_access" where
  "current_access ctx st = (case state_access ctx of None \<Rightarrow> st | Some st' \<Rightarrow> st')"

definition store_chunks ::
  "'p cache_policy_ops \<Rightarrow> offload_key list \<Rightarrow> offload_key list \<Rightarrow> request_cache_access \<Rightarrow> req_context \<Rightarrow>
   'p offload_manager \<Rightarrow> (prepare_store_output \<times> 'p offload_manager \<times> req_context) result" where
  "store_chunks ops to_store to_evict st ctx m =
     (let m1 = add_event (to_evict \<noteq> [])
            \<lparr>event_keys = to_evict, event_medium = MediumCPU, event_removed = True,
             event_metadata_only = False, event_req_context = None\<rparr> m
      in rbind (allocate_chunks to_store m1) (\<lambda>(chunks, m2).
         rbind (py_assert (length chunks = length to_store)) (\<lambda>_.
           let (m3, ctx3) = fold (insert_chunk ops) (zip to_store chunks) (m2, ctx);
               m4 = m3\<lparr>om_num_write_pending := om_num_write_pending m3 + int (length to_store)\<rparr>;
               st3 = current_access ctx3 st;
               ctx4 = ctx3\<lparr>state_access := Some (st3\<lparr>inserted_keys := set_update (inserted_keys st3) to_store\<rparr>)\<rparr>
           in Inr (\<lparr>keys_to_store = to_store, store_spec = get_load_store_spec chunks,
                    evicted_keys = to_evict\<rparr>, m4, ctx4))))"

definition store_offer ::
  "'p cache_policy_ops \<Rightarrow> offload_key list \<Rightarrow> offload_key list \<Rightarrow> request_cache_access \<Rightarrow> req_context \<Rightarrow>
   'p offload_manager \<Rightarrow> (prepare_store_output option \<times> 'p offload_manager \<times> req_context) result" where
  "store_offer ops keys to_store st ctx m =
     rbind (make_room ops (int (length to_store) - get_num_free_chunks m) keys m) (\<lambda>(room, m1).
       case room of
         None \<Rightarrow> Inr (None, m1, ctx)
       | Some to_evict \<Rightarrow>
           rbind (store_chunks ops to_store to_evict st ctx m1) (\<lambda>(out, m2, ctx2). Inr (Some out, m2, ctx2)))"

definition om_prepare_store ::
  "'p cache_policy_ops \<Rightarrow> offload_key list \<Rightarrow> req_context \<Rightarrow> 'p offload_manager \<Rightarrow>
   (prepare_store_output option \<times> 'p offload_manager \<times> req_context) result" where
  "om_prepare_store ops keys ctx m =
     (let (st, ctx1) = get_request_cache_access m ctx
      in rbind (if om_counts m \<noteq> None then record_accesses keys (counted_keys st) m else Inr m) (\<lambda>m1.
         let (candidates, ready_existing) = partition_offer ops (om_policy m1) keys;
             (to_store, st2, m2) = admit_keys keys candidates st m1;
             (st3, m3) = note_store_misses ops to_store st2 (ctx1\<lparr>state_access := Some st2\<rparr>) m2;
             recorded = filter (\<lambda>k. k \<in> set to_store \<or> k \<in> set ready_existing) keys
         in rbind (record_request_cache_access ops recorded [] ready_existing
                     (ctx1\<lparr>state_access := Some st3\<rparr>) m3) (\<lambda>(m4, ctx4).
            if to_store = []
            then Inr (Some \<lparr>keys_to_store = [], store_spec = get_load_store_spec [], evicted_keys = []\<rparr>, m4, ctx4)
            else
              store_offer ops keys to_store st3 ctx4
                (m4\<lparr>om_allocation_sizes := om_allocation_sizes m4 @ [int (length to_store)]\<rparr>))))"

definition complete_stored ::
  "'p cache_policy_ops \<Rightarrow> offload_key \<Rightarrow> 'p offload_manager \<times> offload_key list \<Rightarrow>
   ('p offload_manager \<times> offload_key list) result" where
  "complete_stored ops key s =
     (let m = fst s in
      case cp_get ops (om_policy m) key of
        None \<Rightarrow> Inr s
      | Some chunk \<Rightarrow>
          (if is_ready chunk then Inr s
           else rbind (cp_mark_evictable ops key (cp_poke ops key 0 (om_policy m))) (\<lambda>policy.
             Inr (m\<lparr>om_policy := policy, om_num_write_pending := om_num_write_pending m - 1,
                    om_num_evictable := om_num_evictable m + 1\<rparr>, snd s @ [key]))))"

definition drop_failed ::
  "'p cache_policy_ops \<Rightarrow> offload_key \<Rightarrow> 'p offload_manager \<times> offload_key list \<Rightarrow>
   ('p offload_manager \<times> offload_key list) result" where
  "drop_failed ops key s =
     (let m = fst s in
      case cp_get ops (om_policy m) key of
        None \<Rightarrow> Inr s
      | Some chunk \<Rightarrow>
          (if is_ready chunk then Inr s
           else rbind (cp_remove ops key (om_policy m)) (\<lambda>policy.
             Inr (om_free_chunk chunk (m\<lparr>om_policy := policy,
                    om_num_write_pending := om_num_write_pending m - 1\<rparr>), snd s @ [key]))))"

definition om_complete_store ::
  "'p cache_policy_ops \<Rightarrow> offload_key list \<Rightarrow> req_context \<Rightarrow> bool \<Rightarrow> 'p offload_manager \<Rightarrow>
   'p offload_manager result" where
  "om_complete_store ops keys ctx success m =
     (if success
      then rbind (rfold (complete_stored ops) keys (m, [])) (\<lambda>(m1, stored).
             Inr (add_event (stored \<noteq> [])
                    \<lparr>event_keys = stored, event_medium = MediumCPU, event_removed = False,
                     event_metadata_only = False, event_req_context = Some ctx\<rparr> m1))
      else rbind (rfold (drop_failed ops) keys (m, [])) (\<lambda>(m1, removed).
             Inr (add_event (removed \<noteq> [])
                    \<lparr>event_keys = removed, event_medium = MediumCPU, event_removed = True,
                     event_metadata_only = True, event_req_context = None\<rparr> m1)))"

section \<open>End of a request, reset, events and statistics\<close>

definition order_group :: "req_context \<Rightarrow> offload_key list \<Rightarrow> offload_key list" where
  "order_group ctx keys =
     (let positioned = remdups (filter (\<lambda>k. get_offload_key_position ctx k \<noteq> None) keys)
      in if length positioned = length keys
         then sort_key (\<lambda>k. case get_offload_key_position ctx k of Some p \<Rightarrow> p | None \<Rightarrow> 0) keys
         else keys)"

definition om_on_request_finished ::
  "'p cache_policy_ops \<Rightarrow> req_context \<Rightarrow> 'p offload_manager \<Rightarrow> ('p offload_manager \<times> req_context) result" where
  "om_on_request_finished ops ctx m =
     (case state_access ctx of
        None \<Rightarrow> Inr (m, ctx)
      | Some st \<Rightarrow>
          (if access_owner st \<noteq> om_owner m \<or> access_generation st \<noteq> om_generation m \<or> access_finished st
           then Inr (m, ctx)
           else
             let ctx1 = ctx\<lparr>state_access := Some (st\<lparr>access_finished := True\<rparr>)\<rparr>;
                 groups = map (\<lambda>g. order_group ctx1 (case dict_get (key_groups st) g of None \<Rightarrow> [] | Some ks \<Rightarrow> ks))
                            (sort (map fst (key_groups st)))
             in rbind (cp_on_request_finished ops groups
                         (filter (\<lambda>k. k \<notin> set (reused_keys st)) (inserted_keys st)) (reused_keys st) ctx1
                         (om_policy m)) (\<lambda>policy.
                  Inr (m\<lparr>om_policy := policy\<rparr>, ctx1))))"

definition om_reset_cache :: "'p cache_policy_ops \<Rightarrow> 'p offload_manager \<Rightarrow> 'p offload_manager" where
  "om_reset_cache ops m =
     m\<lparr>om_policy := cp_clear ops (om_policy m), om_generation := om_generation m + 1,
       om_num_evictable := 0, om_num_write_pending := 0, om_free_list := [], om_num_allocated := 0\<rparr>"

fun drain_events :: "'p cache_policy_ops \<Rightarrow> 'p \<Rightarrow> offloading_event list \<Rightarrow> offloading_event list" where
  "drain_events ops policy [] = []"
| "drain_events ops policy (event # evs) =
     (if event_metadata_only event
      then let keys = filter (\<lambda>k. cp_get ops policy k = None) (event_keys event)
           in if keys = [] then drain_events ops policy evs
              else event\<lparr>event_keys := keys\<rparr> # drain_events ops policy evs
      else event # drain_events ops policy evs)"

definition om_take_events ::
  "'p cache_policy_ops \<Rightarrow> 'p offload_manager \<Rightarrow> offloading_event list \<times> 'p offload_manager" where
  "om_take_events ops m =
     (case om_events m of
        None \<Rightarrow> ([], m)
      | Some evs \<Rightarrow> (drain_events ops (om_policy m) evs, m\<lparr>om_events := Some []\<rparr>))"

record offload_stats =
  cache_usage :: rat
  allocation_size_samples :: "int list"
  write_usage :: rat
  read_usage :: rat
  stores_skipped_count :: "int option"

definition om_get_stats :: "'p offload_manager \<Rightarrow> offload_stats \<times> 'p offload_manager" where
  "om_get_stats m =
     (let num_used = om_num_allocated m - int (length (om_free_list m)) - om_num_evictable m;
          usage = (if om_num_chunks m > 0 then of_int num_used / of_int (om_num_chunks m) else 0);
          write = (if om_num_chunks m > 0
                   then of_int (om_num_write_pending m) / of_int (om_num_chunks m) else 0);
          m1 = m\<lparr>om_allocation_sizes := []\<rparr>
      in (\<lparr>cache_usage = usage, allocation_size_samples = om_allocation_sizes m, write_usage = write,
           read_usage = max (usage - write) 0,
           stores_skipped_count = (if om_store_threshold m \<ge> 2 then Some (om_stores_skipped m) else None)\<rparr>,
          if om_store_threshold m \<ge> 2 then m1\<lparr>om_stores_skipped := 0\<rparr> else m1))"

end
