(* ===== verification/Offload_Invariant.thy ===== *)
theory Offload_Invariant
  imports Offload_Manager
begin

text \<open>
  Invariants of \<open>CPUOffloadingManager\<close>, proved once over the contract \<open>cache_policy\<close>: the chunk slots are
  partitioned between the free list and the resident keys, the counters count, and no method raises
  on the inputs its callers may pass.
\<close>

section \<open>The chunk pool\<close>

definition pending_keys :: "(offload_key \<Rightarrow> chunk_status option) \<Rightarrow> offload_key set" where
  "pending_keys get = {k. \<exists>c. get k = Some c \<and> chunk_ref c = - 1}"

definition chunk_pool_ok :: "(offload_key \<Rightarrow> chunk_status option) \<Rightarrow> int list \<Rightarrow> int \<Rightarrow> bool" where
  "chunk_pool_ok get free alloc \<longleftrightarrow>
     finite (dom get) \<and> distinct free \<and>
     (\<forall>k k' c c'. get k = Some c \<longrightarrow> get k' = Some c' \<longrightarrow> chunk_id c = chunk_id c' \<longrightarrow> k = k') \<and>
     set free \<inter> chunk_id ` ran get = {} \<and> set free \<union> chunk_id ` ran get = {0..<alloc} \<and>
     (\<forall>k c. get k = Some c \<longrightarrow> - 1 \<le> chunk_ref c)"

definition om_get :: "'p cache_policy_ops \<Rightarrow> 'p offload_manager \<Rightarrow> offload_key \<Rightarrow> chunk_status option" where
  "om_get ops m = cp_get ops (om_policy m)"

definition om_inv :: "'p cache_policy_ops \<Rightarrow> ('p \<Rightarrow> bool) \<Rightarrow> 'p offload_manager \<Rightarrow> bool" where
  "om_inv ops pinv m \<longleftrightarrow>
     pinv (om_policy m) \<and>
     chunk_pool_ok (om_get ops m) (om_free_list m) (om_num_allocated m) \<and>
     0 \<le> om_num_allocated m \<and> om_num_allocated m \<le> om_num_chunks m \<and>
     om_num_evictable m = int (card (idle_keys (om_get ops m))) \<and>
     om_num_write_pending m = int (card (pending_keys (om_get ops m)))"

lemma om_invD:
  assumes "om_inv ops pinv m"
  shows "pinv (om_policy m)" "chunk_pool_ok (om_get ops m) (om_free_list m) (om_num_allocated m)"
    "0 \<le> om_num_allocated m" "om_num_allocated m \<le> om_num_chunks m"
    "om_num_evictable m = int (card (idle_keys (om_get ops m)))"
    "om_num_write_pending m = int (card (pending_keys (om_get ops m)))"
  using assms unfolding om_inv_def by - (elim conjE, assumption)+

lemma chunk_pool_okD:
  assumes "chunk_pool_ok get free alloc"
  shows "finite (dom get)" "distinct free"
    "\<And>k k' c c'. get k = Some c \<Longrightarrow> get k' = Some c' \<Longrightarrow> chunk_id c = chunk_id c' \<Longrightarrow> k = k'"
    "set free \<inter> chunk_id ` ran get = {}" "set free \<union> chunk_id ` ran get = {0..<alloc}"
    "\<And>k c. get k = Some c \<Longrightarrow> - 1 \<le> chunk_ref c"
proof -
  from assms [unfolded chunk_pool_ok_def]
  have a: "finite (dom get)" "distinct free" "set free \<inter> chunk_id ` ran get = {}"
    "set free \<union> chunk_id ` ran get = {0..<alloc}"
    "\<forall>k k' c c'. get k = Some c \<longrightarrow> get k' = Some c' \<longrightarrow> chunk_id c = chunk_id c' \<longrightarrow> k = k'"
    "\<forall>k c. get k = Some c \<longrightarrow> - 1 \<le> chunk_ref c"
    by - (elim conjE, assumption)+
  show "finite (dom get)" "distinct free" "set free \<inter> chunk_id ` ran get = {}"
    "set free \<union> chunk_id ` ran get = {0..<alloc}" by (fact a)+
  show "\<And>k k' c c'. get k = Some c \<Longrightarrow> get k' = Some c' \<Longrightarrow> chunk_id c = chunk_id c' \<Longrightarrow> k = k'"
    by (rule a(5) [rule_format])
  show "\<And>k c. get k = Some c \<Longrightarrow> - 1 \<le> chunk_ref c" by (rule a(6) [rule_format])
qed

lemma chunk_pool_okI:
  assumes "finite (dom get)" "distinct free"
    and "\<And>k k' c c'. get k = Some c \<Longrightarrow> get k' = Some c' \<Longrightarrow> chunk_id c = chunk_id c' \<Longrightarrow> k = k'"
    and "set free \<inter> chunk_id ` ran get = {}" "set free \<union> chunk_id ` ran get = {0..<alloc}"
    and "\<And>k c. get k = Some c \<Longrightarrow> - 1 \<le> chunk_ref c"
  shows "chunk_pool_ok get free alloc"
  unfolding chunk_pool_ok_def by (intro conjI allI impI) (rule assms; assumption)+

lemma idle_keys_dom: "idle_keys get \<subseteq> dom get" "pending_keys get \<subseteq> dom get"
  by (auto simp: idle_keys_def pending_keys_def)

text \<open>The number of slots a pool has handed out is the number of its free and its resident chunks.\<close>

lemma chunk_pool_card:
  assumes "chunk_pool_ok get free alloc"
  shows "card (chunk_id ` ran get) = card (dom get)" and "0 \<le> alloc \<Longrightarrow> int (length free) + int (card (dom get)) = alloc"
proof -
  note D = chunk_pool_okD [OF assms]
  have img: "chunk_id ` ran get = (\<lambda>k. chunk_id (the (get k))) ` dom get"
    by (force simp: ran_def dom_def)
  moreover have "inj_on (\<lambda>k. chunk_id (the (get k))) (dom get)"
    by (rule inj_onI) (use D(3) in auto)
  ultimately show c: "card (chunk_id ` ran get) = card (dom get)" by (simp add: card_image)
  assume "0 \<le> alloc"
  have "finite (chunk_id ` ran get)" unfolding img using D(1) by simp
  then have "card (set free \<union> chunk_id ` ran get) = length free + card (dom get)"
    using D(4) c distinct_card [OF D(2)] by (simp add: card_Un_disjoint)
  then show "int (length free) + int (card (dom get)) = alloc"
    unfolding D(5) using \<open>0 \<le> alloc\<close> by simp
qed

subsection \<open>Updates of the resident chunks\<close>

lemma ran_update_same_id:
  assumes "get k = Some c" "chunk_id c' = chunk_id c"
  shows "chunk_id ` ran (get(k \<mapsto> c')) = chunk_id ` ran get"
proof -
  have "chunk_id x \<in> chunk_id ` ran get" if "(get(k \<mapsto> c')) j = Some x" for j x
    using that assms ranI [of get k c] ranI [of get j x] by (cases "j = k") auto
  moreover have "chunk_id x \<in> chunk_id ` ran (get(k \<mapsto> c'))" if "get j = Some x" for j x
  proof (cases "j = k")
    case True
    then have "chunk_id x = chunk_id c'" using that assms by simp
    then show ?thesis using ranI [of "get(k \<mapsto> c')" k c'] by auto
  next
    case False
    then show ?thesis using ranI [of "get(k \<mapsto> c')" j x] that by auto
  qed
  ultimately show ?thesis by (auto simp del: fun_upd_apply simp: ran_def)
qed

lemma chunk_pool_set_ref:
  assumes ok: "chunk_pool_ok get free alloc" and c: "get k = Some c" and n: "- 1 \<le> n"
  shows "chunk_pool_ok (get(k \<mapsto> c\<lparr>chunk_ref := n\<rparr>)) free alloc"
proof -
  note D = chunk_pool_okD [OF ok]
  have ran: "chunk_id ` ran (get(k \<mapsto> c\<lparr>chunk_ref := n\<rparr>)) = chunk_id ` ran get"
    by (rule ran_update_same_id [of _ _ c]) (simp_all add: c)
  show ?thesis
  proof (rule chunk_pool_okI, unfold ran)
    fix j j' x x'
    assume a: "(get(k \<mapsto> c\<lparr>chunk_ref := n\<rparr>)) j = Some x" "(get(k \<mapsto> c\<lparr>chunk_ref := n\<rparr>)) j' = Some x'"
      "chunk_id x = chunk_id x'"
    obtain y where y: "get j = Some y" "chunk_id y = chunk_id x" using a(1) c by (cases "j = k") auto
    obtain y' where y': "get j' = Some y'" "chunk_id y' = chunk_id x'" using a(2) c by (cases "j' = k") auto
    show "j = j'" by (rule D(3) [OF y(1) y'(1)]) (simp add: y y' a(3))
  next
    fix j x assume "(get(k \<mapsto> c\<lparr>chunk_ref := n\<rparr>)) j = Some x"
    then show "- 1 \<le> chunk_ref x" using D(6) n by (cases "j = k") auto
  qed (use D(1,2,4,5) in simp_all)
qed

lemma chunk_pool_remove:
  assumes ok: "chunk_pool_ok get free alloc" and c: "get k = Some c"
  shows "chunk_pool_ok (get(k := None)) (free @ [chunk_id c]) alloc"
proof -
  note D = chunk_pool_okD [OF ok]
  have rest: "chunk_id ` ran (get(k := None)) = chunk_id ` ran get - {chunk_id c}"
  proof
    show "chunk_id ` ran (get(k := None)) \<subseteq> chunk_id ` ran get - {chunk_id c}"
    proof
      fix i assume "i \<in> chunk_id ` ran (get(k := None))"
      then obtain j x where j: "get j = Some x" "j \<noteq> k" "i = chunk_id x"
        by (auto simp: ran_def split: if_splits)
      have "chunk_id x \<noteq> chunk_id c" using D(3) [OF j(1) c] j(2) by blast
      then show "i \<in> chunk_id ` ran get - {chunk_id c}" using ranI [of get j x] j(1,3) by simp
    qed
    show "chunk_id ` ran get - {chunk_id c} \<subseteq> chunk_id ` ran (get(k := None))"
    proof
      fix i assume i: "i \<in> chunk_id ` ran get - {chunk_id c}"
      then obtain j x where j: "get j = Some x" "i = chunk_id x" by (auto simp: ran_def)
      then have "j \<noteq> k" using i c by auto
      then have "x \<in> ran (get(k := None))" using j(1) by (intro ranI [of _ j]) simp
      with j(2) show "i \<in> chunk_id ` ran (get(k := None))" by blast
    qed
  qed
  have cin: "chunk_id c \<in> chunk_id ` ran get" using c by (auto simp: ran_def)
  then have new: "chunk_id c \<notin> set free" using D(4) by blast
  show ?thesis
  proof (rule chunk_pool_okI, unfold rest)
    fix j j' x x'
    assume "(get(k := None)) j = Some x" "(get(k := None)) j' = Some x'" "chunk_id x = chunk_id x'"
    then show "j = j'" using D(3) [of j x j' x'] by (simp split: if_splits)
  next
    fix j x assume "(get(k := None)) j = Some x"
    then show "- 1 \<le> chunk_ref x" using D(6) [of j x] by (simp split: if_splits)
  next
    show "set (free @ [chunk_id c]) \<inter> (chunk_id ` ran get - {chunk_id c}) = {}" using D(4) by auto
    show "set (free @ [chunk_id c]) \<union> (chunk_id ` ran get - {chunk_id c}) = {0..<alloc}"
      using D(5) cin by auto
  qed (use D(1,2) new in simp_all)
qed

lemma chunk_pool_evict:
  assumes "chunk_pool_ok get free alloc" "distinct (map fst ev)" "\<forall>(k, c) \<in> set ev. get k = Some c"
  shows "chunk_pool_ok (\<lambda>k. if k \<in> fst ` set ev then None else get k) (free @ map (\<lambda>e. chunk_id (snd e)) ev) alloc"
  using assms
proof (induction ev arbitrary: get free)
  case (Cons x ev)
  obtain k c where x: "x = (k, c)" by fastforce
  have notin: "k \<notin> fst ` set ev" using Cons.prems(2) x by simp
  have step: "chunk_pool_ok (get(k := None)) (free @ [chunk_id c]) alloc"
    using Cons.prems(1,3) x by (intro chunk_pool_remove) auto
  have rest: "\<forall>(j, d) \<in> set ev. (get(k := None)) j = Some d"
    using Cons.prems(3) notin by (force simp: x)
  have "chunk_pool_ok (\<lambda>j. if j \<in> fst ` set ev then None else (get(k := None)) j)
      ((free @ [chunk_id c]) @ map (\<lambda>e. chunk_id (snd e)) ev) alloc"
    by (rule Cons.IH [OF step _ rest]) (use Cons.prems(2) in simp)
  moreover have "(\<lambda>j. if j \<in> fst ` set ev then None else (get(k := None)) j) =
      (\<lambda>j. if j \<in> fst ` set (x # ev) then None else get j)" by (auto simp: x)
  ultimately show ?case by (simp add: x)
qed simp

lemma chunk_pool_insert:
  assumes ok: "chunk_pool_ok get free alloc" and new: "get k = None" and c: "- 1 \<le> chunk_ref c"
    and free: "distinct free'" "set free' \<inter> insert (chunk_id c) (chunk_id ` ran get) = {}"
    and id: "chunk_id c \<notin> chunk_id ` ran get"
    and all: "set free' \<union> insert (chunk_id c) (chunk_id ` ran get) = {0..<alloc'}"
  shows "chunk_pool_ok (get(k \<mapsto> c)) free' alloc'"
proof -
  note D = chunk_pool_okD [OF ok]
  have ran: "chunk_id ` ran (get(k \<mapsto> c)) = insert (chunk_id c) (chunk_id ` ran get)"
    using new by (simp add: ran_map_upd)
  have other: "chunk_id x \<noteq> chunk_id c" if "get j = Some x" for j x
    using id ranI [of get j x] that by (metis imageI)
  show ?thesis
  proof (rule chunk_pool_okI, unfold ran)
    fix j j' x x'
    assume "(get(k \<mapsto> c)) j = Some x" "(get(k \<mapsto> c)) j' = Some x'" "chunk_id x = chunk_id x'"
    then show "j = j'" using D(3) [of j x j' x'] other [of j x] other [of j' x'] by (auto split: if_splits)
  next
    fix j x assume "(get(k \<mapsto> c)) j = Some x"
    then show "- 1 \<le> chunk_ref x" using D(6) [of j x] c by (auto split: if_splits)
  qed (use D(1) free all in simp_all)
qed

lemma chunk_pool_insert_fresh:
  assumes ok: "chunk_pool_ok get free alloc" and new: "get k = None" and alloc: "0 \<le> alloc"
  shows "chunk_pool_ok (get(k \<mapsto> chunk_init alloc)) free (alloc + 1)"
proof -
  note D = chunk_pool_okD [OF ok]
  have id: "alloc \<notin> chunk_id ` ran get" "alloc \<notin> set free" using D(5) by fastforce+
  have "set free \<union> insert alloc (chunk_id ` ran get) = insert alloc {0..<alloc}" using D(5) by blast
  also have "\<dots> = {0..<alloc + 1}" using alloc by auto
  finally show ?thesis
    using ok new D(2,4) id by (intro chunk_pool_insert [OF ok]) (simp_all add: chunk_init_def)
qed

lemma chunk_pool_insert_reused:
  assumes ok: "chunk_pool_ok get (free @ [i]) alloc" and new: "get k = None"
  shows "chunk_pool_ok (get(k \<mapsto> chunk_init i)) free alloc"
proof -
  note D = chunk_pool_okD [OF ok]
  have id: "i \<notin> chunk_id ` ran get" "i \<notin> set free" "distinct free" using D(2,4) by auto
  have "set free \<union> insert i (chunk_id ` ran get) = {0..<alloc}" using D(5) by auto
  moreover have "set free \<inter> insert i (chunk_id ` ran get) = {}" using D(4) id by auto
  ultimately show ?thesis
    using new id by (intro chunk_pool_insert [OF ok]) (simp_all add: chunk_init_def)
qed

text \<open>Inserting a list of keys with their chunks.\<close>

definition put_chunks ::
  "(offload_key \<times> chunk_status) list \<Rightarrow> (offload_key \<Rightarrow> chunk_status option) \<Rightarrow> offload_key \<Rightarrow>
   chunk_status option" where
  "put_chunks entries get = fold (\<lambda>(k, c) g. g(k \<mapsto> c)) entries get"

lemma put_chunks_simps [simp]:
  "put_chunks [] get = get"
  "put_chunks ((k, c) # entries) get = put_chunks entries (get(k \<mapsto> c))"
  "put_chunks (es @ es') get = put_chunks es' (put_chunks es get)"
  by (simp_all add: put_chunks_def)

lemma put_chunks_other: "k \<notin> fst ` set entries \<Longrightarrow> put_chunks entries get k = get k"
  by (induction entries arbitrary: get) auto

lemma put_chunks_in:
  "distinct (map fst entries) \<Longrightarrow> (k, c) \<in> set entries \<Longrightarrow> put_chunks entries get k = Some c"
proof (induction entries arbitrary: get)
  case (Cons x entries)
  obtain k' c' where x: "x = (k', c')" by fastforce
  show ?case
  proof (cases "(k, c) \<in> set entries")
    case False
    with Cons.prems have "k = k'" "c = c'" "k \<notin> fst ` set entries" by (auto simp: x)
    then show ?thesis by (simp add: x put_chunks_other)
  qed (use Cons x in simp)
qed simp

lemma chunk_pool_put_fresh:
  assumes "chunk_pool_ok get free alloc" "0 \<le> alloc" "distinct keys" "\<forall>k \<in> set keys. get k = None"
  shows "chunk_pool_ok (put_chunks (zip keys (map chunk_init (py_range alloc (alloc + int (length keys))))) get)
    free (alloc + int (length keys))"
  using assms
proof (induction keys arbitrary: get alloc)
  case (Cons k keys)
  have step: "py_range alloc (alloc + int (length (k # keys))) =
      alloc # py_range (alloc + 1) (alloc + 1 + int (length keys))"
    by (rule nth_equalityI) (auto simp: py_range_def nth_Cons' of_nat_diff)
  have "chunk_pool_ok (get(k \<mapsto> chunk_init alloc)) free (alloc + 1)"
    using Cons.prems by (intro chunk_pool_insert_fresh) simp_all
  then have
    "chunk_pool_ok (put_chunks (zip keys (map chunk_init (py_range (alloc + 1) (alloc + 1 + int (length keys)))))
       (get(k \<mapsto> chunk_init alloc))) free (alloc + 1 + int (length keys))"
    by (rule Cons.IH) (use Cons.prems in auto)
  then show ?case unfolding step by (simp add: ac_simps)
qed (simp add: py_range_def)

lemma chunk_pool_put_reused:
  assumes "chunk_pool_ok get free alloc" "distinct keys" "\<forall>k \<in> set keys. get k = None"
    "length keys \<le> length free"
  shows "chunk_pool_ok (put_chunks (zip keys (map chunk_init (take (length keys) (rev free)))) get)
    (take (length free - length keys) free) alloc"
  using assms
proof (induction keys arbitrary: get free)
  case (Cons k keys)
  obtain rest i where free: "free = rest @ [i]" using Cons.prems(4) by (cases free rule: rev_cases) auto
  have "chunk_pool_ok (get(k \<mapsto> chunk_init i)) rest alloc"
    using Cons.prems free by (intro chunk_pool_insert_reused) auto
  then have "chunk_pool_ok (put_chunks (zip keys (map chunk_init (take (length keys) (rev rest))))
      (get(k \<mapsto> chunk_init i))) (take (length rest - length keys) rest) alloc"
    by (rule Cons.IH) (use Cons.prems free in auto)
  then show ?case using Cons.prems(4) free by simp
qed simp

subsection \<open>Counting\<close>

lemma idle_keys_set_ref:
  assumes "get k = Some c"
  shows "idle_keys (get(k \<mapsto> c\<lparr>chunk_ref := n\<rparr>)) =
    (if n = 0 then insert k (idle_keys get) else idle_keys get - {k})"
  by (auto simp: idle_keys_def)

lemma pending_keys_set_ref:
  assumes "get k = Some c"
  shows "pending_keys (get(k \<mapsto> c\<lparr>chunk_ref := n\<rparr>)) =
    (if n = - 1 then insert k (pending_keys get) else pending_keys get - {k})"
  by (auto simp: pending_keys_def)

lemma idle_pending_finite:
  assumes "chunk_pool_ok get free alloc"
  shows "finite (idle_keys get)" "finite (pending_keys get)"
  using finite_subset [OF idle_keys_dom(1) chunk_pool_okD(1) [OF assms]]
    finite_subset [OF idle_keys_dom(2) chunk_pool_okD(1) [OF assms]] by simp_all

lemma idle_pending_disjoint: "idle_keys get \<inter> pending_keys get = {}"
  by (auto simp: idle_keys_def pending_keys_def)

lemma idle_keys_iff: "get k = Some c \<Longrightarrow> k \<in> idle_keys get \<longleftrightarrow> chunk_ref c = 0"
  by (simp add: idle_keys_def)

lemma pending_keys_iff: "get k = Some c \<Longrightarrow> k \<in> pending_keys get \<longleftrightarrow> chunk_ref c = - 1"
  by (simp add: pending_keys_def)

text \<open>A change of one reference count with the counters that follow it.\<close>

lemma om_inv_set_ref:
  assumes m: "om_inv ops pinv m" and c: "om_get ops m k = Some c" and n: "- 1 \<le> n"
    and m': "pinv (om_policy m')" "om_get ops m' = (om_get ops m)(k \<mapsto> c\<lparr>chunk_ref := n\<rparr>)"
      "om_free_list m' = om_free_list m" "om_num_allocated m' = om_num_allocated m"
      "om_num_chunks m' = om_num_chunks m"
    and ev: "om_num_evictable m' = om_num_evictable m + of_bool (n = 0) - of_bool (chunk_ref c = 0)"
    and wp: "om_num_write_pending m' = om_num_write_pending m + of_bool (n = - 1) - of_bool (chunk_ref c = - 1)"
  shows "om_inv ops pinv m'"
proof -
  note I = om_invD [OF m]
  note fin = idle_pending_finite [OF I(2)]
  have "chunk_pool_ok (om_get ops m') (om_free_list m') (om_num_allocated m')"
    unfolding m'(2-4) using I(2) c n by (rule chunk_pool_set_ref)
  moreover have "om_num_evictable m' = int (card (idle_keys (om_get ops m')))"
    unfolding m'(2) idle_keys_set_ref [of "om_get ops m" k c n, OF c] ev I(5)
    using fin(1) idle_keys_iff [of "om_get ops m" k c, OF c] card_Suc_Diff1 [OF fin(1), of k]
    by (auto simp: card_insert_if)
  moreover have "om_num_write_pending m' = int (card (pending_keys (om_get ops m')))"
    unfolding m'(2) pending_keys_set_ref [of "om_get ops m" k c n, OF c] wp I(6)
    using fin(2) pending_keys_iff [of "om_get ops m" k c, OF c] card_Suc_Diff1 [OF fin(2), of k]
    by (auto simp: card_insert_if)
  ultimately show ?thesis using I(3,4) m'(1,4,5) by (simp add: om_inv_def)
qed

section \<open>Operations\<close>

text \<open>What no operation but a reset changes.\<close>

definition om_same :: "'p offload_manager \<Rightarrow> 'p offload_manager \<Rightarrow> bool" where
  "om_same m m' \<longleftrightarrow>
     om_num_chunks m' = om_num_chunks m \<and> om_owner m' = om_owner m \<and> om_generation m' = om_generation m \<and>
     om_store_threshold m' = om_store_threshold m"

lemma om_same_refl [simp]: "om_same m m"
  by (simp add: om_same_def)

lemma om_same_trans: "om_same m m' \<Longrightarrow> om_same m' m2 \<Longrightarrow> om_same m m2"
  by (simp add: om_same_def)

text \<open>A change of the policy that keeps the chunks.\<close>

lemma om_inv_policy:
  assumes "om_inv ops pinv m" "pinv p'" "cp_get ops p' = om_get ops m"
  shows "om_inv ops pinv (m\<lparr>om_policy := p'\<rparr>) \<and> om_get ops (m\<lparr>om_policy := p'\<rparr>) = om_get ops m"
  using assms by (simp add: om_inv_def om_get_def)

text \<open>The effect of a list of pins (\<open>d = 1\<close>) or releases (\<open>d = -1\<close>).\<close>

definition add_refs ::
  "int \<Rightarrow> offload_key list \<Rightarrow> (offload_key \<Rightarrow> chunk_status option) \<Rightarrow> offload_key \<Rightarrow> chunk_status option" where
  "add_refs d keys get =
     (\<lambda>k. map_option (\<lambda>c. c\<lparr>chunk_ref := chunk_ref c + d * int (count_list keys k)\<rparr>) (get k))"

lemma add_refs_Nil [simp]: "add_refs d [] get = get"
proof
  fix k show "add_refs d [] get k = get k" by (cases "get k") (simp_all add: add_refs_def)
qed

lemma add_refs_Cons:
  assumes "get k = Some c"
  shows "add_refs d keys (get(k \<mapsto> c\<lparr>chunk_ref := chunk_ref c + d\<rparr>)) = add_refs d (k # keys) get"
  using assms by (auto simp: add_refs_def fun_eq_iff algebra_simps)

lemma observe_keys_total:
  assumes "\<not> access_finished st"
  shows "\<exists>new st'. observe_keys keys acc st = Inr (new, st')"
  using assms by (induction keys arbitrary: acc st) (auto simp: Let_def)

lemma observe_keys_finished:
  assumes "observe_keys keys acc st = Inr (new, st')"
  shows "access_finished st' = access_finished st \<and> access_owner st' = access_owner st \<and>
    access_generation st' = access_generation st"
  using assms
proof (induction keys arbitrary: acc st)
  case (Cons key keys)
  show ?case
  proof (cases "key \<in> set (seen_keys st)")
    case True
    then show ?thesis using Cons by simp
  next
    case False
    then obtain groups seen where "observe_keys keys (acc @ [key]) (st\<lparr>key_groups := groups, seen_keys := seen\<rparr>) = Inr (new, st')"
      using Cons.prems by (auto simp: Let_def rbind_Inr_iff)
    from Cons.IH [OF this] show ?thesis by simp
  qed
qed simp

context cache_policy
begin

lemma pin_chunk_ok:
  assumes m: "om_inv ops inv m" and c: "om_get ops m k = Some c" "0 \<le> chunk_ref c"
    and bound: "chunk_ref c + 1 < 2 ^ 31"
  shows "\<exists>m'. pin_chunk ops k (m, ids) = Inr (m', ids @ [chunk_id c]) \<and> om_inv ops inv m' \<and>
    om_get ops m' = (om_get ops m)(k \<mapsto> c\<lparr>chunk_ref := chunk_ref c + 1\<rparr>) \<and> om_same m m'"
proof (cases "chunk_ref c = 0")
  case True
  note I = om_invD [OF m]
  have get: "cp_get ops (om_policy m) k = Some c" using c(1) by (simp add: om_get_def)
  obtain p' where p': "cp_mark_non_evictable ops k (om_policy m) = Inr p'"
      "inv (cp_poke ops k (chunk_ref c + 1) p')"
      "cp_get ops (cp_poke ops k (chunk_ref c + 1) p') = (cp_get ops (om_policy m))(k \<mapsto> c\<lparr>chunk_ref := chunk_ref c + 1\<rparr>)"
    using pin_law [OF I(1) get True, of "chunk_ref c + 1"] True bound by auto
  define m' where "m' = m\<lparr>om_policy := cp_poke ops k (chunk_ref c + 1) p',
      om_num_evictable := om_num_evictable m - 1\<rparr>"
  have "k \<in> idle_keys (om_get ops m)" using True c(1) by (simp add: idle_keys_def)
  then have "om_num_evictable m \<ge> 1"
    unfolding I(5) using idle_pending_finite(1) [OF I(2)] by (metis card_gt_0_iff empty_iff int_one_le_iff_zero_less of_nat_0_less_iff)
  then have "pin_chunk ops k (m, ids) = Inr (m', ids @ [chunk_id c])"
    using get True p'(1) by (simp add: pin_chunk_def is_ready_def m'_def)
  moreover have gm': "om_get ops m' = (om_get ops m)(k \<mapsto> c\<lparr>chunk_ref := chunk_ref c + 1\<rparr>)"
    using p'(3) by (simp add: m'_def om_get_def)
  moreover have "om_inv ops inv m'"
    by (rule om_inv_set_ref [OF m c(1) _ _ gm']) (use p'(2) True in \<open>simp_all add: m'_def\<close>)
  moreover have "om_same m m'" by (simp add: om_same_def m'_def)
  ultimately show ?thesis by blast
next
  case False
  note I = om_invD [OF m]
  have get: "cp_get ops (om_policy m) k = Some c" using c(1) by (simp add: om_get_def)
  note p' = repin_law [OF I(1) get False, of "chunk_ref c + 1"]
  define m' where "m' = m\<lparr>om_policy := cp_poke ops k (chunk_ref c + 1) (om_policy m)\<rparr>"
  have "pin_chunk ops k (m, ids) = Inr (m', ids @ [chunk_id c])"
    using get False c(2) by (simp add: pin_chunk_def is_ready_def m'_def)
  moreover have gm': "om_get ops m' = (om_get ops m)(k \<mapsto> c\<lparr>chunk_ref := chunk_ref c + 1\<rparr>)"
    using p' c(2) bound by (simp add: m'_def om_get_def)
  moreover have "om_inv ops inv m'"
    by (rule om_inv_set_ref [OF m c(1) _ _ gm']) (use p' False c(2) bound in \<open>simp_all add: m'_def\<close>)
  moreover have "om_same m m'" by (simp add: om_same_def m'_def)
  ultimately show ?thesis by blast
qed

lemma unpin_chunk_ok:
  assumes m: "om_inv ops inv m" and c: "om_get ops m k = Some c" "0 < chunk_ref c" "chunk_ref c < 2 ^ 31"
  shows "\<exists>m'. unpin_chunk ops k m = Inr m' \<and> om_inv ops inv m' \<and>
    om_get ops m' = (om_get ops m)(k \<mapsto> c\<lparr>chunk_ref := chunk_ref c - 1\<rparr>) \<and> om_same m m'"
proof (cases "chunk_ref c = 1")
  case True
  note I = om_invD [OF m]
  have get: "cp_get ops (om_policy m) k = Some c" using c(1) by (simp add: om_get_def)
  have "chunk_ref c \<noteq> 0" using c(2) by simp
  from release_law [OF I(1) get this] obtain p' where p': "cp_mark_evictable ops k (cp_poke ops k 0 (om_policy m)) = Inr p'"
      "inv p'" "cp_get ops p' = (cp_get ops (om_policy m))(k \<mapsto> c\<lparr>chunk_ref := 0\<rparr>)"
    by blast
  define m' where "m' = m\<lparr>om_policy := p', om_num_evictable := om_num_evictable m + 1\<rparr>"
  have "unpin_chunk ops k m = Inr m'"
    using get True p'(1) by (simp add: unpin_chunk_def m'_def)
  moreover have gm': "om_get ops m' = (om_get ops m)(k \<mapsto> c\<lparr>chunk_ref := chunk_ref c - 1\<rparr>)"
    using p'(3) True by (simp add: m'_def om_get_def)
  moreover have "om_inv ops inv m'"
    by (rule om_inv_set_ref [OF m c(1) _ _ gm']) (use p'(2) True in \<open>simp_all add: m'_def\<close>)
  moreover have "om_same m m'" by (simp add: om_same_def m'_def)
  ultimately show ?thesis by blast
next
  case False
  note I = om_invD [OF m]
  have get: "cp_get ops (om_policy m) k = Some c" using c(1) by (simp add: om_get_def)
  have ref: "chunk_ref c \<noteq> 0" "0 < chunk_ref c - 1" "chunk_ref c - 1 < 2 ^ 31" using c(2,3) False by auto
  note p' = repin_law [OF I(1) get ref]
  define m' where "m' = m\<lparr>om_policy := cp_poke ops k (chunk_ref c - 1) (om_policy m)\<rparr>"
  have "unpin_chunk ops k m = Inr m'"
    using get False c(2) by (simp add: unpin_chunk_def m'_def)
  moreover have gm': "om_get ops m' = (om_get ops m)(k \<mapsto> c\<lparr>chunk_ref := chunk_ref c - 1\<rparr>)"
    using p' by (simp add: m'_def om_get_def)
  moreover have "om_inv ops inv m'"
    by (rule om_inv_set_ref [OF m c(1) _ _ gm']) (use p' ref c(2) in \<open>simp_all add: m'_def\<close>)
  moreover have "om_same m m'" by (simp add: om_same_def m'_def)
  ultimately show ?thesis by blast
qed

lemma pin_all_ok:
  assumes "om_inv ops inv m"
    and "\<forall>k \<in> set keys. \<exists>c. om_get ops m k = Some c \<and> 0 \<le> chunk_ref c \<and>
      chunk_ref c + int (count_list keys k) < 2 ^ 31"
  shows "\<exists>m'. rfold (pin_chunk ops) keys (m, ids) = Inr (m', ids @ map (\<lambda>k. chunk_id (the (om_get ops m k))) keys) \<and>
    om_inv ops inv m' \<and> om_get ops m' = add_refs 1 keys (om_get ops m) \<and> om_same m m'"
  using assms
proof (induction keys arbitrary: m ids)
  case Nil
  then show ?case by simp
next
  case (Cons k keys)
  from Cons.prems(2) obtain c where c: "om_get ops m k = Some c" "0 \<le> chunk_ref c"
      "chunk_ref c + 1 + int (count_list keys k) < 2 ^ 31" by auto
  then obtain m1 where m1: "pin_chunk ops k (m, ids) = Inr (m1, ids @ [chunk_id c])" "om_inv ops inv m1"
      "om_get ops m1 = (om_get ops m)(k \<mapsto> c\<lparr>chunk_ref := chunk_ref c + 1\<rparr>)" "om_same m m1"
    using pin_chunk_ok [OF Cons.prems(1) c(1,2), of ids] by auto
  have pre: "\<forall>j \<in> set keys. \<exists>d. om_get ops m1 j = Some d \<and> 0 \<le> chunk_ref d \<and>
      chunk_ref d + int (count_list keys j) < 2 ^ 31"
  proof
    fix j assume j: "j \<in> set keys"
    show "\<exists>d. om_get ops m1 j = Some d \<and> 0 \<le> chunk_ref d \<and> chunk_ref d + int (count_list keys j) < 2 ^ 31"
      using bspec [OF Cons.prems(2), of j] j c by (cases "j = k") (auto simp: m1(3))
  qed
  have ids: "map (\<lambda>k. chunk_id (the (om_get ops m1 k))) keys = map (\<lambda>k. chunk_id (the (om_get ops m k))) keys"
    using c(1) by (auto simp: m1(3))
  from Cons.IH [OF m1(2) pre, of "ids @ [chunk_id c]"] obtain m' where
      m': "rfold (pin_chunk ops) keys (m1, ids @ [chunk_id c]) =
        Inr (m', ids @ [chunk_id c] @ map (\<lambda>k. chunk_id (the (om_get ops m k))) keys)"
      "om_inv ops inv m'" "om_get ops m' = add_refs 1 keys (om_get ops m1)" "om_same m1 m'"
    unfolding ids by auto
  have "om_get ops m' = add_refs 1 (k # keys) (om_get ops m)"
    unfolding m'(3) m1(3) using c(1) by (rule add_refs_Cons)
  with m' m1 c(1) om_same_trans show ?case by auto
qed

lemma unpin_all_ok:
  assumes "om_inv ops inv m"
    and "\<forall>k \<in> set keys. \<exists>c. om_get ops m k = Some c \<and> int (count_list keys k) \<le> chunk_ref c \<and> chunk_ref c < 2 ^ 31"
  shows "\<exists>m'. om_complete_load ops keys m = Inr m' \<and> om_inv ops inv m' \<and>
    om_get ops m' = add_refs (- 1) keys (om_get ops m) \<and> om_same m m'"
  using assms unfolding om_complete_load_def
proof (induction keys arbitrary: m)
  case Nil
  then show ?case by simp
next
  case (Cons k keys)
  from Cons.prems(2) obtain c where c: "om_get ops m k = Some c" "1 + int (count_list keys k) \<le> chunk_ref c"
      "chunk_ref c < 2 ^ 31" by auto
  then have "0 < chunk_ref c" by simp
  from unpin_chunk_ok [OF Cons.prems(1) c(1) this c(3)] obtain m1 where
      m1: "unpin_chunk ops k m = Inr m1" "om_inv ops inv m1"
      "om_get ops m1 = (om_get ops m)(k \<mapsto> c\<lparr>chunk_ref := chunk_ref c + - 1\<rparr>)" "om_same m m1"
    by auto
  have pre: "\<forall>j \<in> set keys. \<exists>d. om_get ops m1 j = Some d \<and> int (count_list keys j) \<le> chunk_ref d \<and>
      chunk_ref d < 2 ^ 31"
  proof
    fix j assume j: "j \<in> set keys"
    show "\<exists>d. om_get ops m1 j = Some d \<and> int (count_list keys j) \<le> chunk_ref d \<and> chunk_ref d < 2 ^ 31"
      using bspec [OF Cons.prems(2), of j] j c by (cases "j = k") (auto simp: m1(3))
  qed
  from Cons.IH [OF m1(2) pre] obtain m' where m': "rfold (unpin_chunk ops) keys m1 = Inr m'"
      "om_inv ops inv m'" "om_get ops m' = add_refs (- 1) keys (om_get ops m1)" "om_same m1 m'" by blast
  have "om_get ops m' = add_refs (- 1) (k # keys) (om_get ops m)"
    unfolding m'(3) m1(3) using c(1) by (rule add_refs_Cons)
  with m' m1 om_same_trans show ?case by auto
qed

end

subsection \<open>Completion of stores\<close>

definition settle ::
  "offload_key list \<Rightarrow> (offload_key \<Rightarrow> chunk_status option) \<Rightarrow> offload_key \<Rightarrow> chunk_status option" where
  "settle keys get =
     (\<lambda>k. map_option (\<lambda>c. if k \<in> set keys \<and> chunk_ref c = - 1 then c\<lparr>chunk_ref := 0\<rparr> else c) (get k))"

definition drop_pending ::
  "offload_key list \<Rightarrow> (offload_key \<Rightarrow> chunk_status option) \<Rightarrow> offload_key \<Rightarrow> chunk_status option" where
  "drop_pending keys get = (\<lambda>k. if k \<in> set keys \<and> k \<in> pending_keys get then None else get k)"

lemma settle_Nil [simp]: "settle [] get = get"
proof
  fix k show "settle [] get k = get k" by (cases "get k") (simp_all add: settle_def)
qed

lemma settle_Cons_pending:
  "get k = Some c \<Longrightarrow> chunk_ref c = - 1 \<Longrightarrow> settle keys (get(k \<mapsto> c\<lparr>chunk_ref := 0\<rparr>)) = settle (k # keys) get"
  by (auto simp: settle_def fun_eq_iff)

lemma settle_Cons_other: "k \<notin> pending_keys get \<Longrightarrow> settle (k # keys) get = settle keys get"
proof
  fix j assume "k \<notin> pending_keys get"
  then show "settle (k # keys) get j = settle keys get j"
    by (cases "get j") (auto simp: settle_def pending_keys_def)
qed

lemma drop_pending_Nil [simp]: "drop_pending [] get = get"
  by (simp add: drop_pending_def)

lemma drop_pending_Cons_pending:
  "k \<in> pending_keys get \<Longrightarrow> drop_pending keys (get(k := None)) = drop_pending (k # keys) get"
  by (auto simp: drop_pending_def pending_keys_def fun_eq_iff)

lemma drop_pending_Cons_other: "k \<notin> pending_keys get \<Longrightarrow> drop_pending (k # keys) get = drop_pending keys get"
  by (auto simp: drop_pending_def)

lemma not_ready_pending:
  assumes "om_inv ops pinv m" "om_get ops m k = Some c"
  shows "\<not> is_ready c \<longleftrightarrow> chunk_ref c = - 1"
  using chunk_pool_okD(6) [OF om_invD(2) [OF assms(1)] assms(2)] by (auto simp: is_ready_def)

lemma om_inv_remove:
  assumes m: "om_inv ops pinv m" and c: "om_get ops m k = Some c" "chunk_ref c = - 1"
    and p: "pinv p'" "cp_get ops p' = (om_get ops m)(k := None)"
  shows "om_inv ops pinv (om_free_chunk c (m\<lparr>om_policy := p', om_num_write_pending := om_num_write_pending m - 1\<rparr>))"
proof -
  note I = om_invD [OF m]
  note fin = idle_pending_finite [OF I(2)]
  have "idle_keys ((om_get ops m)(k := None)) = idle_keys (om_get ops m)"
      "pending_keys ((om_get ops m)(k := None)) = pending_keys (om_get ops m) - {k}"
    using c by (auto simp: idle_keys_def pending_keys_def)
  moreover have "k \<in> pending_keys (om_get ops m)" using c by (simp add: pending_keys_def)
  then have "int (card (pending_keys (om_get ops m) - {k})) = int (card (pending_keys (om_get ops m))) - 1"
    using card_Suc_Diff1 [OF fin(2), of k] by simp
  moreover have "chunk_pool_ok ((om_get ops m)(k := None)) (om_free_list m @ [chunk_id c]) (om_num_allocated m)"
    using I(2) c(1) by (rule chunk_pool_remove)
  ultimately show ?thesis
    using I(3-6) p unfolding om_inv_def by (simp add: om_free_chunk_def om_get_def)
qed

context cache_policy
begin

lemma complete_stored_ok:
  assumes m: "om_inv ops inv m"
  shows "\<exists>m' st'. complete_stored ops k (m, st) = Inr (m', st') \<and> om_inv ops inv m' \<and>
    (st' = (if k \<in> pending_keys (om_get ops m) then st @ [k] else st)) \<and>
    settle keys (om_get ops m') = settle (k # keys) (om_get ops m) \<and> om_same m m'"
proof (cases "k \<in> pending_keys (om_get ops m)")
  case True
  then obtain c where c: "om_get ops m k = Some c" "chunk_ref c = - 1" by (auto simp: pending_keys_def)
  have get: "cp_get ops (om_policy m) k = Some c" "chunk_ref c \<noteq> 0" using c by (simp_all add: om_get_def)
  from release_law [OF om_invD(1) [OF m] get] obtain p' where
      p': "cp_mark_evictable ops k (cp_poke ops k 0 (om_policy m)) = Inr p'" "inv p'"
      "cp_get ops p' = (cp_get ops (om_policy m))(k \<mapsto> c\<lparr>chunk_ref := 0\<rparr>)" by blast
  define m' where "m' = m\<lparr>om_policy := p', om_num_write_pending := om_num_write_pending m - 1,
      om_num_evictable := om_num_evictable m + 1\<rparr>"
  have "complete_stored ops k (m, st) = Inr (m', st @ [k])"
    using get c p'(1) by (simp add: complete_stored_def is_ready_def m'_def)
  moreover have gm': "om_get ops m' = (om_get ops m)(k \<mapsto> c\<lparr>chunk_ref := 0\<rparr>)"
    using p'(3) by (simp add: m'_def om_get_def)
  moreover have "om_inv ops inv m'"
    by (rule om_inv_set_ref [OF m c(1) _ _ gm']) (use p'(2) c(2) in \<open>simp_all add: m'_def\<close>)
  moreover have "settle keys (om_get ops m') = settle (k # keys) (om_get ops m)"
    unfolding gm' using c by (rule settle_Cons_pending)
  moreover have "om_same m m'" by (simp add: om_same_def m'_def)
  ultimately show ?thesis using True by auto
next
  case False
  have "complete_stored ops k (m, st) = Inr (m, st)"
  proof (cases "om_get ops m k")
    case None
    then show ?thesis by (simp add: complete_stored_def om_get_def)
  next
    case (Some c)
    then have "is_ready c" using not_ready_pending [OF m Some] False by (auto simp: pending_keys_def)
    with Some show ?thesis by (simp add: complete_stored_def om_get_def)
  qed
  with m False settle_Cons_other show ?thesis by auto
qed

lemma drop_failed_ok:
  assumes m: "om_inv ops inv m"
  shows "\<exists>m' st'. drop_failed ops k (m, st) = Inr (m', st') \<and> om_inv ops inv m' \<and>
    (st' = (if k \<in> pending_keys (om_get ops m) then st @ [k] else st)) \<and>
    drop_pending keys (om_get ops m') = drop_pending (k # keys) (om_get ops m) \<and> om_same m m'"
proof (cases "k \<in> pending_keys (om_get ops m)")
  case True
  then obtain c where c: "om_get ops m k = Some c" "chunk_ref c = - 1" by (auto simp: pending_keys_def)
  have get: "cp_get ops (om_policy m) k = Some c" using c by (simp add: om_get_def)
  from remove_law [OF om_invD(1) [OF m] get] obtain p' where
      p': "cp_remove ops k (om_policy m) = Inr p'" "inv p'"
      "cp_get ops p' = (om_get ops m)(k := None)" by (auto simp: om_get_def)
  define m' where "m' = om_free_chunk c (m\<lparr>om_policy := p', om_num_write_pending := om_num_write_pending m - 1\<rparr>)"
  have "drop_failed ops k (m, st) = Inr (m', st @ [k])"
    using get c p'(1) by (simp add: drop_failed_def is_ready_def m'_def)
  moreover have gm': "om_get ops m' = (om_get ops m)(k := None)"
    using p'(3) by (simp add: m'_def om_get_def om_free_chunk_def)
  moreover have "om_inv ops inv m'" unfolding m'_def using m c p'(2,3) by (rule om_inv_remove)
  moreover have "drop_pending keys (om_get ops m') = drop_pending (k # keys) (om_get ops m)"
    unfolding gm' using True by (rule drop_pending_Cons_pending)
  moreover have "om_same m m'" by (simp add: om_same_def m'_def om_free_chunk_def)
  ultimately show ?thesis using True by auto
next
  case False
  have "drop_failed ops k (m, st) = Inr (m, st)"
  proof (cases "om_get ops m k")
    case None
    then show ?thesis by (simp add: drop_failed_def om_get_def)
  next
    case (Some c)
    then have "is_ready c" using not_ready_pending [OF m Some] False by (auto simp: pending_keys_def)
    with Some show ?thesis by (simp add: drop_failed_def om_get_def)
  qed
  with m False drop_pending_Cons_other show ?thesis by auto
qed

lemma complete_all_ok:
  assumes "om_inv ops inv m"
  shows "\<exists>m' st'. rfold (complete_stored ops) keys (m, st) = Inr (m', st') \<and> om_inv ops inv m' \<and>
    om_get ops m' = settle keys (om_get ops m) \<and> om_same m m'"
  using assms
proof (induction keys arbitrary: m st)
  case (Cons k keys)
  obtain m1 st1 where m1: "complete_stored ops k (m, st) = Inr (m1, st1)" "om_inv ops inv m1"
      "settle keys (om_get ops m1) = settle (k # keys) (om_get ops m)" "om_same m m1"
    using complete_stored_ok [OF Cons.prems] by blast
  from Cons.IH [OF m1(2), of st1] m1(1,3,4) om_same_trans show ?case by fastforce
qed simp

lemma drop_all_ok:
  assumes "om_inv ops inv m"
  shows "\<exists>m' st'. rfold (drop_failed ops) keys (m, st) = Inr (m', st') \<and> om_inv ops inv m' \<and>
    om_get ops m' = drop_pending keys (om_get ops m) \<and> om_same m m'"
  using assms
proof (induction keys arbitrary: m st)
  case (Cons k keys)
  obtain m1 st1 where m1: "drop_failed ops k (m, st) = Inr (m1, st1)" "om_inv ops inv m1"
      "drop_pending keys (om_get ops m1) = drop_pending (k # keys) (om_get ops m)" "om_same m m1"
    using drop_failed_ok [OF Cons.prems] by blast
  from Cons.IH [OF m1(2), of st1] m1(1,3,4) om_same_trans show ?case by fastforce
qed simp

end

lemma om_inv_add_event:
  "om_inv ops pinv (add_event b e m) = om_inv ops pinv m" "om_get ops (add_event b e m) = om_get ops m"
  "om_same m (add_event b e m)"
  by (simp_all add: add_event_def om_inv_def om_get_def om_same_def)

context cache_policy
begin

lemma om_complete_store_ok:
  assumes "om_inv ops inv m"
  shows "\<exists>m'. om_complete_store ops keys ctx success m = Inr m' \<and> om_inv ops inv m' \<and> om_same m m' \<and>
    om_get ops m' = (if success then settle keys (om_get ops m) else drop_pending keys (om_get ops m))"
proof (cases success)
  case True
  obtain m1 st where m1: "rfold (complete_stored ops) keys (m, []) = Inr (m1, st)" "om_inv ops inv m1"
      "om_get ops m1 = settle keys (om_get ops m)" "om_same m m1"
    using complete_all_ok [OF assms] by blast
  then show ?thesis
    using True om_same_trans [OF m1(4) om_inv_add_event(3)]
    by (simp add: om_complete_store_def om_inv_add_event)
next
  case False
  obtain m1 st where m1: "rfold (drop_failed ops) keys (m, []) = Inr (m1, st)" "om_inv ops inv m1"
      "om_get ops m1 = drop_pending keys (om_get ops m)" "om_same m m1"
    using drop_all_ok [OF assms] by blast
  then show ?thesis
    using False om_same_trans [OF m1(4) om_inv_add_event(3)]
    by (simp add: om_complete_store_def om_inv_add_event)
qed

end

subsection \<open>Room for new chunks\<close>

lemma free_chunks_eq:
  assumes "om_inv ops pinv m"
  shows "get_num_free_chunks m = om_num_chunks m - int (card (dom (om_get ops m)))"
  using chunk_pool_card(2) [OF om_invD(2,3) [OF assms]] by (simp add: get_num_free_chunks_def)

lemma fold_free_chunk:
  "fold om_free_chunk cs m = m\<lparr>om_free_list := om_free_list m @ map chunk_id cs\<rparr>"
  by (induction cs arbitrary: m) (simp_all add: om_free_chunk_def)

lemma om_inv_evicted:
  assumes m: "om_inv ops pinv m" and ev: "distinct (map fst ev)"
      "\<forall>(k, c) \<in> set ev. om_get ops m k = Some c \<and> chunk_ref c = 0"
    and p: "pinv p'" "cp_get ops p' = (\<lambda>k. if k \<in> fst ` set ev then None else om_get ops m k)"
    and m': "m' = fold om_free_chunk (map snd ev)
      (m\<lparr>om_policy := p', om_num_evictable := om_num_evictable m - int (length ev)\<rparr>)"
  shows "om_inv ops pinv m'" "om_get ops m' = (\<lambda>k. if k \<in> fst ` set ev then None else om_get ops m k)"
    "om_same m m'"
proof -
  note I = om_invD [OF m]
  note fin = idle_pending_finite [OF I(2)]
  define g where "g = (\<lambda>k. if k \<in> fst ` set ev then None else om_get ops m k)"
  show get: "om_get ops m' = (\<lambda>k. if k \<in> fst ` set ev then None else om_get ops m k)"
    using p(2) by (simp add: m' fold_free_chunk om_get_def)
  show "om_same m m'" by (simp add: m' fold_free_chunk om_same_def)
  have "chunk_pool_ok g (om_free_list m @ map (\<lambda>e. chunk_id (snd e)) ev) (om_num_allocated m)"
    unfolding g_def by (rule chunk_pool_evict [OF I(2) ev(1)]) (use ev(2) in auto)
  moreover have sub: "fst ` set ev \<subseteq> idle_keys (om_get ops m)" using ev(2) by (force simp: idle_keys_def)
  have idle: "idle_keys g = idle_keys (om_get ops m) - fst ` set ev"
    by (auto simp: g_def idle_keys_def)
  have "pending_keys g = pending_keys (om_get ops m) - fst ` set ev"
    by (auto simp: g_def pending_keys_def)
  then have "pending_keys g = pending_keys (om_get ops m)"
    using sub idle_pending_disjoint [of "om_get ops m"] by blast
  moreover have "card (fst ` set ev) = length ev" using distinct_card [OF ev(1)] by simp
  then have "int (card (idle_keys g)) = int (card (idle_keys (om_get ops m))) - int (length ev)"
    using card_mono [OF fin(1) sub] sub unfolding idle by (simp add: card_Diff_subset of_nat_diff)
  ultimately show "om_inv ops pinv m'"
    using I(3-6) p(1) get unfolding om_inv_def g_def [symmetric]
    by (simp add: m' fold_free_chunk comp_def)
qed

context cache_policy
begin

lemma make_room_none:
  assumes m: "om_inv ops inv m" and n: "int (card (idle_keys (om_get ops m) - set prot)) < n" "0 < n"
  shows "\<exists>m'. make_room ops n prot m = Inr (None, m') \<and> om_inv ops inv m' \<and> om_get ops m' = om_get ops m \<and>
    om_same m m'"
proof (cases "n > om_num_evictable m")
  case True
  then show ?thesis using n(2) m by (simp add: make_room_def)
next
  case False
  have "card (idle_keys (cp_get ops (om_policy m)) - set prot) < nat n"
    using n unfolding om_get_def by linarith
  from evict_short [OF om_invD(1) [OF m] this] obtain p' where
      p': "cp_evict ops (nat n) prot (om_policy m) = Inr (None, p')" "inv p'"
      "cp_get ops p' = cp_get ops (om_policy m)" by blast
  have "om_same m (m\<lparr>om_policy := p'\<rparr>)" by (simp add: om_same_def)
  with om_inv_policy [OF m p'(2)] p'(1,3) False n(2) show ?thesis
    by (simp add: make_room_def om_get_def)
qed

lemma make_room_some:
  assumes m: "om_inv ops inv m" and n: "n \<le> int (card (idle_keys (om_get ops m) - set prot))"
  shows "\<exists>ev m'. make_room ops n prot m = Inr (Some ev, m') \<and> om_inv ops inv m' \<and>
    length ev = nat n \<and> distinct ev \<and> set ev \<subseteq> idle_keys (om_get ops m) - set prot \<and>
    om_get ops m' = (\<lambda>k. if k \<in> set ev then None else om_get ops m k) \<and> om_same m m'"
proof (cases "n > 0")
  case False
  then show ?thesis using m by (intro exI [of _ "[]"] exI [of _ m]) (simp add: make_room_def)
next
  case True
  note I = om_invD [OF m]
  have "nat n \<le> card (idle_keys (cp_get ops (om_policy m)) - set prot)"
    using n unfolding om_get_def by linarith
  from evict_enough [OF I(1) this] obtain ev p' where
      ev: "cp_evict ops (nat n) prot (om_policy m) = Inr (Some ev, p')" "inv p'" "length ev = nat n"
      "distinct (map fst ev)"
      "\<forall>(k, c) \<in> set ev. cp_get ops (om_policy m) k = Some c \<and> chunk_ref c = 0 \<and> k \<notin> set prot"
      "cp_get ops p' = (\<lambda>k. if k \<in> fst ` set ev then None else cp_get ops (om_policy m) k)"
    by blast
  define m' where "m' = fold om_free_chunk (map snd ev)
      (m\<lparr>om_policy := p', om_num_evictable := om_num_evictable m - int (length ev)\<rparr>)"
  have chunks: "\<forall>(k, c) \<in> set ev. om_get ops m k = Some c \<and> chunk_ref c = 0"
    using ev(5) unfolding om_get_def by fast
  have sub: "fst ` set ev \<subseteq> idle_keys (om_get ops m) - set prot"
    using ev(5) by (force simp: idle_keys_def om_get_def)
  have "card (idle_keys (om_get ops m) - set prot) \<le> card (idle_keys (om_get ops m))"
    using idle_pending_finite(1) [OF I(2)] by (simp add: card_mono)
  then have "n \<le> om_num_evictable m" using n unfolding I(5) by linarith
  then have "make_room ops n prot m = Inr (Some (map fst ev), m')"
    using True ev(1,3) by (simp add: make_room_def m'_def)
  then show ?thesis
    using om_inv_evicted [OF m ev(4) chunks ev(2) ev(6) [folded om_get_def] m'_def] ev(3,4) sub
    by (intro exI [of _ "map fst ev"] exI [of _ m'] conjI) simp_all
qed

lemma insert_all_ok:
  assumes "inv (om_policy m)" "distinct keys" "length chunks = length keys"
    "\<forall>k \<in> set keys. om_get ops m k = None" "\<forall>c \<in> set chunks. chunk_ref c = - 1"
  shows "\<exists>p' ctx'. fold (insert_chunk ops) (zip keys chunks) (m, ctx) = (m\<lparr>om_policy := p'\<rparr>, ctx') \<and>
    inv p' \<and> cp_get ops p' = put_chunks (zip keys chunks) (om_get ops m)"
  using assms
proof (induction keys arbitrary: m chunks ctx)
  case Nil
  then show ?case by (auto simp: om_get_def intro!: exI [of _ "om_policy m"])
next
  case (Cons k keys)
  then obtain c cs where chunks: "chunks = c # cs" "length cs = length keys" by (cases chunks) auto
  obtain p1 ctx1 where ins: "cp_insert ops k c ctx (om_policy m) = (p1, ctx1)" by fastforce
  have new: "cp_get ops (om_policy m) k = None" "chunk_ref c = - 1"
    using Cons.prems(4,5) by (simp_all add: om_get_def chunks)
  from insert_law [OF Cons.prems(1) new ins]
  have p1: "inv p1" "cp_get ops p1 = (om_get ops m)(k \<mapsto> c)" by (simp_all add: om_get_def)
  define m1 where "m1 = m\<lparr>om_policy := p1\<rparr>"
  have gm1: "om_get ops m1 = (om_get ops m)(k \<mapsto> c)" using p1(2) by (simp add: m1_def om_get_def)
  have step: "insert_chunk ops (k, c) (m, ctx) = (m1, ctx1)" using ins by (simp add: insert_chunk_def m1_def)
  have "\<exists>p' ctx'. fold (insert_chunk ops) (zip keys cs) (m1, ctx1) = (m1\<lparr>om_policy := p'\<rparr>, ctx') \<and>
      inv p' \<and> cp_get ops p' = put_chunks (zip keys cs) (om_get ops m1)"
    by (rule Cons.IH) (use Cons.prems chunks p1(1) gm1 in \<open>auto simp: m1_def\<close>)
  then obtain p' ctx' where "fold (insert_chunk ops) (zip keys cs) (m1, ctx1) = (m\<lparr>om_policy := p'\<rparr>, ctx')"
      "inv p'" "cp_get ops p' = put_chunks (zip keys cs) (om_get ops m1)" by (auto simp: m1_def)
  then show ?case using step by (intro exI [of _ p'] exI [of _ ctx']) (simp add: chunks gm1)
qed

end

subsection \<open>Allocation\<close>

lemma pending_put_chunks:
  assumes "length ids = length keys" "distinct keys" "\<forall>k \<in> set keys. get k = None"
  defines "g \<equiv> put_chunks (zip keys (map chunk_init ids)) get"
  shows "pending_keys g = pending_keys get \<union> set keys" "idle_keys g = idle_keys get"
    "dom g = dom get \<union> set keys"
proof -
  let ?es = "zip keys (map chunk_init ids)"
  have d: "distinct (map fst ?es)" using assms(1,2) by simp
  have keys: "fst ` set ?es = set keys" using assms(1) by (metis length_map list.set_map map_fst_zip)
  have inside: "\<exists>i. g k = Some (chunk_init i)" if "k \<in> set keys" for k
  proof -
    from that keys obtain c where c: "(k, c) \<in> set ?es" by force
    then obtain i where "c = chunk_init i" using set_zip_rightD [OF c] by auto
    with put_chunks_in [OF d c] show ?thesis unfolding g_def by blast
  qed
  have outside: "g k = get k" if "k \<notin> set keys" for k
    unfolding g_def by (rule put_chunks_other) (use that keys in blast)
  have cases: "g k = get k \<or> (k \<in> set keys \<and> get k = None \<and> (\<exists>i. g k = Some (chunk_init i)))" for k
    using inside outside assms(3) by blast
  show "pending_keys g = pending_keys get \<union> set keys"
  proof (rule set_eqI)
    fix k show "k \<in> pending_keys g \<longleftrightarrow> k \<in> pending_keys get \<union> set keys"
      using inside [of k] outside [of k] by (cases "k \<in> set keys") (auto simp: pending_keys_def chunk_init_def)
  qed
  show "idle_keys g = idle_keys get"
  proof (rule set_eqI)
    fix k show "k \<in> idle_keys g \<longleftrightarrow> k \<in> idle_keys get"
      using inside [of k] outside [of k] assms(3) by (cases "k \<in> set keys") (auto simp: idle_keys_def chunk_init_def)
  qed
  show "dom g = dom get \<union> set keys"
  proof (rule set_eqI)
    fix k show "k \<in> dom g \<longleftrightarrow> k \<in> dom get \<union> set keys"
      using inside [of k] outside [of k] by (cases "k \<in> set keys") (auto simp: dom_def)
  qed
qed

text \<open>The slots an allocation hands out.\<close>

definition allocated_ids :: "nat \<Rightarrow> 'p offload_manager \<Rightarrow> int list" where
  "allocated_ids n m =
     (let fresh = min (int n) (om_num_chunks m - om_num_allocated m)
      in py_range (om_num_allocated m) (om_num_allocated m + fresh) @
         take (nat (int n - fresh)) (rev (om_free_list m)))"

lemma zip_append_split:
  assumes "length keys = length xs + length ys"
  shows "zip keys (map f (xs @ ys)) =
    zip (take (length xs) keys) (map f xs) @ zip (drop (length xs) keys) (map f ys)"
proof -
  have "zip (take (length xs) keys @ drop (length xs) keys) (map f xs @ map f ys) =
      zip (take (length xs) keys) (map f xs) @ zip (drop (length xs) keys) (map f ys)"
    by (rule zip_append) (use assms in simp)
  then show ?thesis by simp
qed

lemma chunk_pool_put_ids:
  assumes pool: "chunk_pool_ok get free a" "0 \<le> a"
    and keys: "distinct keys" "\<forall>k \<in> set keys. get k = None"
    and len: "f \<le> length keys" "length keys - f \<le> length free"
  shows "chunk_pool_ok
    (put_chunks (zip keys (map chunk_init (py_range a (a + int f) @ take (length keys - f) (rev free)))) get)
    (take (length free - (length keys - f)) free) (a + int f)"
proof -
  define k1 where "k1 = take f keys"
  define k2 where "k2 = drop f keys"
  have k12: "length k1 = f" "length k2 = length keys - f" "distinct k1" "distinct k2" "set k1 \<inter> set k2 = {}"
    "set k1 \<subseteq> set keys" "set k2 \<subseteq> set keys"
    using len(1) keys(1) set_take_disj_set_drop_if_distinct [OF keys(1), of f f]
    by (auto simp: k1_def k2_def dest: in_set_takeD in_set_dropD)
  define e1 where "e1 = zip k1 (map chunk_init (py_range a (a + int f)))"
  define e2 where "e2 = zip k2 (map chunk_init (take (length keys - f) (rev free)))"
  have split: "zip keys (map chunk_init (py_range a (a + int f) @ take (length keys - f) (rev free))) = e1 @ e2"
    using zip_append_split [of keys "py_range a (a + int f)" "take (length keys - f) (rev free)" chunk_init] len
    by (simp add: e1_def e2_def k1_def k2_def)
  have p1: "chunk_pool_ok (put_chunks e1 get) free (a + int f)"
    using chunk_pool_put_fresh [of get free a k1] pool k12 keys(2) by (auto simp: e1_def)
  have none: "\<forall>k \<in> set k2. put_chunks e1 get k = None"
  proof
    fix k assume k: "k \<in> set k2"
    then have "k \<notin> fst ` set e1" using k12(5) by (auto simp: e1_def dest: set_zip_leftD)
    then show "put_chunks e1 get k = None" using keys(2) k k12(7) by (auto simp: put_chunks_other)
  qed
  have "chunk_pool_ok (put_chunks e2 (put_chunks e1 get)) (take (length free - length k2) free) (a + int f)"
    using chunk_pool_put_reused [OF p1 k12(4) none] len(2) k12(2) by (simp add: e2_def)
  then show ?thesis unfolding split by (simp add: k12(2))
qed

lemma allocate_chunks_ok:
  assumes pool: "chunk_pool_ok get (om_free_list m) (om_num_allocated m)"
    and al: "0 \<le> om_num_allocated m" "om_num_allocated m \<le> om_num_chunks m"
    and keys: "distinct keys" "\<forall>k \<in> set keys. get k = None" "int (length keys) \<le> get_num_free_chunks m"
  shows "\<exists>m'. allocate_chunks keys m = Inr (map chunk_init (allocated_ids (length keys) m), m') \<and>
    length (allocated_ids (length keys) m) = length keys \<and>
    chunk_pool_ok (put_chunks (zip keys (map chunk_init (allocated_ids (length keys) m))) get)
      (om_free_list m') (om_num_allocated m') \<and>
    0 \<le> om_num_allocated m' \<and> om_num_allocated m' \<le> om_num_chunks m \<and>
    m' = m\<lparr>om_num_allocated := om_num_allocated m', om_free_list := om_free_list m'\<rparr>"
proof -
  define f where "f = nat (min (int (length keys)) (om_num_chunks m - om_num_allocated m))"
  have f: "int f = min (int (length keys)) (om_num_chunks m - om_num_allocated m)" "f \<le> length keys"
    using al by (auto simp: f_def)
  define r where "r = length keys - f"
  have r: "nat (int (length keys) - int f) = r" "r \<le> length (om_free_list m)"
    using f keys(3) by (auto simp: r_def get_num_free_chunks_def)
  define free where "free = om_free_list m"
  define a where "a = om_num_allocated m"
  define m' where "m' = m\<lparr>om_num_allocated := a + int f, om_free_list := take (length free - r) free\<rparr>"
  have ids: "allocated_ids (length keys) m = py_range a (a + int f) @ take r (rev free)"
    by (simp add: allocated_ids_def f(1) [symmetric] r(1) a_def free_def)
  have "int (length keys) - int f = int r" using f(2) by (simp add: r_def)
  then have alloc: "allocate_chunks keys m = Inr (map chunk_init (allocated_ids (length keys) m), m')"
    using r(2) by (simp add: allocate_chunks_def ids f(1) [symmetric] Let_def m'_def a_def free_def)
  have len: "length (allocated_ids (length keys) m) = length keys"
    using r(2) f(2) by (simp add: ids r_def free_def)
  have "chunk_pool_ok (put_chunks (zip keys (map chunk_init (allocated_ids (length keys) m))) get)
      (om_free_list m') (om_num_allocated m')"
    using chunk_pool_put_ids [OF pool al(1) keys(1,2) f(2)] r(2)
    by (simp add: ids m'_def r_def free_def a_def)
  moreover have "0 \<le> om_num_allocated m'" "om_num_allocated m' \<le> om_num_chunks m"
    using al f by (simp_all add: m'_def a_def)
  moreover have "m' = m\<lparr>om_num_allocated := om_num_allocated m', om_free_list := om_free_list m'\<rparr>"
    by (simp add: m'_def)
  ultimately show ?thesis using alloc len by blast
qed

end
