(* ===== verification/Offload_Store.thy ===== *)
theory Offload_Store
  imports Offload_Invariant
begin

text \<open>
  \<open>CPUOffloadingManager.prepare_store\<close> step by step, over the contract of a policy: the bookkeeping
  before the allocation keeps the chunks, and the outcome is decided by the number of chunks that are
  free or idle outside the offer.
\<close>

section \<open>Stores\<close>

context cache_policy
begin

lemma store_chunks_ok:
  assumes m: "om_inv ops inv m" and keys: "distinct keys" "\<forall>k \<in> set keys. om_get ops m k = None"
    and room: "int (length keys) \<le> get_num_free_chunks m"
  shows "\<exists>ids m' ctx'. store_chunks ops keys evs st ctx m =
      Inr (\<lparr>keys_to_store = keys, store_spec = ids, evicted_keys = evs\<rparr>, m', ctx') \<and>
    om_inv ops inv m' \<and> length ids = length keys \<and> om_same m m' \<and>
    om_get ops m' = put_chunks (zip keys (map chunk_init ids)) (om_get ops m)"
proof -
  define m1 where "m1 = add_event (evs \<noteq> [])
      \<lparr>event_keys = evs, event_medium = MediumCPU, event_removed = True,
       event_metadata_only = False, event_req_context = None\<rparr> m"
  have m1: "om_inv ops inv m1" "om_get ops m1 = om_get ops m" "om_same m m1"
    using m by (simp_all add: m1_def om_inv_add_event)
  have free1: "get_num_free_chunks m1 = get_num_free_chunks m"
    by (simp add: m1_def add_event_def get_num_free_chunks_def)
  note I = om_invD [OF m1(1)]
  define ids where "ids = allocated_ids (length keys) m1"
  obtain m2 where al: "allocate_chunks keys m1 = Inr (map chunk_init ids, m2)" "length ids = length keys"
      "chunk_pool_ok (put_chunks (zip keys (map chunk_init ids)) (om_get ops m1)) (om_free_list m2) (om_num_allocated m2)"
      "0 \<le> om_num_allocated m2" "om_num_allocated m2 \<le> om_num_chunks m1"
      "m2 = m1\<lparr>om_num_allocated := om_num_allocated m2, om_free_list := om_free_list m2\<rparr>"
    using allocate_chunks_ok [OF I(2,3,4) keys(1)] keys(2) room unfolding ids_def free1 m1(2) by blast
  define g where "g = put_chunks (zip keys (map chunk_init ids)) (om_get ops m)"
  have m2: "om_policy m2 = om_policy m1" "om_num_chunks m2 = om_num_chunks m1"
      "om_num_evictable m2 = om_num_evictable m1" "om_num_write_pending m2 = om_num_write_pending m1"
      "om_same m1 m2"
    by (subst al(6), simp add: om_same_def)+
  have gm2: "om_get ops m2 = om_get ops m" using m2(1) m1(2) by (simp add: om_get_def)
  have "\<exists>p' ctx'. fold (insert_chunk ops) (zip keys (map chunk_init ids)) (m2, ctx) = (m2\<lparr>om_policy := p'\<rparr>, ctx') \<and>
      inv p' \<and> cp_get ops p' = put_chunks (zip keys (map chunk_init ids)) (om_get ops m2)"
    by (rule insert_all_ok) (use I(1) m2(1) keys al(2) gm2 in \<open>auto simp: chunk_init_def\<close>)
  then obtain p' ctx3 where ins: "fold (insert_chunk ops) (zip keys (map chunk_init ids)) (m2, ctx) =
      (m2\<lparr>om_policy := p'\<rparr>, ctx3)" "inv p'" "cp_get ops p' = g"
    unfolding gm2 g_def by blast
  define m4 where "m4 = m2\<lparr>om_policy := p', om_num_write_pending := om_num_write_pending m2 + int (length keys)\<rparr>"
  have gm4: "om_get ops m4 = g" using ins(3) by (simp add: m4_def om_get_def)
  have pend: "pending_keys g = pending_keys (om_get ops m) \<union> set keys" "idle_keys g = idle_keys (om_get ops m)"
    unfolding g_def by (rule pending_put_chunks; use al(2) keys in simp)+
  have "pending_keys (om_get ops m) \<inter> set keys = {}" using keys(2) by (auto simp: pending_keys_def)
  then have "card (pending_keys g) = card (pending_keys (om_get ops m)) + length keys"
    unfolding pend(1) using idle_pending_finite(2) [OF I(2)] m1(2) distinct_card [OF keys(1)]
    by (simp add: card_Un_disjoint)
  then have "om_inv ops inv m4"
    using al(3-5) I(5,6) ins(2) m1(2) pend(2) m2 unfolding om_inv_def gm4 by (simp add: m4_def g_def)
  moreover have "om_same m m4"
    using om_same_trans [OF m1(3) m2(5)] by (simp add: om_same_def m4_def)
  moreover have "\<exists>ctx'. store_chunks ops keys evs st ctx m =
      Inr (\<lparr>keys_to_store = keys, store_spec = ids, evicted_keys = evs\<rparr>, m4, ctx')"
    using al(1,2) ins(1)
    by (simp add: store_chunks_def m1_def [symmetric] Let_def m4_def get_load_store_spec_def comp_def chunk_init_def)
  ultimately show ?thesis using al(2) gm4 unfolding g_def by blast
qed

end

subsection \<open>What comes before the allocation\<close>

text \<open>Fields the invariant does not depend on.\<close>

lemma om_inv_other [simp]:
  "om_inv ops pinv (m\<lparr>om_counts := c\<rparr>) = om_inv ops pinv m"
  "om_inv ops pinv (m\<lparr>om_stores_skipped := n\<rparr>) = om_inv ops pinv m"
  "om_inv ops pinv (m\<lparr>om_allocation_sizes := as\<rparr>) = om_inv ops pinv m"
  "om_inv ops pinv (m\<lparr>om_events := es\<rparr>) = om_inv ops pinv m"
  "om_get ops (m\<lparr>om_counts := c\<rparr>) = om_get ops m"
  "om_get ops (m\<lparr>om_stores_skipped := n\<rparr>) = om_get ops m"
  "om_get ops (m\<lparr>om_allocation_sizes := as\<rparr>) = om_get ops m"
  "om_get ops (m\<lparr>om_events := es\<rparr>) = om_get ops m"
  by (simp_all add: om_inv_def om_get_def)

lemma record_tracked_protected:
  assumes "record_tracked counted keys counts prot = (counts', prot')"
    and "distinct prot" "set prot \<subseteq> fst ` set counts"
  shows "distinct prot' \<and> set prot' \<subseteq> fst ` set counts'"
  using assms
proof (induction keys arbitrary: counts prot)
  case (Cons key keys)
  show ?case
  proof (cases "dict_get counts key")
    case None
    then show ?thesis using Cons by simp
  next
    case (Some n)
    have "key \<in> fst ` set counts" using Some dict_get_in [of counts key] by simp
    then have "set (List.insert key prot) \<subseteq> fst ` set (dict_set key (n + 1) (move_to_end key counts))"
        "set (List.insert key prot) \<subseteq> fst ` set (move_to_end key counts)"
      using Cons.prems(3) by auto
    moreover have "distinct (List.insert key prot)" using Cons.prems(2) by simp
    ultimately show ?thesis using Cons.IH Cons.prems(1) Some by (auto simp: Let_def split: if_splits)
  qed
qed simp

lemma record_new_total:
  assumes "0 \<le> u" "u \<le> int (length counts)"
  shows "\<exists>counts'. record_new max_size keys u counts = Inr counts'"
  using assms
proof (induction keys arbitrary: u counts)
  case (Cons key keys)
  have len: "length (dict_set key 1 d) \<ge> length d" for d :: "(offload_key, int) dict"
    using arg_cong [OF update_keys, of length key 1 d] by (auto split: if_splits)
  have "u - 1 \<le> int (length (dict_set key 1 (tl counts)))" using len [of "tl counts"] Cons.prems by simp
  moreover have "u \<le> int (length (dict_set key 1 counts))" using len [of counts] Cons.prems by simp
  ultimately show ?case using Cons by auto
qed simp

lemma record_accesses_total:
  assumes "om_counts m = Some counts"
  shows "\<exists>counts'. record_accesses keys counted m = Inr (m\<lparr>om_counts := Some counts'\<rparr>)"
proof -
  obtain c1 prot where tr: "record_tracked counted keys counts [] = (c1, prot)" by fastforce
  have "distinct prot \<and> set prot \<subseteq> fst ` set c1" using record_tracked_protected [OF tr] by simp
  then have "length prot \<le> card (fst ` set c1)"
    using card_mono [of "fst ` set c1" "set prot"] distinct_card [of prot] by simp
  also have "\<dots> \<le> length c1" using card_length [of "map fst c1"] by simp
  finally have "length prot \<le> length c1" .
  then obtain c2 where "record_new (om_max_tracker_size m) keys (int (length c1) - int (length prot)) c1 = Inr c2"
    using record_new_total [of "int (length c1) - int (length prot)" c1] by auto
  then show ?thesis using assms tr by (intro exI [of _ c2]) (simp add: record_accesses_def)
qed

text \<open>The keys of an offer that a store would write.\<close>

definition offer_state :: "offload_key list \<Rightarrow> req_context \<Rightarrow> 'p offload_manager \<Rightarrow> 'p offload_manager result" where
  "offer_state keys ctx m =
     (if om_counts m \<noteq> None
      then record_accesses keys (counted_keys (fst (get_request_cache_access m ctx))) m else Inr m)"

definition store_candidates ::
  "'p cache_policy_ops \<Rightarrow> offload_key list \<Rightarrow> req_context \<Rightarrow> 'p offload_manager \<Rightarrow> offload_key list" where
  "store_candidates ops keys ctx m =
     (case offer_state keys ctx m of
        Inl e \<Rightarrow> []
      | Inr m1 \<Rightarrow> fst (admit_keys keys (fst (partition_offer ops (om_policy m) keys))
                     (fst (get_request_cache_access m ctx)) m1))"

lemma store_candidates_props:
  "set (store_candidates ops keys ctx m) \<subseteq> {k \<in> set keys. om_get ops m k = None}"
  "distinct keys \<Longrightarrow> distinct (store_candidates ops keys ctx m)"
  by (auto simp: store_candidates_def admit_keys_def partition_offer_def om_get_def Let_def
      split: sum.splits option.splits)

lemma store_candidates_no_threshold:
  "om_counts m = None \<Longrightarrow> store_candidates ops keys ctx m = filter (\<lambda>k. om_get ops m k = None) keys"
  by (simp add: store_candidates_def offer_state_def admit_keys_def partition_offer_def om_get_def)

definition access_open :: "'p offload_manager \<Rightarrow> req_context \<Rightarrow> bool" where
  "access_open m ctx \<longleftrightarrow> \<not> access_finished (fst (get_request_cache_access m ctx))"

context cache_policy
begin

lemma record_access_ok:
  assumes m: "om_inv ops inv m"
    and ok: "access_open m ctx \<or> (\<exists>r. record_request_cache_access ops keys ins reused ctx m = Inr r)"
  shows "\<exists>p' ctx'. record_request_cache_access ops keys ins reused ctx m = Inr (m\<lparr>om_policy := p'\<rparr>, ctx') \<and>
    inv p' \<and> cp_get ops p' = om_get ops m"
proof -
  obtain st ctx1 where st: "get_request_cache_access m ctx = (st, ctx1)" by fastforce
  obtain new st1 where ob: "observe_keys keys [] st = Inr (new, st1)"
    using observe_keys_total [of st keys "[]"] ok st
    by (auto simp: access_open_def record_request_cache_access_def rbind_Inr_iff)
  define ctx2 where "ctx2 = ctx1\<lparr>state_access := Some st1\<rparr>"
  show ?thesis
  proof (cases "new = []")
    case True
    then show ?thesis
      using st ob om_invD(1) [OF m] unfolding record_request_cache_access_def
      by (intro exI [of _ "om_policy m"]) (simp add: Let_def om_get_def)
  next
    case False
    from access_law [OF om_invD(1) [OF m], of new ctx2] obtain p' ctx3 where
      "cp_on_request_access ops new ctx2 (om_policy m) = Inr (p', ctx3)" "inv p'"
      "cp_get ops p' = cp_get ops (om_policy m)" by blast
    then show ?thesis
      using st ob False unfolding record_request_cache_access_def
      by (intro exI [of _ p']) (simp add: ctx2_def [symmetric] Let_def om_get_def)
  qed
qed

end

lemma get_access_owner:
  "get_request_cache_access m ctx = (st, ctx1) \<Longrightarrow>
   access_owner st = om_owner m \<and> access_generation st = om_generation m"
  by (auto simp: get_request_cache_access_def new_cache_access_def split: option.splits if_splits)

lemma access_open_stored:
  assumes "access_owner st = om_owner m" "access_generation st = om_generation m" "\<not> access_finished st"
  shows "access_open m (ctx\<lparr>state_access := Some st\<rparr>)"
  using assms by (simp add: access_open_def get_request_cache_access_def)

lemma admit_keys_frame:
  assumes "admit_keys keys cs st m = (ts, st', m')"
  shows "access_owner st' = access_owner st" "access_generation st' = access_generation st"
    "access_finished st' = access_finished st" "om_inv ops pinv m' = om_inv ops pinv m"
    "om_get ops m' = om_get ops m" "om_same m m'" "om_policy m' = om_policy m"
  using assms by (auto simp: admit_keys_def Let_def om_same_def split: option.splits)

context cache_policy
begin

lemma note_store_misses_ok:
  assumes m: "om_inv ops inv m" and eq: "note_store_misses ops ts st ctx m = (st', m')"
  shows "access_owner st' = access_owner st" "access_generation st' = access_generation st"
    "access_finished st' = access_finished st" "om_inv ops inv m'" "om_get ops m' = om_get ops m" "om_same m m'"
proof -
  let ?new = "filter (\<lambda>k. k \<notin> set (store_miss_keys st)) ts"
  have p: "om_inv ops inv (m\<lparr>om_policy := cp_on_store_miss ops ?new ctx (om_policy m)\<rparr>) \<and>
      om_get ops (m\<lparr>om_policy := cp_on_store_miss ops ?new ctx (om_policy m)\<rparr>) = om_get ops m"
    using store_miss_law [OF om_invD(1) [OF m]] by (intro om_inv_policy [OF m]) (auto simp: om_get_def)
  show "access_owner st' = access_owner st" "access_generation st' = access_generation st"
    "access_finished st' = access_finished st" "om_inv ops inv m'" "om_get ops m' = om_get ops m" "om_same m m'"
    using eq p m by (auto simp: note_store_misses_def Let_def om_same_def split: if_splits)
qed

text \<open>The part of \<open>prepare_store\<close> before the allocation keeps the chunks and the invariant.\<close>

lemma offer_state_ok: "\<exists>c. offer_state keys ctx m = Inr (m\<lparr>om_counts := c\<rparr>)"
proof (cases "om_counts m")
  case None
  then show ?thesis by (intro exI [of _ None]) (simp add: offer_state_def)
next
  case (Some c)
  then show ?thesis using record_accesses_total [OF Some] by (auto simp: offer_state_def)
qed

lemma prepare_store_front:
  assumes m: "om_inv ops inv m" and ok: "access_open m ctx \<or> (\<exists>r. om_prepare_store ops keys ctx m = Inr r)"
    and W: "W = store_candidates ops keys ctx m"
  shows "\<exists>st m4 ctx4. om_inv ops inv m4 \<and> om_get ops m4 = om_get ops m \<and> om_same m m4 \<and>
    om_prepare_store ops keys ctx m =
      (if W = [] then Inr (Some \<lparr>keys_to_store = [], store_spec = [], evicted_keys = []\<rparr>, m4, ctx4)
       else store_offer ops keys W st ctx4
              (m4\<lparr>om_allocation_sizes := om_allocation_sizes m4 @ [int (length W)]\<rparr>))"
proof -
  obtain st ctx1 where st: "get_request_cache_access m ctx = (st, ctx1)" by fastforce
  note own = get_access_owner [OF st]
  obtain c where off: "offer_state keys ctx m = Inr (m\<lparr>om_counts := c\<rparr>)" using offer_state_ok by blast
  define m1 where "m1 = m\<lparr>om_counts := c\<rparr>"
  obtain cs re where part: "partition_offer ops (om_policy m1) keys = (cs, re)" by fastforce
  obtain ts st2 m2 where adm: "admit_keys keys cs st m1 = (ts, st2, m2)" by (metis prod_cases3)
  have ts: "ts = W" using W off part adm st by (simp add: store_candidates_def m1_def)
  obtain st3 m3 where nsm: "note_store_misses ops ts st2 (ctx1\<lparr>state_access := Some st2\<rparr>) m2 = (st3, m3)"
    by fastforce
  have m1: "om_inv ops inv m1" "om_get ops m1 = om_get ops m" "om_same m m1"
    using m by (simp_all add: m1_def om_same_def)
  note A = admit_keys_frame [OF adm]
  have m2: "om_inv ops inv m2" using A(4) m1(1) by blast
  note N = note_store_misses_ok [OF m2 nsm]
  have same3: "om_same m m3" using om_same_trans [OF om_same_trans [OF m1(3) A(6)] N(6)] .
  have counted: "(if om_counts m \<noteq> None then record_accesses keys (counted_keys st) m else Inr m) = Inr m1"
    using off unfolding offer_state_def st fst_conv m1_def .
  define recorded where "recorded = record_request_cache_access ops
      (filter (\<lambda>k. k \<in> set ts \<or> k \<in> set re) keys) [] re (ctx1\<lparr>state_access := Some st3\<rparr>) m3"
  have eq: "om_prepare_store ops keys ctx m = rbind recorded (\<lambda>(m4, ctx4).
      if ts = [] then Inr (Some \<lparr>keys_to_store = [], store_spec = get_load_store_spec [], evicted_keys = []\<rparr>, m4, ctx4)
      else store_offer ops keys ts st3 ctx4
             (m4\<lparr>om_allocation_sizes := om_allocation_sizes m4 @ [int (length ts)]\<rparr>))"
    unfolding om_prepare_store_def st Let_def prod.case
    by (simp only: counted rbind_simps part adm nsm prod.case recorded_def)
  have "access_open m3 (ctx1\<lparr>state_access := Some st3\<rparr>) \<or> (\<exists>r. recorded = Inr r)"
  proof (cases "access_open m ctx")
    case True
    then have "\<not> access_finished st" using st by (simp add: access_open_def)
    then have "access_open m3 (ctx1\<lparr>state_access := Some st3\<rparr>)"
      using own A(1-3) N(1-3) same3 by (intro access_open_stored) (auto simp: om_same_def)
    then show ?thesis ..
  next
    case False
    then show ?thesis using ok eq by (auto simp: rbind_Inr_iff)
  qed
  from record_access_ok [OF N(4) this [unfolded recorded_def]] obtain p' ctx4 where
      rec: "recorded = Inr (m3\<lparr>om_policy := p'\<rparr>, ctx4)" "inv p'" "cp_get ops p' = om_get ops m3"
    unfolding recorded_def by blast
  define m4 where "m4 = m3\<lparr>om_policy := p'\<rparr>"
  have m4: "om_inv ops inv m4" "om_get ops m4 = om_get ops m" "om_same m m4"
    using om_inv_policy [OF N(4) rec(2,3)] N(5) A(5) m1(2) same3 by (simp_all add: m4_def om_same_def)
  with eq rec(1) [folded m4_def] m4 show ?thesis
    unfolding ts by (intro exI [of _ st3] exI [of _ m4] exI [of _ ctx4]) (simp add: get_load_store_spec_def)
qed

lemma prepare_store_none:
  assumes m: "om_inv ops inv m" and ok: "access_open m ctx \<or> (\<exists>r. om_prepare_store ops keys ctx m = Inr r)"
    and W: "W = store_candidates ops keys ctx m"
    and short: "W \<noteq> []"
      "om_num_chunks m < int (card (dom (om_get ops m)) + length W) - int (card (idle_keys (om_get ops m) - set keys))"
  shows "\<exists>m' ctx'. om_prepare_store ops keys ctx m = Inr (None, m', ctx') \<and> om_inv ops inv m' \<and>
    om_get ops m' = om_get ops m \<and> om_same m m'"
proof -
  from prepare_store_front [OF m ok W] short(1) obtain st m4 ctx4 where
      m4: "om_inv ops inv m4" "om_get ops m4 = om_get ops m" "om_same m m4"
      and eq: "om_prepare_store ops keys ctx m =
        store_offer ops keys W st ctx4 (m4\<lparr>om_allocation_sizes := om_allocation_sizes m4 @ [int (length W)]\<rparr>)"
    by auto
  define m5 where "m5 = m4\<lparr>om_allocation_sizes := om_allocation_sizes m4 @ [int (length W)]\<rparr>"
  have m5: "om_inv ops inv m5" "om_get ops m5 = om_get ops m" "om_same m m5"
    using m4 by (simp_all add: m5_def om_same_def)
  have "int (card (idle_keys (om_get ops m5) - set keys)) < int (length W) - get_num_free_chunks m5"
    using short(2) m5(3) unfolding free_chunks_eq [OF m5(1)] m5(2) by (simp add: om_same_def)
  moreover from this have "0 < int (length W) - get_num_free_chunks m5" by linarith
  ultimately obtain m6 where
      "make_room ops (int (length W) - get_num_free_chunks m5) keys m5 = Inr (None, m6)" "om_inv ops inv m6"
      "om_get ops m6 = om_get ops m5" "om_same m5 m6" using make_room_none [OF m5(1)] by blast
  then show ?thesis
    using eq m5(2) om_same_trans [OF m5(3)] by (simp add: m5_def [symmetric] store_offer_def)
qed

lemma prepare_store_some:
  assumes m: "om_inv ops inv m" and ok: "access_open m ctx \<or> (\<exists>r. om_prepare_store ops keys ctx m = Inr r)"
    and W: "W = store_candidates ops keys ctx m"
    and keys: "distinct keys"
    and room: "int (card (dom (om_get ops m)) + length W) - int (card (idle_keys (om_get ops m) - set keys)) \<le> om_num_chunks m"
  shows "\<exists>ids ev m' ctx'. om_prepare_store ops keys ctx m =
      Inr (Some \<lparr>keys_to_store = W, store_spec = ids, evicted_keys = ev\<rparr>, m', ctx') \<and> om_inv ops inv m' \<and>
    length ids = length W \<and> distinct ev \<and> set ev \<subseteq> idle_keys (om_get ops m) - set keys \<and>
    om_get ops m' = put_chunks (zip W (map chunk_init ids)) (\<lambda>k. if k \<in> set ev then None else om_get ops m k) \<and>
    om_same m m'"
proof (cases "W = []")
  case True
  from prepare_store_front [OF m ok W] True obtain m4 ctx4 where
      "om_inv ops inv m4" "om_get ops m4 = om_get ops m" "om_same m m4"
      "om_prepare_store ops keys ctx m = Inr (Some \<lparr>keys_to_store = [], store_spec = [], evicted_keys = []\<rparr>, m4, ctx4)"
    by auto
  then show ?thesis using True by (intro exI [of _ "[]"] exI [of _ m4] exI [of _ ctx4]) simp
next
  case False
  from prepare_store_front [OF m ok W] False obtain st m4 ctx4 where
      m4: "om_inv ops inv m4" "om_get ops m4 = om_get ops m" "om_same m m4"
      and eq: "om_prepare_store ops keys ctx m =
        store_offer ops keys W st ctx4 (m4\<lparr>om_allocation_sizes := om_allocation_sizes m4 @ [int (length W)]\<rparr>)"
    by auto
  define m5 where "m5 = m4\<lparr>om_allocation_sizes := om_allocation_sizes m4 @ [int (length W)]\<rparr>"
  have m5: "om_inv ops inv m5" "om_get ops m5 = om_get ops m" "om_same m m5"
    using m4 by (simp_all add: m5_def om_same_def)
  have free5: "get_num_free_chunks m5 = om_num_chunks m - int (card (dom (om_get ops m)))"
    using free_chunks_eq [OF m5(1)] m5(2,3) by (simp add: om_same_def)
  have "int (length W) - get_num_free_chunks m5 \<le> int (card (idle_keys (om_get ops m5) - set keys))"
    using room unfolding free5 m5(2) by simp
  from make_room_some [OF m5(1) this] obtain ev m6 where
      m6: "make_room ops (int (length W) - get_num_free_chunks m5) keys m5 = Inr (Some ev, m6)" "om_inv ops inv m6"
      "length ev = nat (int (length W) - get_num_free_chunks m5)" "distinct ev"
      "set ev \<subseteq> idle_keys (om_get ops m) - set keys"
      "om_get ops m6 = (\<lambda>k. if k \<in> set ev then None else om_get ops m k)" "om_same m5 m6"
    unfolding m5(2) by blast
  have W_new: "\<forall>k \<in> set W. om_get ops m6 k = None" "distinct W"
    using store_candidates_props [where ops = ops and keys = keys and ctx = ctx and m = m] keys unfolding W [symmetric] m6(6) by auto
  have "int (length W) \<le> get_num_free_chunks m6"
  proof -
    have "dom (om_get ops m6) = dom (om_get ops m) - set ev" unfolding m6(6) by (auto split: if_splits)
    moreover have sub: "set ev \<subseteq> dom (om_get ops m)" using m6(5) idle_keys_dom(1) by blast
    ultimately have "int (card (dom (om_get ops m6))) = int (card (dom (om_get ops m))) - int (length ev)"
      using chunk_pool_okD(1) [OF om_invD(2) [OF m]] distinct_card [OF m6(4)]
      by (simp add: card_Diff_subset of_nat_diff card_mono flip: distinct_card [OF m6(4)])
    then show ?thesis
      using m6(3) om_same_trans [OF m5(3) m6(7)] unfolding free_chunks_eq [OF m6(2)] free5
      by (simp add: om_same_def)
  qed
  from store_chunks_ok [OF m6(2) W_new(2,1) this, of ev st ctx4] obtain ids m7 ctx7 where
      m7: "store_chunks ops W ev st ctx4 m6 = Inr (\<lparr>keys_to_store = W, store_spec = ids, evicted_keys = ev\<rparr>, m7, ctx7)"
      "om_inv ops inv m7" "length ids = length W" "om_same m6 m7"
      "om_get ops m7 = put_chunks (zip W (map chunk_init ids)) (om_get ops m6)" by blast
  have "om_prepare_store ops keys ctx m =
      Inr (Some \<lparr>keys_to_store = W, store_spec = ids, evicted_keys = ev\<rparr>, m7, ctx7)"
    using eq m6(1) m7(1) by (simp add: m5_def [symmetric] store_offer_def)
  then show ?thesis
    using m7(2,3,5) m6(4,5,6) om_same_trans [OF om_same_trans [OF m5(3) m6(7)] m7(4)]
    by (intro exI [of _ ids] exI [of _ ev] exI [of _ m7] exI [of _ ctx7]) simp
qed

end

end
