(* ===== verification/Lru_Policy.thy ===== *)
theory Lru_Policy
  imports Cache_Policy Heapq "HOL-Library.Product_Lexorder" "HOL-Library.List_Lexorder"
begin

text \<open>
  \<open>LRUCachePolicy\<close> (\<open>v1/kv_offload/cpu/policies/lru.py\<close>): evictable chunks in a heap of rank entries
  that are invalidated lazily. The policy is shown to meet the contract \<open>cache_policy\<close> and to evict
  the least recently ranked chunks.
\<close>

section \<open>LRU\<close>

type_synonym heap_entry = "(int \<times> int) \<times> offload_key"

record lru_policy =
  lru_owner :: nat
  lru_capacity :: int
  lru_chunks :: "(offload_key, chunk_status) dict"
  lru_ranks :: "(offload_key, int \<times> int) dict"
  lru_evictable :: "offload_key list"
  lru_heap :: "heap_entry list"
  lru_next_rank :: int
  lru_generation :: int

definition lru_init :: "nat \<Rightarrow> int \<Rightarrow> lru_policy" where
  "lru_init owner cache_capacity =
     \<lparr>lru_owner = owner, lru_capacity = cache_capacity, lru_chunks = [], lru_ranks = [],
      lru_evictable = [], lru_heap = [], lru_next_rank = 0, lru_generation = 0\<rparr>"

definition entry_less :: "heap_entry \<Rightarrow> heap_entry \<Rightarrow> bool" where
  "entry_less e f \<longleftrightarrow> e < f"

definition lru_get_request_rank :: "req_context \<Rightarrow> lru_policy \<Rightarrow> int \<times> lru_policy \<times> req_context" where
  "lru_get_request_rank ctx p =
     (case state_rank ctx of
        Some s \<Rightarrow>
          (if rank_owner s \<noteq> lru_owner p \<or> rank_generation s \<noteq> lru_generation p
           then let n = lru_next_rank p + 1
                in (n, p\<lparr>lru_next_rank := n\<rparr>,
                    ctx\<lparr>state_rank := Some \<lparr>rank_owner = lru_owner p,
                                            rank_generation = lru_generation p, rank_value = n\<rparr>\<rparr>)
           else (rank_value s, p, ctx))
      | None \<Rightarrow>
          let n = lru_next_rank p + 1
          in (n, p\<lparr>lru_next_rank := n\<rparr>,
              ctx\<lparr>state_rank := Some \<lparr>rank_owner = lru_owner p, rank_generation = lru_generation p,
                                      rank_value = n\<rparr>\<rparr>))"

definition lru_assign_new_rank :: "offload_key \<Rightarrow> lru_policy \<Rightarrow> bool \<times> lru_policy" where
  "lru_assign_new_rank key p =
     (if dict_get (lru_chunks p) key = None then (False, p)
      else let n = lru_next_rank p + 1
           in (key \<in> set (lru_evictable p),
               p\<lparr>lru_next_rank := n, lru_ranks := dict_set key (n, 0) (lru_ranks p)\<rparr>))"

definition lru_push_evictable :: "offload_key \<Rightarrow> lru_policy \<Rightarrow> lru_policy result" where
  "lru_push_evictable key p =
     rbind (of_option KeyError (dict_get (lru_ranks p) key)) (\<lambda>rank.
       Inr (p\<lparr>lru_heap := heappush entry_less (rank, key) (lru_heap p)\<rparr>))"

definition lru_is_current :: "lru_policy \<Rightarrow> heap_entry \<Rightarrow> bool" where
  "lru_is_current p entry \<longleftrightarrow>
     (case entry of (rank, key) \<Rightarrow>
        key \<in> set (lru_evictable p) \<and> dict_get (lru_ranks p) key = Some rank)"

text \<open>The list \<open>[(self._ranks[key], key) for key in self._evictable]\<close>, heapified.\<close>

definition lru_rebuild_heap :: "lru_policy \<Rightarrow> lru_policy result" where
  "lru_rebuild_heap p =
     rbind (rmap (\<lambda>key. rbind (of_option KeyError (dict_get (lru_ranks p) key)) (\<lambda>r. Inr (r, key)))
              (lru_evictable p))
       (\<lambda>entries. Inr (p\<lparr>lru_heap := heapify entry_less entries\<rparr>))"

definition lru_maybe_compact_heap :: "lru_policy \<Rightarrow> lru_policy result" where
  "lru_maybe_compact_heap p =
     (if length (lru_heap p) < max 64 (2 * length (lru_evictable p)) then Inr p
      else lru_rebuild_heap p)"

definition lru_update_heap :: "offload_key list \<Rightarrow> lru_policy \<Rightarrow> lru_policy result" where
  "lru_update_heap updated_evictable p =
     (if updated_evictable = [] then Inr p
      else if length updated_evictable \<ge> max 64 (length (lru_evictable p) div 4)
      then lru_rebuild_heap p
      else rbind (rfold lru_push_evictable updated_evictable p) lru_maybe_compact_heap)"

fun lru_assign_ranks :: "offload_key list \<Rightarrow> lru_policy \<Rightarrow> offload_key list \<times> lru_policy" where
  "lru_assign_ranks [] p = ([], p)"
| "lru_assign_ranks (key # keys) p =
     (let (updated, p1) = lru_assign_new_rank key p; (rest, p2) = lru_assign_ranks keys p1
      in (if updated then key # rest else rest, p2))"

definition lru_update_recency :: "offload_key list \<Rightarrow> lru_policy \<Rightarrow> lru_policy result" where
  "lru_update_recency keys p = (let (updated, p1) = lru_assign_ranks keys p in lru_update_heap updated p1)"

definition lru_get :: "lru_policy \<Rightarrow> offload_key \<Rightarrow> chunk_status option" where
  "lru_get p key = dict_get (lru_chunks p) key"

definition lru_poke :: "offload_key \<Rightarrow> int \<Rightarrow> lru_policy \<Rightarrow> lru_policy" where
  "lru_poke key n p = p\<lparr>lru_chunks := poke_chunk key n (lru_chunks p)\<rparr>"

definition lru_insert :: "offload_key \<Rightarrow> chunk_status \<Rightarrow> req_context \<Rightarrow> lru_policy \<Rightarrow> lru_policy \<times> req_context" where
  "lru_insert key chunk ctx p =
     (let p1 = p\<lparr>lru_chunks := dict_set key chunk (lru_chunks p)\<rparr>;
          (rank, p2, ctx2) =
            (case get_offload_key_position ctx key of
               None \<Rightarrow> ((lru_next_rank p1 + 1, 0), p1\<lparr>lru_next_rank := lru_next_rank p1 + 1\<rparr>, ctx)
             | Some position \<Rightarrow>
                 let (r, p', ctx') = lru_get_request_rank ctx p1 in ((r, - position), p', ctx'));
          p3 = p2\<lparr>lru_ranks := dict_set key rank (lru_ranks p2)\<rparr>
      in if chunk_ref chunk = 0
         then (p3\<lparr>lru_evictable := List.insert key (lru_evictable p3),
                  lru_heap := heappush entry_less (rank, key) (lru_heap p3)\<rparr>, ctx2)
         else (p3, ctx2))"

definition lru_remove :: "offload_key \<Rightarrow> lru_policy \<Rightarrow> lru_policy result" where
  "lru_remove key p =
     rbind (of_option KeyError (dict_get (lru_chunks p) key)) (\<lambda>_.
       Inr (p\<lparr>lru_chunks := dict_del key (lru_chunks p), lru_ranks := dict_del key (lru_ranks p),
             lru_evictable := removeAll key (lru_evictable p)\<rparr>))"

fun lru_access_loop ::
  "req_context \<Rightarrow> int \<Rightarrow> offload_key list \<Rightarrow> offload_key list \<Rightarrow> lru_policy \<Rightarrow>
   (offload_key list \<times> lru_policy) result" where
  "lru_access_loop ctx request_rank [] updated p = Inr (updated, p)"
| "lru_access_loop ctx request_rank (key # keys) updated p =
     (case get_offload_key_position ctx key of
        None \<Rightarrow> lru_access_loop ctx request_rank keys updated p
      | Some position \<Rightarrow>
          (if dict_get (lru_chunks p) key = None then lru_access_loop ctx request_rank keys updated p
           else let rank = (request_rank, - position)
                in rbind (of_option KeyError (dict_get (lru_ranks p) key)) (\<lambda>old.
                     if old \<ge> rank then lru_access_loop ctx request_rank keys updated p
                     else lru_access_loop ctx request_rank keys
                            (if key \<in> set (lru_evictable p) then updated @ [key] else updated)
                            (p\<lparr>lru_ranks := dict_set key rank (lru_ranks p)\<rparr>))))"

definition lru_on_request_access ::
  "offload_key list \<Rightarrow> req_context \<Rightarrow> lru_policy \<Rightarrow> (lru_policy \<times> req_context) result" where
  "lru_on_request_access keys ctx p =
     (let (request_rank, p1, ctx1) = lru_get_request_rank ctx p
      in rbind (lru_access_loop ctx1 request_rank keys [] p1) (\<lambda>(updated, p2).
         rbind (lru_update_heap updated p2) (\<lambda>p3. Inr (p3, ctx1))))"

definition lru_on_request_finished ::
  "offload_key list list \<Rightarrow> offload_key list \<Rightarrow> offload_key list \<Rightarrow> req_context \<Rightarrow> lru_policy \<Rightarrow>
   lru_policy result" where
  "lru_on_request_finished groups insertion_only reused ctx p =
     lru_update_recency (rev (order_request_keys groups ctx)) p"

definition lru_clear :: "lru_policy \<Rightarrow> lru_policy" where
  "lru_clear p =
     p\<lparr>lru_chunks := [], lru_ranks := [], lru_evictable := [], lru_heap := [], lru_next_rank := 0,
       lru_generation := lru_generation p + 1\<rparr>"

text \<open>The selection loop of \<open>evict\<close>: pop the heap until \<open>n\<close> chunks are selected. It returns the
  selected entries with their chunks, the deferred entries and the rest of the heap.\<close>

lemma heappop_length: "heappop lt h = Inr (e, h') \<Longrightarrow> length h' < length h"
  by (drule heappop_mset, drule arg_cong [where f = size]) simp

lemma heappop_nonempty:
  assumes "h \<noteq> []"
  obtains e h' where "heappop lt h = Inr (e, h')"
  using assms by (cases "butlast h = []") (simp_all add: heappop_def Let_def)

function lru_select ::
  "lru_policy \<Rightarrow> nat \<Rightarrow> offload_key list \<Rightarrow> heap_entry list \<Rightarrow> (heap_entry \<times> chunk_status) list \<Rightarrow>
   heap_entry list \<Rightarrow> ((heap_entry \<times> chunk_status) list \<times> heap_entry list \<times> heap_entry list) result" where
  "lru_select p n protected heap selected deferred =
     (if heap \<noteq> [] \<and> length selected < n then
        case heappop entry_less heap of
          Inl e \<Rightarrow> Inl e
        | Inr (entry, heap') \<Rightarrow>
            (let key = snd entry in
             if \<not> lru_is_current p entry then lru_select p n protected heap' selected deferred
             else if key \<in> set (map (snd \<circ> fst) selected)
             then lru_select p n protected heap' selected deferred
             else if key \<in> set protected
             then lru_select p n protected heap' selected (deferred @ [entry])
             else case dict_get (lru_chunks p) key of
                    None \<Rightarrow> Inl KeyError
                  | Some chunk \<Rightarrow>
                      (if chunk_ref chunk = 0
                       then lru_select p n protected heap' (selected @ [(entry, chunk)]) deferred
                       else Inl AssertionError))
      else Inr (selected, deferred, heap))"
  by pat_completeness auto
termination
  by (relation "measure (\<lambda>(p, n, protected, heap, s, d). length heap)") (auto dest: heappop_length)

declare lru_select.simps [simp del]

definition lru_drop_selected :: "heap_entry \<times> chunk_status \<Rightarrow> lru_policy \<Rightarrow> lru_policy result" where
  "lru_drop_selected sel p =
     (let key = snd (fst sel) in
      if key \<notin> set (lru_evictable p) then Inl KeyError
      else if dict_get (lru_chunks p) key = None then Inl KeyError
      else if dict_get (lru_ranks p) key = None then Inl KeyError
      else Inr (p\<lparr>lru_evictable := removeAll key (lru_evictable p),
                  lru_chunks := dict_del key (lru_chunks p), lru_ranks := dict_del key (lru_ranks p)\<rparr>))"

definition lru_evict ::
  "nat \<Rightarrow> offload_key list \<Rightarrow> lru_policy \<Rightarrow> ((offload_key \<times> chunk_status) list option \<times> lru_policy) result" where
  "lru_evict n protected p =
     (if n = 0 then Inr (Some [], p)
      else rbind (lru_select p n protected (lru_heap p) [] []) (\<lambda>(selected, deferred, heap).
        if length selected < n
        then Inr (None, p\<lparr>lru_heap := fold (heappush entry_less) (map fst selected @ deferred) heap\<rparr>)
        else let p1 = p\<lparr>lru_heap := fold (heappush entry_less) deferred heap\<rparr>
             in rbind (rfold lru_drop_selected selected p1) (\<lambda>p2.
                rbind (lru_maybe_compact_heap p2) (\<lambda>p3.
                  Inr (Some (map (\<lambda>((rank, key), chunk). (key, chunk)) selected), p3)))))"

definition lru_mark_evictable :: "offload_key \<Rightarrow> lru_policy \<Rightarrow> lru_policy result" where
  "lru_mark_evictable key p =
     rbind (lru_push_evictable key (p\<lparr>lru_evictable := List.insert key (lru_evictable p)\<rparr>))
       lru_maybe_compact_heap"

definition lru_mark_non_evictable :: "offload_key \<Rightarrow> lru_policy \<Rightarrow> lru_policy result" where
  "lru_mark_non_evictable key p =
     (if key \<in> set (lru_evictable p)
      then Inr (p\<lparr>lru_evictable := removeAll key (lru_evictable p)\<rparr>) else Inl KeyError)"

definition lru_ops :: "lru_policy cache_policy_ops" where
  "lru_ops =
     \<lparr>cp_get = lru_get, cp_poke = lru_poke, cp_insert = lru_insert, cp_remove = lru_remove,
      cp_on_store_miss = (\<lambda>keys ctx p. p), cp_on_request_access = lru_on_request_access,
      cp_on_request_finished = lru_on_request_finished, cp_evict = lru_evict, cp_clear = lru_clear,
      cp_mark_evictable = lru_mark_evictable, cp_mark_non_evictable = lru_mark_non_evictable\<rparr>"

section \<open>The invariant\<close>

interpretation ent: weak_order entry_less
  by unfold_locales (auto simp: entry_less_def)

definition heap_covers :: "(offload_key, int \<times> int) dict \<Rightarrow> offload_key list \<Rightarrow> heap_entry list \<Rightarrow> bool" where
  "heap_covers ranks evictable heap \<longleftrightarrow>
     is_heap entry_less heap \<and>
     (\<forall>k \<in> set evictable. dict_get ranks k \<noteq> None \<and> (the (dict_get ranks k), k) \<in> set heap)"

definition lru_inv :: "lru_policy \<Rightarrow> bool" where
  "lru_inv p \<longleftrightarrow>
     distinct (lru_evictable p) \<and>
     (\<forall>k. dict_get (lru_chunks p) k \<noteq> None \<longrightarrow> dict_get (lru_ranks p) k \<noteq> None) \<and>
     set (lru_evictable p) = idle_keys (lru_get p) \<and>
     heap_covers (lru_ranks p) (lru_evictable p) (lru_heap p)"

lemma lru_invD:
  assumes "lru_inv p"
  shows "distinct (lru_evictable p)"
    and "\<forall>k. dict_get (lru_chunks p) k \<noteq> None \<longrightarrow> dict_get (lru_ranks p) k \<noteq> None"
    and "set (lru_evictable p) = idle_keys (lru_get p)"
    and "heap_covers (lru_ranks p) (lru_evictable p) (lru_heap p)"
  using assms unfolding lru_inv_def by - (elim conjE, assumption)+

lemma lru_evictable_ranked:
  assumes "lru_inv p" "k \<in> set (lru_evictable p)"
  obtains c r where "dict_get (lru_chunks p) k = Some c" "chunk_ref c = 0"
    "dict_get (lru_ranks p) k = Some r" "(r, k) \<in> set (lru_heap p)"
  using assms unfolding lru_inv_def heap_covers_def idle_keys_def lru_get_def
  by (fastforce split: option.splits)

lemma heappush_set [simp]: "set (heappush lt x h) = insert x (set h)"
  using arg_cong [OF heappush_mset, of set_mset lt x h] by simp

lemma heapify_set [simp]: "set (heapify lt h) = set h"
  using arg_cong [OF heapify_mset, of set_mset lt h] by simp

lemma heappop_set: "heappop lt h = Inr (e, h') \<Longrightarrow> set h = insert e (set h')"
  by (drule heappop_mset, drule arg_cong [where f = set_mset]) simp

lemma push_all_heap:
  assumes "is_heap entry_less h"
  shows "is_heap entry_less (fold (heappush entry_less) es h) \<and>
    set (fold (heappush entry_less) es h) = set es \<union> set h"
  using assms by (induction es arbitrary: h) (auto simp: ent.heappush_heap)

subsection \<open>Heap maintenance\<close>

lemma lru_rebuild_heap_ok:
  assumes "\<forall>k \<in> set (lru_evictable p). dict_get (lru_ranks p) k \<noteq> None"
  obtains h where "lru_rebuild_heap p = Inr (p\<lparr>lru_heap := h\<rparr>)"
    "heap_covers (lru_ranks p) (lru_evictable p) h"
proof -
  let ?f = "\<lambda>key. (the (dict_get (lru_ranks p) key), key)"
  have "rmap (\<lambda>key. rbind (of_option KeyError (dict_get (lru_ranks p) key)) (\<lambda>r. Inr (r, key)))
          (lru_evictable p) = Inr (map ?f (lru_evictable p))"
    using assms by (intro rmap_Inr) auto
  then have "lru_rebuild_heap p = Inr (p\<lparr>lru_heap := heapify entry_less (map ?f (lru_evictable p))\<rparr>)"
    by (simp add: lru_rebuild_heap_def)
  moreover have "heap_covers (lru_ranks p) (lru_evictable p)
      (heapify entry_less (map ?f (lru_evictable p)))"
    using assms by (auto simp: heap_covers_def ent.heapify_heap)
  ultimately show ?thesis by (rule that)
qed

lemma lru_maybe_compact_heap_ok:
  assumes "heap_covers (lru_ranks p) (lru_evictable p) (lru_heap p)"
  obtains h where "lru_maybe_compact_heap p = Inr (p\<lparr>lru_heap := h\<rparr>)"
    "heap_covers (lru_ranks p) (lru_evictable p) h"
proof (cases "length (lru_heap p) < max 64 (2 * length (lru_evictable p))")
  case True
  show ?thesis by (rule that [of "lru_heap p"]) (use True assms in \<open>auto simp: lru_maybe_compact_heap_def\<close>)
next
  case False
  have "\<forall>k \<in> set (lru_evictable p). dict_get (lru_ranks p) k \<noteq> None"
    using assms by (auto simp: heap_covers_def)
  then obtain h where "lru_rebuild_heap p = Inr (p\<lparr>lru_heap := h\<rparr>)"
      "heap_covers (lru_ranks p) (lru_evictable p) h"
    by (rule lru_rebuild_heap_ok)
  with False show ?thesis by (intro that [of h]) (auto simp: lru_maybe_compact_heap_def)
qed

lemma lru_push_all:
  assumes "\<forall>k \<in> set ks. dict_get (lru_ranks p) k \<noteq> None"
  shows "rfold lru_push_evictable ks p =
    Inr (p\<lparr>lru_heap := fold (heappush entry_less)
             (map (\<lambda>k. (the (dict_get (lru_ranks p) k), k)) ks) (lru_heap p)\<rparr>)"
  using assms by (induction ks arbitrary: p) (auto simp: lru_push_evictable_def)

lemma lru_update_heap_ok:
  assumes heap: "is_heap entry_less (lru_heap p)"
    and ranked: "\<forall>k \<in> set (lru_evictable p). dict_get (lru_ranks p) k \<noteq> None"
    and upd: "set updated \<subseteq> set (lru_evictable p)"
    and rest: "\<forall>k \<in> set (lru_evictable p) - set updated.
      (the (dict_get (lru_ranks p) k), k) \<in> set (lru_heap p)"
  obtains h where "lru_update_heap updated p = Inr (p\<lparr>lru_heap := h\<rparr>)"
    "heap_covers (lru_ranks p) (lru_evictable p) h"
proof (cases "updated = []")
  case True
  show ?thesis
    by (rule that [of "lru_heap p"])
      (use assms True in \<open>auto simp: lru_update_heap_def heap_covers_def\<close>)
next
  case nonempty: False
  show ?thesis
  proof (cases "length updated \<ge> max 64 (length (lru_evictable p) div 4)")
    case True
    from ranked obtain h where "lru_rebuild_heap p = Inr (p\<lparr>lru_heap := h\<rparr>)"
        "heap_covers (lru_ranks p) (lru_evictable p) h"
      by (rule lru_rebuild_heap_ok)
    with True nonempty show ?thesis by (intro that [of h]) (simp_all add: lru_update_heap_def)
  next
    case False
    define h1 where "h1 = fold (heappush entry_less)
      (map (\<lambda>k. (the (dict_get (lru_ranks p) k), k)) updated) (lru_heap p)"
    have push: "rfold lru_push_evictable updated p = Inr (p\<lparr>lru_heap := h1\<rparr>)"
      unfolding h1_def using ranked upd by (intro lru_push_all) auto
    have set_h1: "is_heap entry_less h1"
      "set h1 = (\<lambda>k. (the (dict_get (lru_ranks p) k), k)) ` set updated \<union> set (lru_heap p)"
      using push_all_heap [OF heap] by (simp_all add: h1_def)
    have "(the (dict_get (lru_ranks p) k), k) \<in> set h1" if "k \<in> set (lru_evictable p)" for k
      using rest that unfolding set_h1 by (cases "k \<in> set updated") auto
    with ranked set_h1(1) have "heap_covers (lru_ranks (p\<lparr>lru_heap := h1\<rparr>))
        (lru_evictable (p\<lparr>lru_heap := h1\<rparr>)) (lru_heap (p\<lparr>lru_heap := h1\<rparr>))"
      by (auto simp: heap_covers_def)
    then obtain h where "lru_maybe_compact_heap (p\<lparr>lru_heap := h1\<rparr>) = Inr (p\<lparr>lru_heap := h1\<rparr>\<lparr>lru_heap := h\<rparr>)"
        "heap_covers (lru_ranks p) (lru_evictable p) h"
      by (rule lru_maybe_compact_heap_ok) simp
    with False nonempty push show ?thesis by (intro that [of h]) (auto simp: lru_update_heap_def)
  qed
qed

subsection \<open>Recency updates\<close>

text \<open>What a pass over the keys of a request does to the policy: it gives some chunks a new rank and
  returns the evictable ones among them.\<close>

definition rank_update :: "lru_policy \<Rightarrow> offload_key list \<Rightarrow> lru_policy \<Rightarrow> bool" where
  "rank_update p updated p' \<longleftrightarrow>
     lru_chunks p' = lru_chunks p \<and> lru_evictable p' = lru_evictable p \<and> lru_heap p' = lru_heap p \<and>
     set updated \<subseteq> set (lru_evictable p) \<and>
     (\<forall>k. dict_get (lru_ranks p) k \<noteq> None \<longrightarrow> dict_get (lru_ranks p') k \<noteq> None) \<and>
     (\<forall>k \<in> set (lru_evictable p) - set updated. dict_get (lru_ranks p') k = dict_get (lru_ranks p) k)"

lemma rank_update_refl: "rank_update p [] p"
  by (simp add: rank_update_def)

lemma rank_update_trans:
  assumes "rank_update p u q" "rank_update q v r"
  shows "rank_update p (u @ v) r"
  using assms by (auto simp: rank_update_def)

lemma rank_update_inv:
  assumes inv: "lru_inv p" and upd: "rank_update p updated p'"
  shows "\<exists>p2. lru_update_heap updated p' = Inr p2 \<and> lru_inv p2 \<and> lru_get p2 = lru_get p \<and>
    lru_ranks p2 = lru_ranks p'"
proof -
  note i = inv [unfolded lru_inv_def heap_covers_def]
  note u = upd [unfolded rank_update_def]
  obtain h where h: "lru_update_heap updated p' = Inr (p'\<lparr>lru_heap := h\<rparr>)"
      "heap_covers (lru_ranks p') (lru_evictable p') h"
  proof (rule lru_update_heap_ok [of p' updated])
    show "is_heap entry_less (lru_heap p')" using i u by simp
    show "\<forall>k \<in> set (lru_evictable p'). dict_get (lru_ranks p') k \<noteq> None" using i u by auto
    show "set updated \<subseteq> set (lru_evictable p')" using u by simp
    show "\<forall>k \<in> set (lru_evictable p') - set updated.
        (the (dict_get (lru_ranks p') k), k) \<in> set (lru_heap p')" using i u by simp
  qed
  have "lru_get (p'\<lparr>lru_heap := h\<rparr>) = lru_get p" using u by (simp add: lru_get_def fun_eq_iff)
  moreover from this have "lru_inv (p'\<lparr>lru_heap := h\<rparr>)" using i u h(2) by (auto simp: lru_inv_def)
  ultimately show ?thesis using h(1) by (intro exI [of _ "p'\<lparr>lru_heap := h\<rparr>"]) simp
qed

lemma lru_assign_ranks_update: "lru_assign_ranks keys p = (updated, p') \<Longrightarrow> rank_update p updated p'"
proof (induction keys arbitrary: p updated p')
  case Nil
  then show ?case by (simp add: rank_update_refl)
next
  case (Cons key keys)
  obtain b p1 where b: "lru_assign_new_rank key p = (b, p1)" by fastforce
  obtain rest p2 where rest: "lru_assign_ranks keys p1 = (rest, p2)" by fastforce
  have "rank_update p (if b then [key] else []) p1"
    using b by (auto simp: lru_assign_new_rank_def rank_update_def dict_get_set Let_def split: if_splits)
  from rank_update_trans [OF this Cons.IH [OF rest]] Cons.prems b rest show ?case
    by (auto split: if_splits)
qed

lemma lru_get_request_rank_update:
  assumes "lru_get_request_rank ctx p = (r, p', ctx')"
  shows "rank_update p [] p' \<and> lru_ranks p' = lru_ranks p \<and> state_access ctx' = state_access ctx"
  using assms by (auto simp: lru_get_request_rank_def rank_update_def Let_def split: option.splits if_splits)

lemma lru_access_loop_update:
  assumes "\<forall>k. dict_get (lru_chunks p) k \<noteq> None \<longrightarrow> dict_get (lru_ranks p) k \<noteq> None"
    and "rank_update p0 upd p"
  shows "\<exists>upd' p'. lru_access_loop ctx r keys upd p = Inr (upd', p') \<and> rank_update p0 upd' p'"
  using assms
proof (induction keys arbitrary: p upd)
  case Nil
  then show ?case by simp
next
  case (Cons key keys)
  show ?case
  proof (cases "get_offload_key_position ctx key")
    case None
    then show ?thesis using Cons by simp
  next
    case (Some position)
    show ?thesis
    proof (cases "dict_get (lru_chunks p) key = None")
      case True
      then show ?thesis using Cons Some by simp
    next
      case False
      then obtain old where old: "dict_get (lru_ranks p) key = Some old" using Cons.prems(1) by blast
      define rank where "rank = (r, - position)"
      define p1 where "p1 = p\<lparr>lru_ranks := dict_set key rank (lru_ranks p)\<rparr>"
      define upd1 where "upd1 = (if key \<in> set (lru_evictable p) then upd @ [key] else upd)"
      have eq: "lru_access_loop ctx r (key # keys) upd p =
          (if old \<ge> rank then lru_access_loop ctx r keys upd p else lru_access_loop ctx r keys upd1 p1)"
        using Some False old by (auto simp: rank_def p1_def upd1_def Let_def)
      have "rank_update p0 upd1 p1"
        using Cons.prems(2) by (auto simp: rank_update_def p1_def upd1_def dict_get_set)
      moreover have "\<forall>k. dict_get (lru_chunks p1) k \<noteq> None \<longrightarrow> dict_get (lru_ranks p1) k \<noteq> None"
        using Cons.prems(1) by (auto simp: p1_def dict_get_set)
      ultimately have "\<exists>upd' p'. lru_access_loop ctx r keys upd1 p1 = Inr (upd', p') \<and> rank_update p0 upd' p'"
        using Cons.IH by blast
      then show ?thesis using Cons.IH [OF Cons.prems] unfolding eq by simp
    qed
  qed
qed

subsection \<open>The selection loop\<close>

text \<open>Invariant of the selection: the current entry of every evictable chunk is in the heap, selected
  or deferred; what is selected is current, unprotected and not above anything left in the heap.\<close>

definition select_inv ::
  "lru_policy \<Rightarrow> nat \<Rightarrow> offload_key list \<Rightarrow> heap_entry list \<Rightarrow> (heap_entry \<times> chunk_status) list \<Rightarrow>
   heap_entry list \<Rightarrow> bool" where
  "select_inv p n protected heap selected deferred \<longleftrightarrow>
     is_heap entry_less heap \<and>
     (\<forall>e. lru_is_current p e \<longrightarrow> e \<in> set heap \<union> fst ` set selected \<union> set deferred) \<and>
     (\<forall>(e, c) \<in> set selected. lru_is_current p e \<and> snd e \<notin> set protected \<and>
        dict_get (lru_chunks p) (snd e) = Some c \<and> chunk_ref c = 0) \<and>
     distinct (map (snd \<circ> fst) selected) \<and>
     (\<forall>e \<in> set deferred. lru_is_current p e \<and> snd e \<in> set protected) \<and>
     length selected \<le> n \<and>
     sorted (map fst selected) \<and> (\<forall>e \<in> fst ` set selected. \<forall>f \<in> set heap. e \<le> f)"

lemma lru_is_current_key:
  "lru_is_current p e \<Longrightarrow> lru_is_current p f \<Longrightarrow> snd e = snd f \<Longrightarrow> e = f"
  by (auto simp: lru_is_current_def split: prod.splits)

lemma select_invD:
  assumes "select_inv p n protected heap selected deferred"
  shows "is_heap entry_less heap"
    and "\<forall>e. lru_is_current p e \<longrightarrow> e \<in> set heap \<union> fst ` set selected \<union> set deferred"
    and "\<forall>(e, c) \<in> set selected. lru_is_current p e \<and> snd e \<notin> set protected \<and>
      dict_get (lru_chunks p) (snd e) = Some c \<and> chunk_ref c = 0"
    and "distinct (map (snd \<circ> fst) selected)"
    and "\<forall>e \<in> set deferred. lru_is_current p e \<and> snd e \<in> set protected"
    and "length selected \<le> n"
    and "sorted (map fst selected)" and "\<forall>e \<in> fst ` set selected. \<forall>f \<in> set heap. e \<le> f"
  using assms unfolding select_inv_def by - (elim conjE, assumption)+

lemma select_inv_selected:
  assumes "select_inv p n protected heap selected deferred" "(e, c) \<in> set selected"
  shows "lru_is_current p e" "snd e \<notin> set protected" "dict_get (lru_chunks p) (snd e) = Some c"
    "chunk_ref c = 0"
  using select_invD(3) [OF assms(1)] assms(2) by fast+

lemma select_inv_pop:
  assumes inv: "select_inv p n protected heap selected deferred"
    and pop: "heappop entry_less heap = Inr (e, heap')"
  shows "is_heap entry_less heap'" "\<forall>f \<in> set heap'. e \<le> f" "\<forall>f \<in> fst ` set selected. f \<le> e"
    "\<forall>f \<in> fst ` set selected. \<forall>g \<in> set heap'. f \<le> g" "set heap = insert e (set heap')"
proof -
  have hp: "is_heap entry_less heap" using inv by (simp add: select_inv_def)
  show s: "set heap = insert e (set heap')" using pop by (rule heappop_set)
  show "is_heap entry_less heap'" using hp pop by (rule ent.heappop_heap)
  show "\<forall>f \<in> set heap'. e \<le> f"
    using ent.heappop_least [OF hp pop] s by (fastforce simp: entry_less_def)
  show "\<forall>f \<in> fst ` set selected. f \<le> e" "\<forall>f \<in> fst ` set selected. \<forall>g \<in> set heap'. f \<le> g"
    using inv s by (auto simp: select_inv_def)
qed

lemma select_inv_skip:
  assumes inv: "select_inv p n protected heap selected deferred"
    and pop: "heappop entry_less heap = Inr (e, heap')"
    and skip: "\<not> lru_is_current p e \<or> snd e \<in> set (map (snd \<circ> fst) selected)"
  shows "select_inv p n protected heap' selected deferred"
proof -
  note P = select_inv_pop [OF inv pop]
  have "f \<in> set heap' \<union> fst ` set selected \<union> set deferred" if f: "lru_is_current p f" for f
  proof (cases "f = e")
    case True
    with skip f obtain g c where g: "(g, c) \<in> set selected" "snd g = snd e" by auto
    then have "lru_is_current p g" using inv by (auto simp: select_inv_def)
    then have "g = f" using lru_is_current_key f g(2) True by blast
    then show ?thesis using g(1) by force
  next
    case False
    then show ?thesis using inv f P(5) unfolding select_inv_def by blast
  qed
  then show ?thesis using inv P by (simp add: select_inv_def)
qed

lemma select_inv_defer:
  assumes inv: "select_inv p n protected heap selected deferred"
    and pop: "heappop entry_less heap = Inr (e, heap')"
    and e: "lru_is_current p e" "snd e \<in> set protected"
  shows "select_inv p n protected heap' selected (deferred @ [e])"
  using inv e select_inv_pop [OF inv pop] by (auto simp: select_inv_def)

lemma select_inv_take:
  assumes inv: "select_inv p n protected heap selected deferred" "length selected < n"
    and pop: "heappop entry_less heap = Inr (e, heap')"
    and e: "lru_is_current p e" "snd e \<notin> set protected" "snd e \<notin> set (map (snd \<circ> fst) selected)"
    and c: "dict_get (lru_chunks p) (snd e) = Some c" "chunk_ref c = 0"
  shows "select_inv p n protected heap' (selected @ [(e, c)]) deferred"
  using inv e c select_inv_pop [OF inv(1) pop]
  by (auto simp: select_inv_def sorted_append)

lemma lru_select_ok:
  assumes p: "lru_inv p" and inv: "select_inv p n protected heap selected deferred"
  shows "\<exists>s d h. lru_select p n protected heap selected deferred = Inr (s, d, h) \<and>
    select_inv p n protected h s d \<and> (h = [] \<or> length s = n)"
  using inv
proof (induction "length heap" arbitrary: heap selected deferred rule: less_induct)
  case less
  note inv = less.prems
  show ?case
  proof (cases "heap \<noteq> [] \<and> length selected < n")
    case False
    have "heap = [] \<or> length selected = n" using False inv by (auto simp: select_inv_def)
    moreover have "lru_select p n protected heap selected deferred = Inr (selected, deferred, heap)"
      using False by (subst lru_select.simps) auto
    ultimately show ?thesis using inv by blast
  next
    case True
    then obtain e heap' where pop: "heappop entry_less heap = Inr (e, heap')"
      by (elim conjE heappop_nonempty)
    note IH = less.hyps [OF heappop_length [OF pop]]
    let ?sel = "lru_select p n protected"
    consider (skip) "\<not> lru_is_current p e \<or> snd e \<in> set (map (snd \<circ> fst) selected)"
      | (postpone) "lru_is_current p e" "snd e \<notin> set (map (snd \<circ> fst) selected)" "snd e \<in> set protected"
      | (take) "lru_is_current p e" "snd e \<notin> set (map (snd \<circ> fst) selected)" "snd e \<notin> set protected"
      by blast
    then show ?thesis
    proof cases
      case skip
      then have "?sel heap selected deferred = ?sel heap' selected deferred"
        using True pop by (subst lru_select.simps) (auto simp: Let_def)
      then show ?thesis using IH [OF select_inv_skip [OF inv pop skip]] by simp
    next
      case postpone
      then have "?sel heap selected deferred = ?sel heap' selected (deferred @ [e])"
        using True pop by (subst lru_select.simps) (auto simp: Let_def)
      then show ?thesis using IH [OF select_inv_defer [OF inv pop postpone(1,3)]] by simp
    next
      case take
      have "snd e \<in> set (lru_evictable p)" using take(1) by (auto simp: lru_is_current_def)
      then obtain c where c: "dict_get (lru_chunks p) (snd e) = Some c" "chunk_ref c = 0"
        using p by (blast elim: lru_evictable_ranked)
      then have "?sel heap selected deferred = ?sel heap' (selected @ [(e, c)]) deferred"
        using True pop take by (subst lru_select.simps) (auto simp: Let_def)
      then show ?thesis
        using IH [OF select_inv_take [OF inv _ pop take(1,3,2) c]] True by simp
    qed
  qed
qed

text \<open>The selection falls short exactly when there are not enough idle unprotected chunks.\<close>

lemma select_count:
  assumes p: "lru_inv p" and inv: "select_inv p n protected h s d" and fin: "h = [] \<or> length s = n"
  shows "length s < n \<longleftrightarrow> card (idle_keys (lru_get p) - set protected) < n"
    and "(snd \<circ> fst) ` set s \<subseteq> idle_keys (lru_get p) - set protected"
proof -
  let ?I = "idle_keys (lru_get p) - set protected"
  have ev: "set (lru_evictable p) = idle_keys (lru_get p)" using p by (simp add: lru_inv_def)
  then have finI: "finite ?I" by (metis List.finite_set finite_Diff)
  show sub: "(snd \<circ> fst) ` set s \<subseteq> ?I"
  proof
    fix k assume "k \<in> (snd \<circ> fst) ` set s"
    then obtain e c where e: "(e, c) \<in> set s" "k = snd e" by auto
    have "lru_is_current p e" "k \<notin> set protected" using e(2) select_inv_selected [OF inv e(1)] by auto
    then have "k \<in> set (lru_evictable p)" unfolding lru_is_current_def e(2) by (simp split: prod.splits)
    then show "k \<in> ?I" using ev \<open>k \<notin> set protected\<close> by simp
  qed
  have len: "length s = card ((snd \<circ> fst) ` set s)"
    using distinct_card [OF select_invD(4) [OF inv]] by simp
  have "?I \<subseteq> (snd \<circ> fst) ` set s" if "h = []"
  proof
    fix k assume k: "k \<in> ?I"
    then have "k \<in> set (lru_evictable p)" using ev by simp
    then obtain r where "dict_get (lru_ranks p) k = Some r" by (rule lru_evictable_ranked [OF p])
    then have cur: "lru_is_current p (r, k)" using k ev by (simp add: lru_is_current_def)
    then have "(r, k) \<in> fst ` set s \<union> set d" using select_invD(2) [OF inv, rule_format, OF cur] that by simp
    moreover have "(r, k) \<notin> set d" using select_invD(5) [OF inv] k by auto
    ultimately obtain c where "((r, k), c) \<in> set s" by auto
    then show "k \<in> (snd \<circ> fst) ` set s" by force
  qed
  then have "h = [] \<Longrightarrow> length s = card ?I" using sub len by (simp add: subset_antisym)
  then show "length s < n \<longleftrightarrow> card ?I < n"
    using fin len card_mono [OF finI sub] by linarith
qed

subsection \<open>Eviction\<close>

lemma lru_is_current_cover:
  assumes "lru_inv p" "lru_is_current p e"
  shows "e \<in> set (lru_heap p)"
  using assms by (auto simp: lru_inv_def heap_covers_def lru_is_current_def split: prod.splits)

lemma select_inv_start:
  assumes "lru_inv p"
  shows "select_inv p n protected (lru_heap p) [] []"
  using lru_is_current_cover [OF assms] assms
  by (simp add: select_inv_def lru_inv_def heap_covers_def)

lemma lru_drop_all:
  assumes "distinct (map (snd \<circ> fst) s)"
    and "\<forall>k \<in> (snd \<circ> fst) ` set s. k \<in> set (lru_evictable p) \<and> dict_get (lru_chunks p) k \<noteq> None \<and>
      dict_get (lru_ranks p) k \<noteq> None"
    and "distinct (lru_evictable p)"
  shows "\<exists>p'. rfold lru_drop_selected s p = Inr p' \<and> lru_heap p' = lru_heap p \<and>
    distinct (lru_evictable p') \<and> set (lru_evictable p') = set (lru_evictable p) - (snd \<circ> fst) ` set s \<and>
    (\<forall>k. dict_get (lru_chunks p') k = (if k \<in> (snd \<circ> fst) ` set s then None else dict_get (lru_chunks p) k)) \<and>
    (\<forall>k. dict_get (lru_ranks p') k = (if k \<in> (snd \<circ> fst) ` set s then None else dict_get (lru_ranks p) k))"
  using assms
proof (induction s arbitrary: p)
  case Nil
  then show ?case by simp
next
  case (Cons x s)
  define key where "key = snd (fst x)"
  define p1 where "p1 = p\<lparr>lru_evictable := removeAll key (lru_evictable p),
      lru_chunks := dict_del key (lru_chunks p), lru_ranks := dict_del key (lru_ranks p)\<rparr>"
  have step: "lru_drop_selected x p = Inr p1"
    using Cons.prems(2) by (simp add: lru_drop_selected_def Let_def key_def p1_def)
  have notin: "key \<notin> (snd \<circ> fst) ` set s" using Cons.prems(1) by (simp add: key_def)
  have "\<forall>k \<in> (snd \<circ> fst) ` set s. k \<in> set (lru_evictable p1) \<and> dict_get (lru_chunks p1) k \<noteq> None \<and>
      dict_get (lru_ranks p1) k \<noteq> None"
  proof
    fix k assume k: "k \<in> (snd \<circ> fst) ` set s"
    with notin have "k \<noteq> key" by blast
    then show "k \<in> set (lru_evictable p1) \<and> dict_get (lru_chunks p1) k \<noteq> None \<and>
        dict_get (lru_ranks p1) k \<noteq> None"
      using bspec [OF Cons.prems(2), of k] k by (simp add: p1_def dict_get_del)
  qed
  from Cons.IH [OF _ this] Cons.prems(1,3) obtain p' where p': "rfold lru_drop_selected s p1 = Inr p'"
      "lru_heap p' = lru_heap p1" "distinct (lru_evictable p')"
      "set (lru_evictable p') = set (lru_evictable p1) - (snd \<circ> fst) ` set s"
      "\<forall>k. dict_get (lru_chunks p') k = (if k \<in> (snd \<circ> fst) ` set s then None else dict_get (lru_chunks p1) k)"
      "\<forall>k. dict_get (lru_ranks p') k = (if k \<in> (snd \<circ> fst) ` set s then None else dict_get (lru_ranks p1) k)"
    by (auto simp: p1_def distinct_removeAll)
  have img: "(snd \<circ> fst) ` set (x # s) = insert key ((snd \<circ> fst) ` set s)" by (simp add: key_def)
  show ?case
    unfolding img using p' step by (intro exI [of _ p']) (auto simp: p1_def dict_get_del)
qed

text \<open>Dropping the selected chunks with the deferred entries back in the heap.\<close>

lemma lru_drop_selection:
  assumes p: "lru_inv p" and inv: "select_inv p n protected h s d" and K: "K = (snd \<circ> fst) ` set s"
    "K \<subseteq> idle_keys (lru_get p)"
  obtains p2 where
    "rfold lru_drop_selected s (p\<lparr>lru_heap := fold (heappush entry_less) d h\<rparr>) = Inr p2"
    "distinct (lru_evictable p2)" "set (lru_evictable p2) = set (lru_evictable p) - K"
    "\<forall>k. dict_get (lru_chunks p2) k = (if k \<in> K then None else dict_get (lru_chunks p) k)"
    "\<forall>k. dict_get (lru_ranks p2) k = (if k \<in> K then None else dict_get (lru_ranks p) k)"
    "heap_covers (lru_ranks p2) (lru_evictable p2) (lru_heap p2)"
proof -
  define p1 where "p1 = p\<lparr>lru_heap := fold (heappush entry_less) d h\<rparr>"
  note i = p [unfolded lru_inv_def heap_covers_def]
  have ready: "\<forall>k \<in> K. k \<in> set (lru_evictable p1) \<and> dict_get (lru_chunks p1) k \<noteq> None \<and>
      dict_get (lru_ranks p1) k \<noteq> None"
    using K(2) i by (auto simp: p1_def idle_keys_def lru_get_def)
  have "distinct (lru_evictable p1)" using i by (simp add: p1_def)
  from lru_drop_all [OF select_invD(4) [OF inv] ready [unfolded K(1)] this, folded K(1)]
  obtain p2 where p2: "rfold lru_drop_selected s p1 = Inr p2" "lru_heap p2 = lru_heap p1"
      "distinct (lru_evictable p2)" "set (lru_evictable p2) = set (lru_evictable p) - K"
      "\<forall>k. dict_get (lru_chunks p2) k = (if k \<in> K then None else dict_get (lru_chunks p) k)"
      and ranks2: "\<forall>k. dict_get (lru_ranks p2) k = (if k \<in> K then None else dict_get (lru_ranks p) k)"
    by (auto simp: p1_def)
  have heap1: "is_heap entry_less (lru_heap p1)" "set (lru_heap p1) = set d \<union> set h"
    using push_all_heap [OF select_invD(1) [OF inv]] by (simp_all add: p1_def)
  have "dict_get (lru_ranks p2) k \<noteq> None \<and> (the (dict_get (lru_ranks p2) k), k) \<in> set (lru_heap p2)"
    if k: "k \<in> set (lru_evictable p2)" for k
  proof -
    from k p2(4) have ev: "k \<in> set (lru_evictable p)" "k \<notin> K" by auto
    from ev(1) obtain r where r: "dict_get (lru_ranks p) k = Some r" by (rule lru_evictable_ranked [OF p])
    then have "lru_is_current p (r, k)" using ev(1) by (simp add: lru_is_current_def)
    then have "(r, k) \<in> set h \<union> fst ` set s \<union> set d" using select_invD(2) [OF inv] by blast
    moreover have "(r, k) \<notin> fst ` set s" using ev(2) unfolding K(1) by force
    ultimately show ?thesis using r ev(2) ranks2 p2(2) heap1(2) by auto
  qed
  with heap1(1) p2(2) have "heap_covers (lru_ranks p2) (lru_evictable p2) (lru_heap p2)"
    by (auto simp: heap_covers_def)
  from that [OF p2(1) [unfolded p1_def] p2(3-5) ranks2 this] show ?thesis .
qed

lemma lru_evict_Some:
  assumes p: "lru_inv p" and n: "n \<le> card (idle_keys (lru_get p) - set protected)"
  obtains s d h p' where
    "lru_evict n protected p = Inr (Some (map (\<lambda>((rank, key), chunk). (key, chunk)) s), p')"
    "select_inv p n protected h s d" "length s = n" "lru_inv p'"
    "lru_get p' = (\<lambda>k. if k \<in> (snd \<circ> fst) ` set s then None else lru_get p k)"
proof (cases "n = 0")
  case True
  show ?thesis
    by (rule that [of "[]" p "lru_heap p" "[]"])
      (use True p select_inv_start [OF p, of 0 protected] in \<open>simp_all add: lru_evict_def\<close>)
next
  case False
  obtain s d h where sel: "lru_select p n protected (lru_heap p) [] [] = Inr (s, d, h)"
      and inv: "select_inv p n protected h s d" and fin: "h = [] \<or> length s = n"
    using lru_select_ok [OF p select_inv_start [OF p]] by blast
  note count = select_count [OF p inv fin]
  have len: "length s = n" using count(1) n select_invD(6) [OF inv] by linarith
  define K where "K = (snd \<circ> fst) ` set s"
  have "K \<subseteq> idle_keys (lru_get p)" using count(2) unfolding K_def by blast
  from lru_drop_selection [OF p inv K_def this] obtain p2 where
      p2: "rfold lru_drop_selected s (p\<lparr>lru_heap := fold (heappush entry_less) d h\<rparr>) = Inr p2"
      "distinct (lru_evictable p2)" "set (lru_evictable p2) = set (lru_evictable p) - K"
      and chunks2: "\<forall>k. dict_get (lru_chunks p2) k = (if k \<in> K then None else dict_get (lru_chunks p) k)"
      and ranks2: "\<forall>k. dict_get (lru_ranks p2) k = (if k \<in> K then None else dict_get (lru_ranks p) k)"
      and cov: "heap_covers (lru_ranks p2) (lru_evictable p2) (lru_heap p2)" .
  from cov obtain h3 where p3: "lru_maybe_compact_heap p2 = Inr (p2\<lparr>lru_heap := h3\<rparr>)"
      "heap_covers (lru_ranks p2) (lru_evictable p2) h3"
    by (rule lru_maybe_compact_heap_ok)
  have get3: "lru_get (p2\<lparr>lru_heap := h3\<rparr>) = (\<lambda>k. if k \<in> K then None else lru_get p k)"
    using chunks2 by (simp add: lru_get_def fun_eq_iff)
  have "idle_keys (lru_get (p2\<lparr>lru_heap := h3\<rparr>)) = idle_keys (lru_get p) - K"
    unfolding get3 by (auto simp: idle_keys_def)
  then have "lru_inv (p2\<lparr>lru_heap := h3\<rparr>)"
    using p p2(2,3) p3(2) chunks2 ranks2 by (simp add: lru_inv_def)
  moreover have "lru_evict n protected p =
      Inr (Some (map (\<lambda>((rank, key), chunk). (key, chunk)) s), p2\<lparr>lru_heap := h3\<rparr>)"
    using False sel len p2(1) p3(1) by (simp add: lru_evict_def)
  ultimately show ?thesis using that inv len get3 by (simp add: K_def)
qed

lemma lru_evict_None:
  assumes p: "lru_inv p" and n: "card (idle_keys (lru_get p) - set protected) < n"
  shows "\<exists>p'. lru_evict n protected p = Inr (None, p') \<and> lru_inv p' \<and> lru_get p' = lru_get p"
proof -
  obtain s d h where sel: "lru_select p n protected (lru_heap p) [] [] = Inr (s, d, h)"
      and inv: "select_inv p n protected h s d" and fin: "h = [] \<or> length s = n"
    using lru_select_ok [OF p select_inv_start [OF p]] by blast
  have short: "length s < n" using select_count(1) [OF p inv fin] n by simp
  define h1 where "h1 = fold (heappush entry_less) (map fst s @ d) h"
  have h1: "is_heap entry_less h1" "set h1 = set (map fst s @ d) \<union> set h"
    using push_all_heap [OF select_invD(1) [OF inv]] by (simp_all only: h1_def)
  have "heap_covers (lru_ranks p) (lru_evictable p) h1"
    unfolding heap_covers_def
  proof (intro conjI ballI h1(1))
    fix k assume k: "k \<in> set (lru_evictable p)"
    then obtain r where r: "dict_get (lru_ranks p) k = Some r" by (rule lru_evictable_ranked [OF p])
    then have "lru_is_current p (r, k)" using k by (simp add: lru_is_current_def)
    then have "(r, k) \<in> set h \<union> fst ` set s \<union> set d" using select_invD(2) [OF inv] by blast
    then show "(the (dict_get (lru_ranks p) k), k) \<in> set h1" using r h1(2) by auto
    show "dict_get (lru_ranks p) k \<noteq> None" using r by simp
  qed
  moreover have "lru_get (p\<lparr>lru_heap := h1\<rparr>) = lru_get p" by (simp add: lru_get_def fun_eq_iff)
  ultimately have "lru_inv (p\<lparr>lru_heap := h1\<rparr>)" using p by (simp add: lru_inv_def)
  moreover have "lru_evict n protected p = Inr (None, p\<lparr>lru_heap := h1\<rparr>)"
    using sel short n by (auto simp: lru_evict_def h1_def)
  ultimately show ?thesis using \<open>lru_get (p\<lparr>lru_heap := h1\<rparr>) = lru_get p\<close> by blast
qed

subsection \<open>The contract\<close>

lemma heap_covers_mono:
  assumes "heap_covers ranks ev h" "set ev' \<subseteq> set ev" "\<forall>k \<in> set ev'. dict_get ranks' k = dict_get ranks k"
  shows "heap_covers ranks' ev' h"
  using assms by (auto simp: heap_covers_def)

lemma lru_insert_ok:
  assumes inv: "lru_inv p" and new: "lru_get p k = None" and c: "chunk_ref c = - 1"
    and ins: "lru_insert k c ctx p = (p', ctx')"
  shows "lru_inv p' \<and> lru_get p' = (lru_get p)(k \<mapsto> c) \<and> state_access ctx' = state_access ctx"
proof -
  obtain rank where p': "lru_chunks p' = dict_set k c (lru_chunks p)" "lru_ranks p' = dict_set k rank (lru_ranks p)"
      "lru_evictable p' = lru_evictable p" "lru_heap p' = lru_heap p" "state_access ctx' = state_access ctx"
    using ins c
    by (auto simp: lru_insert_def lru_get_request_rank_def Let_def split: option.splits if_splits)
  have get: "lru_get p' = (lru_get p)(k \<mapsto> c)" using p'(1) by (simp add: lru_get_def fun_eq_iff dict_get_set)
  have idle: "idle_keys (lru_get p') = idle_keys (lru_get p)"
    unfolding get using new c by (auto simp: idle_keys_def)
  have "k \<notin> set (lru_evictable p)" using lru_invD(3) [OF inv] new by (simp add: idle_keys_def)
  then have "heap_covers (lru_ranks p') (lru_evictable p) (lru_heap p)"
    by (intro heap_covers_mono [OF lru_invD(4) [OF inv]]) (auto simp: p'(2) dict_get_set)
  moreover have "\<forall>x. dict_get (lru_chunks p') x \<noteq> None \<longrightarrow> dict_get (lru_ranks p') x \<noteq> None"
    using lru_invD(2) [OF inv] by (simp add: p'(1,2) dict_get_set)
  ultimately have "lru_inv p'"
    using lru_invD(1,3) [OF inv] idle by (simp add: lru_inv_def p'(3,4))
  with get p'(5) show ?thesis by blast
qed

lemma lru_remove_ok:
  assumes inv: "lru_inv p" and c: "lru_get p k = Some c"
  shows "\<exists>p'. lru_remove k p = Inr p' \<and> lru_inv p' \<and> lru_get p' = (lru_get p)(k := None)"
proof -
  define p' where "p' = p\<lparr>lru_chunks := dict_del k (lru_chunks p), lru_ranks := dict_del k (lru_ranks p),
      lru_evictable := removeAll k (lru_evictable p)\<rparr>"
  have rem: "lru_remove k p = Inr p'" using c by (simp add: lru_remove_def lru_get_def p'_def)
  have get: "lru_get p' = (lru_get p)(k := None)"
    by (simp add: p'_def lru_get_def fun_eq_iff dict_get_del)
  have "idle_keys (lru_get p') = idle_keys (lru_get p) - {k}"
    unfolding get by (auto simp: idle_keys_def)
  moreover have "heap_covers (lru_ranks p') (lru_evictable p') (lru_heap p')"
    unfolding p'_def by (simp, intro heap_covers_mono [OF lru_invD(4) [OF inv]]) (auto simp: dict_get_del)
  moreover have "\<forall>x. dict_get (lru_chunks p') x \<noteq> None \<longrightarrow> dict_get (lru_ranks p') x \<noteq> None"
    using lru_invD(2) [OF inv] by (simp add: p'_def dict_get_del)
  moreover have "distinct (lru_evictable p')" "set (lru_evictable p') = set (lru_evictable p) - {k}"
    using lru_invD(1) [OF inv] by (auto simp: p'_def distinct_removeAll)
  ultimately have "lru_inv p'" using lru_invD(3) [OF inv] by (simp add: lru_inv_def)
  with rem get show ?thesis by blast
qed

lemma lru_access_ok:
  assumes inv: "lru_inv p"
  shows "\<exists>p' ctx'. lru_on_request_access keys ctx p = Inr (p', ctx') \<and> lru_inv p' \<and>
    lru_get p' = lru_get p \<and> state_access ctx' = state_access ctx"
proof -
  obtain r p1 ctx1 where rk: "lru_get_request_rank ctx p = (r, p1, ctx1)" by (metis prod_cases3)
  note u = lru_get_request_rank_update [OF rk]
  have "\<forall>k. dict_get (lru_chunks p1) k \<noteq> None \<longrightarrow> dict_get (lru_ranks p1) k \<noteq> None"
    using lru_invD(2) [OF inv] u by (simp add: rank_update_def)
  from lru_access_loop_update [OF this, of p "[]" ctx1 r keys] u
  obtain upd p2 where loop: "lru_access_loop ctx1 r keys [] p1 = Inr (upd, p2)" "rank_update p upd p2"
    by blast
  from rank_update_inv [OF inv loop(2)] obtain p3 where
    "lru_update_heap upd p2 = Inr p3" "lru_inv p3" "lru_get p3 = lru_get p" by blast
  then show ?thesis using rk loop(1) u by (auto simp: lru_on_request_access_def)
qed

lemma lru_finished_ok:
  assumes inv: "lru_inv p"
  shows "\<exists>p'. lru_on_request_finished groups ins reused ctx p = Inr p' \<and> lru_inv p' \<and> lru_get p' = lru_get p"
proof -
  obtain upd p1 where a: "lru_assign_ranks (rev (order_request_keys groups ctx)) p = (upd, p1)" by fastforce
  then show ?thesis
    using rank_update_inv [OF inv lru_assign_ranks_update [OF a]]
    by (auto simp: lru_on_request_finished_def lru_update_recency_def)
qed

lemma lru_poke_get:
  assumes "- (2 ^ 31) \<le> n" "n < 2 ^ 31" "lru_get p k = Some c"
  shows "lru_get (lru_poke k n p) = (lru_get p)(k \<mapsto> c\<lparr>chunk_ref := n\<rparr>)"
  using assms by (simp add: lru_get_def lru_poke_def fun_eq_iff poke_chunk_get c_int32_id)

text \<open>Pinning and releasing a chunk: only the idle keys and the evictable set change, together.\<close>

lemma lru_pin_ok:
  assumes inv: "lru_inv p" and c: "lru_get p k = Some c" "chunk_ref c = 0" and n: "0 < n" "n < 2 ^ 31"
  shows "\<exists>p'. lru_mark_non_evictable k p = Inr p' \<and> lru_inv (lru_poke k n p') \<and>
    lru_get (lru_poke k n p') = (lru_get p)(k \<mapsto> c\<lparr>chunk_ref := n\<rparr>)"
proof -
  define p1 where "p1 = p\<lparr>lru_evictable := removeAll k (lru_evictable p)\<rparr>"
  have "k \<in> set (lru_evictable p)" using lru_invD(3) [OF inv] c by (simp add: idle_keys_def)
  then have mark: "lru_mark_non_evictable k p = Inr p1" by (simp add: lru_mark_non_evictable_def p1_def)
  have get1: "lru_get p1 = lru_get p" by (simp add: p1_def lru_get_def fun_eq_iff)
  have get: "lru_get (lru_poke k n p1) = (lru_get p)(k \<mapsto> c\<lparr>chunk_ref := n\<rparr>)"
    using lru_poke_get [of n p1 k c] n c unfolding get1 by simp
  have "idle_keys (lru_get (lru_poke k n p1)) = idle_keys (lru_get p) - {k}"
    unfolding get using n by (auto simp: idle_keys_def)
  moreover have "heap_covers (lru_ranks p) (removeAll k (lru_evictable p)) (lru_heap p)"
    by (rule heap_covers_mono [OF lru_invD(4) [OF inv]]) auto
  moreover have "\<forall>x. dict_get (poke_chunk k n (lru_chunks p)) x \<noteq> None \<longrightarrow> dict_get (lru_ranks p) x \<noteq> None"
    using lru_invD(2) [OF inv] by (auto simp: poke_chunk_get)
  ultimately have "lru_inv (lru_poke k n p1)"
    using lru_invD(1,3) [OF inv] by (simp add: lru_inv_def p1_def lru_poke_def distinct_removeAll)
  with mark get show ?thesis by blast
qed

lemma lru_repin_ok:
  assumes inv: "lru_inv p" and c: "lru_get p k = Some c" "chunk_ref c \<noteq> 0" and n: "0 < n" "n < 2 ^ 31"
  shows "lru_inv (lru_poke k n p) \<and> lru_get (lru_poke k n p) = (lru_get p)(k \<mapsto> c\<lparr>chunk_ref := n\<rparr>)"
proof -
  have get: "lru_get (lru_poke k n p) = (lru_get p)(k \<mapsto> c\<lparr>chunk_ref := n\<rparr>)"
    using lru_poke_get [of n p k c] n c by simp
  have "idle_keys (lru_get (lru_poke k n p)) = idle_keys (lru_get p)"
    unfolding get using n c by (auto simp: idle_keys_def)
  moreover have "\<forall>x. dict_get (poke_chunk k n (lru_chunks p)) x \<noteq> None \<longrightarrow> dict_get (lru_ranks p) x \<noteq> None"
    using lru_invD(2) [OF inv] by (auto simp: poke_chunk_get)
  ultimately have "lru_inv (lru_poke k n p)"
    using lru_invD(1,3,4) [OF inv] by (simp add: lru_inv_def lru_poke_def)
  with get show ?thesis by blast
qed

lemma lru_release_ok:
  assumes inv: "lru_inv p" and c: "lru_get p k = Some c"
  shows "\<exists>p'. lru_mark_evictable k (lru_poke k 0 p) = Inr p' \<and> lru_inv p' \<and>
    lru_get p' = (lru_get p)(k \<mapsto> c\<lparr>chunk_ref := 0\<rparr>)"
proof -
  obtain r where r: "dict_get (lru_ranks p) k = Some r"
    using lru_invD(2) [OF inv] c by (auto simp: lru_get_def)
  define ev where "ev = List.insert k (lru_evictable p)"
  define h where "h = heappush entry_less (r, k) (lru_heap p)"
  define p1 where "p1 = (lru_poke k 0 p)\<lparr>lru_evictable := ev, lru_heap := h\<rparr>"
  have push: "lru_mark_evictable k (lru_poke k 0 p) = lru_maybe_compact_heap p1"
    using r by (simp add: lru_mark_evictable_def lru_push_evictable_def lru_poke_def p1_def ev_def h_def)
  have "heap_covers (lru_ranks p) ev h"
    using lru_invD(4) [OF inv] r by (auto simp: heap_covers_def ev_def h_def ent.heappush_heap)
  then have "heap_covers (lru_ranks p1) (lru_evictable p1) (lru_heap p1)"
    by (simp add: p1_def lru_poke_def)
  then obtain h2 where h2: "lru_maybe_compact_heap p1 = Inr (p1\<lparr>lru_heap := h2\<rparr>)"
      "heap_covers (lru_ranks p1) (lru_evictable p1) h2"
    by (rule lru_maybe_compact_heap_ok)
  have get: "lru_get (p1\<lparr>lru_heap := h2\<rparr>) = (lru_get p)(k \<mapsto> c\<lparr>chunk_ref := 0\<rparr>)"
    using lru_poke_get [of 0 p k c] c by (simp add: p1_def lru_get_def fun_eq_iff)
  have "idle_keys (lru_get (p1\<lparr>lru_heap := h2\<rparr>)) = insert k (idle_keys (lru_get p))"
    unfolding get by (auto simp: idle_keys_def)
  moreover have "\<forall>x. dict_get (poke_chunk k 0 (lru_chunks p)) x \<noteq> None \<longrightarrow> dict_get (lru_ranks p) x \<noteq> None"
    using lru_invD(2) [OF inv] by (auto simp: poke_chunk_get)
  ultimately have "lru_inv (p1\<lparr>lru_heap := h2\<rparr>)"
    using lru_invD(1,3) [OF inv] h2(2) by (simp add: lru_inv_def p1_def lru_poke_def ev_def)
  with push h2(1) get show ?thesis by simp
qed

lemma lru_evict_enough:
  assumes p: "lru_inv p" and n: "n \<le> card (idle_keys (lru_get p) - set protected)"
  shows "\<exists>ev p'. lru_evict n protected p = Inr (Some ev, p') \<and> lru_inv p' \<and> length ev = n \<and>
    distinct (map fst ev) \<and>
    (\<forall>(k, c) \<in> set ev. lru_get p k = Some c \<and> chunk_ref c = 0 \<and> k \<notin> set protected) \<and>
    lru_get p' = (\<lambda>k. if k \<in> fst ` set ev then None else lru_get p k)"
proof -
  let ?f = "\<lambda>((rank, key), chunk). (key, chunk)"
  obtain s d h p' where e: "lru_evict n protected p = Inr (Some (map ?f s), p')"
    and inv: "select_inv p n protected h s d" and len: "length s = n" and p': "lru_inv p'"
    and get: "lru_get p' = (\<lambda>k. if k \<in> (snd \<circ> fst) ` set s then None else lru_get p k)"
    using p n by (rule lru_evict_Some)
  define ev where "ev = map ?f s"
  have keys: "fst \<circ> ?f = (snd \<circ> fst :: heap_entry \<times> chunk_status \<Rightarrow> offload_key)"
    by (simp add: fun_eq_iff split_beta)
  have map_keys: "map fst ev = map (snd \<circ> fst) s" by (simp only: ev_def map_map keys)
  then have set_keys: "fst ` set ev = (snd \<circ> fst) ` set s" by (metis set_map)
  have "lru_get p k = Some c \<and> chunk_ref c = 0 \<and> k \<notin> set protected" if "(k, c) \<in> set ev" for k c
  proof -
    from that obtain r where "((r, k), c) \<in> set s" by (auto simp: ev_def)
    from select_inv_selected [OF inv this] show ?thesis by (simp add: lru_get_def)
  qed
  moreover have "length ev = n" using len by (simp add: ev_def)
  moreover have "distinct (map fst ev)" unfolding map_keys by (rule select_invD(4) [OF inv])
  ultimately show ?thesis
    using e p' get unfolding set_keys [symmetric] ev_def [symmetric] by blast
qed

lemma lru_clear_ok: "lru_inv (lru_clear p) \<and> lru_get (lru_clear p) = (\<lambda>_. None)"
  by (auto simp: lru_clear_def lru_inv_def lru_get_def idle_keys_def heap_covers_def is_heap_def heap_from_def)

lemma lru_get_finite: "finite (dom (lru_get p))"
  by (simp add: lru_get_def [abs_def] finite_dom_map_of)

lemma lru_ops_simps:
  "cp_get lru_ops = lru_get" "cp_poke lru_ops = lru_poke" "cp_insert lru_ops = lru_insert"
  "cp_remove lru_ops = lru_remove" "cp_on_store_miss lru_ops = (\<lambda>keys ctx p. p)"
  "cp_on_request_access lru_ops = lru_on_request_access"
  "cp_on_request_finished lru_ops = lru_on_request_finished" "cp_evict lru_ops = lru_evict"
  "cp_clear lru_ops = lru_clear" "cp_mark_evictable lru_ops = lru_mark_evictable"
  "cp_mark_non_evictable lru_ops = lru_mark_non_evictable"
  by (simp_all add: lru_ops_def)

interpretation lru: cache_policy lru_ops lru_inv
proof (unfold_locales, unfold lru_ops_simps, goal_cases)
  case 1
  show ?case by (rule lru_get_finite)
next
  case 2
  then show ?case by (rule lru_insert_ok)
next
  case 3
  then show ?case by (rule lru_remove_ok)
next
  case 4
  then show ?case by simp
next
  case 5
  then show ?case by (rule lru_access_ok)
next
  case 6
  then show ?case by (rule lru_finished_ok)
next
  case 7
  then show ?case by (rule lru_evict_enough)
next
  case 8
  then show ?case by (rule lru_evict_None)
next
  case 9
  show ?case by (rule lru_clear_ok)
next
  case 10
  then show ?case by (rule lru_pin_ok)
next
  case 11
  then show ?case by (rule lru_repin_ok)
next
  case 12
  then show ?case by (intro lru_release_ok)
qed

section \<open>Eviction order\<close>

text \<open>The entry that orders a chunk in the heap: its rank and its key.\<close>

definition lru_entry :: "lru_policy \<Rightarrow> offload_key \<Rightarrow> heap_entry" where
  "lru_entry p k = (the (dict_get (lru_ranks p) k), k)"

lemma lru_entry_current: "lru_is_current p e \<Longrightarrow> lru_entry p (snd e) = e"
  by (auto simp: lru_is_current_def lru_entry_def)

lemma lru_evicts_in_order:
  assumes p: "lru_inv p" and ev: "lru_evict n protected p = Inr (Some ev, p')"
  shows "sorted (map (lru_entry p \<circ> fst) ev) \<and>
    (\<forall>k \<in> fst ` set ev. \<forall>k' \<in> idle_keys (lru_get p') - set protected. lru_entry p k < lru_entry p k')"
proof -
  let ?f = "\<lambda>((rank, key), chunk). (key, chunk)"
  have "n \<le> card (idle_keys (lru_get p) - set protected)"
    using lru_evict_None [OF p] ev by (metis Inr_inject Pair_inject linorder_not_le option.distinct(1))
  with p obtain s d h p2 where e: "lru_evict n protected p = Inr (Some (map ?f s), p2)"
    and inv: "select_inv p n protected h s d"
    and get: "lru_get p2 = (\<lambda>k. if k \<in> (snd \<circ> fst) ` set s then None else lru_get p k)"
    by (rule lru_evict_Some)
  have evs: "ev = map ?f s" "p' = p2" using e ev by simp_all
  have entry: "lru_entry p (snd (fst x)) = fst x" if "x \<in> set s" for x
    using select_inv_selected(1) [OF inv] lru_entry_current that by (metis prod.collapse)
  have "map (lru_entry p \<circ> fst) ev = map fst s"
    unfolding evs using entry by (auto simp: split_beta)
  then have "sorted (map (lru_entry p \<circ> fst) ev)" using select_invD(7) [OF inv] by simp
  moreover have "lru_entry p k < lru_entry p k'"
    if k: "k \<in> fst ` set ev" and k': "k' \<in> idle_keys (lru_get p') - set protected" for k k'
  proof -
    from k obtain x where x: "x \<in> set s" "k = snd (fst x)" unfolding evs by (auto simp: split_beta)
    have k'_props: "k' \<notin> (snd \<circ> fst) ` set s" "k' \<in> set (lru_evictable p)" "k' \<notin> set protected"
      using k' lru_invD(3) [OF p] unfolding evs get idle_keys_def by (auto split: if_splits)
    from k'_props(2) obtain r where r: "dict_get (lru_ranks p) k' = Some r"
      by (rule lru_evictable_ranked [OF p])
    then have cur: "lru_is_current p (r, k')" using k'_props(2) by (simp add: lru_is_current_def)
    have "(r, k') \<notin> set d" using select_invD(5) [OF inv] k'_props(3) by auto
    moreover have "(r, k') \<notin> fst ` set s" using k'_props(1) by force
    ultimately have "(r, k') \<in> set h" using select_invD(2) [OF inv, rule_format, OF cur] by simp
    then have "fst x \<le> (r, k')" using select_invD(8) [OF inv] x(1) by blast
    moreover have "fst x \<noteq> (r, k')" using k'_props(1) x(1) by force
    ultimately show ?thesis using entry [OF x(1)] x(2) r by (simp add: lru_entry_def)
  qed
  ultimately show ?thesis by blast
qed

lemma lru_evict_result:
  assumes p: "lru_inv p" and ev: "lru_evict n protected p = Inr (Some ev, p')"
  shows "\<forall>(k, c) \<in> set ev. lru_get p k = Some c \<and> chunk_ref c = 0 \<and> k \<notin> set protected"
    and "lru_get p' = (\<lambda>k. if k \<in> fst ` set ev then None else lru_get p k)"
proof -
  have "n \<le> card (idle_keys (lru_get p) - set protected)"
    using lru_evict_None [OF p] ev by (metis Inr_inject Pair_inject linorder_not_le option.distinct(1))
  from lru_evict_enough [OF p this] ev
  show "\<forall>(k, c) \<in> set ev. lru_get p k = Some c \<and> chunk_ref c = 0 \<and> k \<notin> set protected"
    and "lru_get p' = (\<lambda>k. if k \<in> fst ` set ev then None else lru_get p k)"
    by fastforce+
qed

text \<open>Ranks never run ahead of the rank counter, so a request that finishes becomes the most recent.\<close>

definition ranks_bounded :: "lru_policy \<Rightarrow> bool" where
  "ranks_bounded p \<longleftrightarrow> (\<forall>k r. dict_get (lru_ranks p) k = Some r \<longrightarrow> fst r \<le> lru_next_rank p)"

lemma lru_assign_new_rank_bounded:
  assumes "ranks_bounded p" "lru_assign_new_rank key p = (b, p')"
  shows "ranks_bounded p'"
  using assms
  by (fastforce simp: lru_assign_new_rank_def ranks_bounded_def Let_def dict_get_set split: if_splits)

text \<open>Assigning ranks along distinct keys: the touched chunks end above all others, later keys above
  earlier ones.\<close>

lemma lru_assign_ranks_frame:
  assumes "lru_assign_ranks keys p = (u, p')" "k \<notin> set keys"
  shows "dict_get (lru_ranks p') k = dict_get (lru_ranks p) k"
  using assms
proof (induction keys arbitrary: p u)
  case (Cons key keys)
  obtain b p1 where b: "lru_assign_new_rank key p = (b, p1)" by fastforce
  obtain v where "lru_assign_ranks keys p1 = (v, p')" using Cons.prems(1) b by (auto split: prod.splits)
  with Cons have "dict_get (lru_ranks p') k = dict_get (lru_ranks p1) k" by simp
  also have "\<dots> = dict_get (lru_ranks p) k"
    using b Cons.prems(2) by (auto simp: lru_assign_new_rank_def Let_def dict_get_set split: if_splits)
  finally show ?case .
qed simp

lemma lru_assign_ranks_above:
  assumes "lru_assign_ranks keys p = (u, p')" "ranks_bounded p" "distinct keys"
    and "k \<in> set keys" "dict_get (lru_chunks p) k \<noteq> None"
  shows "\<exists>n. dict_get (lru_ranks p') k = Some (n, 0) \<and> lru_next_rank p < n"
  using assms
proof (induction keys arbitrary: p u)
  case (Cons key keys)
  obtain b p1 where b: "lru_assign_new_rank key p = (b, p1)" by fastforce
  obtain v where v: "lru_assign_ranks keys p1 = (v, p')" using Cons.prems(1) b by (auto split: prod.splits)
  note bd = lru_assign_new_rank_bounded [OF Cons.prems(2) b]
  have chunks: "lru_chunks p1 = lru_chunks p" and next_rank: "lru_next_rank p \<le> lru_next_rank p1"
    using b by (auto simp: lru_assign_new_rank_def Let_def split: if_splits)
  show ?case
  proof (cases "k = key")
    case True
    then have "dict_get (lru_ranks p1) k = Some (lru_next_rank p + 1, 0)"
      using b Cons.prems(5) by (auto simp: lru_assign_new_rank_def Let_def dict_get_set)
    then show ?thesis using lru_assign_ranks_frame [OF v, of k] Cons.prems(3) True by simp
  next
    case False
    then have "\<exists>n. dict_get (lru_ranks p') k = Some (n, 0) \<and> lru_next_rank p1 < n"
      using Cons.IH [OF v bd] Cons.prems(3,4,5) chunks by simp
    then show ?thesis using next_rank by fastforce
  qed
qed simp

lemma lru_assign_ranks_mono:
  assumes "lru_assign_ranks keys p = (u, p')" "ranks_bounded p" "distinct keys"
    and "i < j" "j < length keys" "dict_get (lru_chunks p) (keys ! i) \<noteq> None"
    and "dict_get (lru_chunks p) (keys ! j) \<noteq> None"
  shows "the (dict_get (lru_ranks p') (keys ! i)) < the (dict_get (lru_ranks p') (keys ! j))"
  using assms
proof (induction keys arbitrary: p u i j)
  case (Cons key keys)
  obtain b p1 where b: "lru_assign_new_rank key p = (b, p1)" by fastforce
  obtain v where v: "lru_assign_ranks keys p1 = (v, p')" using Cons.prems(1) b by (auto split: prod.splits)
  note bd = lru_assign_new_rank_bounded [OF Cons.prems(2) b]
  have chunks: "lru_chunks p1 = lru_chunks p"
    using b by (auto simp: lru_assign_new_rank_def Let_def split: if_splits)
  obtain j' where j: "j = Suc j'" "j' < length keys" using Cons.prems(4,5) by (cases j) auto
  show ?case
  proof (cases i)
    case 0
    then have "dict_get (lru_ranks p1) key = Some (lru_next_rank p + 1, 0)"
        "lru_next_rank p1 = lru_next_rank p + 1"
      using b Cons.prems(6) by (auto simp: lru_assign_new_rank_def Let_def dict_get_set)
    then have "dict_get (lru_ranks p') key = Some (lru_next_rank p1, 0)"
      using lru_assign_ranks_frame [OF v, of key] Cons.prems(3) by simp
    moreover have "\<exists>n. dict_get (lru_ranks p') (keys ! j') = Some (n, 0) \<and> lru_next_rank p1 < n"
      using Cons.prems(3,7) j chunks by (intro lru_assign_ranks_above [OF v bd]) auto
    ultimately show ?thesis using 0 j by auto
  next
    case (Suc i')
    then show ?thesis using Cons.IH [OF v bd, of i' j'] Cons.prems j chunks by simp
  qed
qed simp

lemma order_request_keys_mset: "mset (order_request_keys groups ctx) = mset (concat groups)"
  by (simp add: order_request_keys_def Let_def)

lemma order_request_keys_distinct: "distinct (concat groups) \<Longrightarrow> distinct (order_request_keys groups ctx)"
  using mset_eq_imp_distinct_iff [OF order_request_keys_mset] by blast

text \<open>What finishing a request does to the ranks.\<close>

lemma lru_finished_ranks:
  assumes inv: "lru_inv p" and bd: "ranks_bounded p" and dist: "distinct (concat groups)"
    and fin: "lru_on_request_finished groups ins reused ctx p = Inr p1"
    and order: "order = order_request_keys groups ctx"
  shows "lru_inv p1" and "lru_get p1 = lru_get p"
    and "\<And>k. k \<notin> set order \<Longrightarrow> dict_get (lru_ranks p1) k = dict_get (lru_ranks p) k"
    and "\<And>k. k \<in> set order \<Longrightarrow> lru_get p k \<noteq> None \<Longrightarrow> lru_next_rank p < fst (the (dict_get (lru_ranks p1) k))"
    and "\<And>i j. i < j \<Longrightarrow> j < length order \<Longrightarrow> lru_get p (order ! i) \<noteq> None \<Longrightarrow> lru_get p (order ! j) \<noteq> None \<Longrightarrow>
      the (dict_get (lru_ranks p1) (order ! j)) < the (dict_get (lru_ranks p1) (order ! i))"
proof -
  have d: "distinct (rev order)" using order_request_keys_distinct [OF dist] order by simp
  obtain u q where a: "lru_assign_ranks (rev order) p = (u, q)" by fastforce
  from rank_update_inv [OF inv lru_assign_ranks_update [OF a]] a fin
  have p1: "lru_inv p1" "lru_get p1 = lru_get p" "lru_ranks p1 = lru_ranks q"
    by (auto simp: lru_on_request_finished_def lru_update_recency_def order)
  show "lru_inv p1" "lru_get p1 = lru_get p" by (fact p1)+
  show "dict_get (lru_ranks p1) k = dict_get (lru_ranks p) k" if "k \<notin> set order" for k
    using lru_assign_ranks_frame [OF a] that p1(3) by simp
  show "lru_next_rank p < fst (the (dict_get (lru_ranks p1) k))"
    if "k \<in> set order" "lru_get p k \<noteq> None" for k
    using lru_assign_ranks_above [OF a bd d, of k] that p1(3) by (auto simp: lru_get_def)
  show "the (dict_get (lru_ranks p1) (order ! j)) < the (dict_get (lru_ranks p1) (order ! i))"
    if "i < j" "j < length order" "lru_get p (order ! i) \<noteq> None" "lru_get p (order ! j) \<noteq> None" for i j
  proof -
    have nth: "rev order ! (length order - Suc j) = order ! j" "rev order ! (length order - Suc i) = order ! i"
      using that(1,2) by (simp_all add: rev_nth)
    have less: "length order - Suc j < length order - Suc i" "length order - Suc i < length (rev order)"
      using that(1,2) by auto
    show ?thesis
      using lru_assign_ranks_mono [OF a bd d less] that(3,4) p1(3) unfolding nth lru_get_def by simp
  qed
qed

text \<open>The bound is kept as long as the rank stored in a request context is one this policy gave out.\<close>

definition ctx_rank_ok :: "lru_policy \<Rightarrow> req_context \<Rightarrow> bool" where
  "ctx_rank_ok p ctx \<longleftrightarrow>
     (case state_rank ctx of None \<Rightarrow> True
      | Some s \<Rightarrow> rank_owner s = lru_owner p \<and> rank_generation s = lru_generation p \<longrightarrow>
          rank_value s \<le> lru_next_rank p)"

lemma lru_get_request_rank_bounded:
  assumes "ctx_rank_ok p ctx" "lru_get_request_rank ctx p = (r, p', ctx')"
  shows "r \<le> lru_next_rank p'" "lru_next_rank p \<le> lru_next_rank p'" "ctx_rank_ok p' ctx'"
  using assms
  by (auto simp: ctx_rank_ok_def lru_get_request_rank_def Let_def split: option.splits if_splits)

lemma ranks_bounded_set:
  assumes "ranks_bounded p" "fst r \<le> n" "lru_next_rank p \<le> n"
    and "lru_ranks p' = dict_set k r (lru_ranks p)" "lru_next_rank p' = n"
  shows "ranks_bounded p'"
  unfolding ranks_bounded_def
proof (intro allI impI)
  fix x s assume "dict_get (lru_ranks p') x = Some s"
  then have "s = r \<or> dict_get (lru_ranks p) x = Some s" using assms(4) by (simp add: dict_get_set split: if_splits)
  then show "fst s \<le> lru_next_rank p'"
    using assms(1) [unfolded ranks_bounded_def, rule_format, of x s] assms(2,3,5) by auto
qed

lemma lru_insert_bounded:
  assumes bd: "ranks_bounded p" and ctx: "ctx_rank_ok p ctx" and ins: "lru_insert k c ctx p = (p', ctx')"
  shows "ranks_bounded p' \<and> ctx_rank_ok p' ctx'"
proof (cases "get_offload_key_position ctx k")
  case None
  then have "lru_ranks p' = dict_set k (lru_next_rank p + 1, 0) (lru_ranks p)"
      "lru_next_rank p' = lru_next_rank p + 1" "lru_owner p' = lru_owner p"
      "lru_generation p' = lru_generation p" "ctx' = ctx"
    using ins by (auto simp: lru_insert_def Let_def split: if_splits)
  with ranks_bounded_set [OF bd, of "(lru_next_rank p + 1, 0)" "lru_next_rank p + 1" p' k] ctx
  show ?thesis by (auto simp: ctx_rank_ok_def split: option.splits)
next
  case (Some position)
  define p0 where "p0 = p\<lparr>lru_chunks := dict_set k c (lru_chunks p)\<rparr>"
  obtain r q ctx1 where rk: "lru_get_request_rank ctx p0 = (r, q, ctx1)" by (metis prod_cases3)
  have "ctx_rank_ok p0 ctx" using ctx by (simp add: ctx_rank_ok_def p0_def split: option.splits)
  note R = lru_get_request_rank_bounded [OF this rk]
  have q: "lru_ranks q = lru_ranks p" using lru_get_request_rank_update [OF rk] by (simp add: p0_def)
  have p': "lru_ranks p' = dict_set k (r, - position) (lru_ranks p)" "lru_next_rank p' = lru_next_rank q"
      "lru_owner p' = lru_owner q" "lru_generation p' = lru_generation q" "ctx' = ctx1"
    using ins Some rk q by (auto simp: lru_insert_def Let_def p0_def [symmetric] split: if_splits)
  have "ranks_bounded p'"
    using ranks_bounded_set [OF bd _ _ p'(1,2)] R(1,2) by (simp add: p0_def)
  then show ?thesis using R(3) p' by (simp add: ctx_rank_ok_def split: option.splits)
qed

lemma lru_finished_bounded:
  assumes bd: "ranks_bounded p"
  shows "lru_assign_ranks keys p = (u, p') \<Longrightarrow> ranks_bounded p'"
  using bd
proof (induction keys arbitrary: p u)
  case (Cons key keys)
  obtain b p1 where b: "lru_assign_new_rank key p = (b, p1)" by fastforce
  obtain v where "lru_assign_ranks keys p1 = (v, p')" using Cons.prems(1) b by (auto split: prod.splits)
  then show ?case using Cons.IH lru_assign_new_rank_bounded [OF Cons.prems(2) b] by blast
qed simp

lemma lru_access_loop_bounded:
  assumes "ranks_bounded p" "r \<le> lru_next_rank p" "lru_access_loop ctx r keys upd p = Inr (upd', p')"
  shows "ranks_bounded p'"
  using assms
proof (induction keys arbitrary: p upd)
  case (Cons key keys)
  show ?case
  proof (cases "\<exists>position. get_offload_key_position ctx key = Some position \<and>
      dict_get (lru_chunks p) key \<noteq> None")
    case True
    then obtain position where pos: "get_offload_key_position ctx key = Some position"
        "dict_get (lru_chunks p) key \<noteq> None" by blast
    have "ranks_bounded (p\<lparr>lru_ranks := dict_set key (r, - position) (lru_ranks p)\<rparr>)"
      by (rule ranks_bounded_set [OF Cons.prems(1), of "(r, - position)" "lru_next_rank p"])
        (use Cons.prems(2) in simp_all)
    then show ?thesis
      using Cons pos by (auto simp: Let_def rbind_Inr_iff split: if_splits)
  next
    case False
    then show ?thesis using Cons by (auto simp: rbind_Inr_iff split: option.splits if_splits)
  qed
qed simp

lemma lru_clear_bounded: "ranks_bounded (lru_clear p)"
  by (simp add: ranks_bounded_def lru_clear_def)


text \<open>Three idle chunks, of which the last two belong to the request that finishes.\<close>

definition sample_lru :: lru_policy where
  "sample_lru =
     \<lparr>lru_owner = 0, lru_capacity = 3,
      lru_chunks = [([1], \<lparr>chunk_ref = 0, chunk_id = 0\<rparr>), ([2], \<lparr>chunk_ref = 0, chunk_id = 1\<rparr>),
                    ([3], \<lparr>chunk_ref = 0, chunk_id = 2\<rparr>)],
      lru_ranks = [([1], (1, 0)), ([2], (2, 0)), ([3], (3, 0))],
      lru_evictable = [[1], [2], [3]],
      lru_heap = [((1, 0), [1]), ((2, 0), [2]), ((3, 0), [3])],
      lru_next_rank = 3, lru_generation = 0\<rparr>"

definition sample_lru_done :: lru_policy where
  "sample_lru_done = sample_lru\<lparr>lru_ranks := [([1], (1, 0)), ([2], (5, 0)), ([3], (4, 0))],
     lru_heap := [((1, 0), [1]), ((2, 0), [2]), ((3, 0), [3]), ((4, 0), [3]), ((5, 0), [2])],
     lru_next_rank := 5\<rparr>"

definition sample_lru_left :: lru_policy where
  "sample_lru_left = sample_lru\<lparr>lru_chunks := [([2], \<lparr>chunk_ref = 0, chunk_id = 1\<rparr>)],
     lru_ranks := [([2], (5, 0))], lru_evictable := [[2]], lru_heap := [((5, 0), [2])], lru_next_rank := 5\<rparr>"

lemma sample_lru_inv: "lru_inv sample_lru" "ranks_bounded sample_lru"
  by (auto simp: lru_inv_def sample_lru_def idle_keys_def lru_get_def heap_covers_def is_heap_def
      ranks_bounded_def heap_from_def entry_less_def less_Suc_eq numeral_eq_Suc split: if_splits)

lemma sample_lru_finishes:
  "lru_on_request_finished [[[2], [3]]] [] [] (req_context_init ''r'') sample_lru = Inr sample_lru_done"
  by code_simp

lemma sample_lru_evicts:
  "lru_evict 2 [] sample_lru_done = Inr (Some [([1], \<lparr>chunk_ref = 0, chunk_id = 0\<rparr>),
     ([3], \<lparr>chunk_ref = 0, chunk_id = 2\<rparr>)], sample_lru_left)"
  by code_simp

end
