(* ===== verification/Arc_Policy.thy ===== *)
theory Arc_Policy
  imports Cache_Policy "HOL-Library.Multiset"
begin

text \<open>
  \<open>ARCCachePolicy\<close> (\<open>v1/kv_offload/cpu/policies/arc.py\<close>): recent and frequent chunks with ghost lists
  and an adaptive target. Floating-point numbers are rationals. The policy is shown to meet the
  contract \<open>cache_policy\<close>.
\<close>

section \<open>Operations\<close>

record arc_policy =
  arc_capacity :: int
  target_t1_size :: rat
  t1 :: "(offload_key, chunk_status) dict"
  t2 :: "(offload_key, chunk_status) dict"
  b1 :: "offload_key list"
  b2 :: "offload_key list"

definition arc_init :: "int \<Rightarrow> arc_policy" where
  "arc_init cache_capacity =
     \<lparr>arc_capacity = cache_capacity, target_t1_size = 0, t1 = [], t2 = [], b1 = [], b2 = []\<rparr>"

text \<open>A chunk object is always true, so \<open>t1.get(key) or t2.get(key)\<close> is the first that is set.\<close>

definition arc_get :: "arc_policy \<Rightarrow> offload_key \<Rightarrow> chunk_status option" where
  "arc_get p key = (case dict_get (t1 p) key of Some c \<Rightarrow> Some c | None \<Rightarrow> dict_get (t2 p) key)"

definition arc_poke :: "offload_key \<Rightarrow> int \<Rightarrow> arc_policy \<Rightarrow> arc_policy" where
  "arc_poke key n p =
     (if dict_get (t1 p) key \<noteq> None then p\<lparr>t1 := poke_chunk key n (t1 p)\<rparr>
      else p\<lparr>t2 := poke_chunk key n (t2 p)\<rparr>)"

definition arc_insert :: "offload_key \<Rightarrow> chunk_status \<Rightarrow> req_context \<Rightarrow> arc_policy \<Rightarrow> arc_policy \<times> req_context" where
  "arc_insert key chunk ctx p =
     (p\<lparr>t1 := dict_set key chunk (t1 p), b1 := removeAll key (b1 p), b2 := removeAll key (b2 p)\<rparr>, ctx)"

definition arc_remove :: "offload_key \<Rightarrow> arc_policy \<Rightarrow> arc_policy result" where
  "arc_remove key p =
     Inr (if dict_get (t1 p) key \<noteq> None then p\<lparr>t1 := dict_del key (t1 p)\<rparr>
          else p\<lparr>t2 := dict_del key (t2 p)\<rparr>)"

definition adapt_to_ghost_hit :: "offload_key \<Rightarrow> arc_policy \<Rightarrow> arc_policy" where
  "adapt_to_ghost_hit key p =
     (if key \<in> set (b1 p)
      then let delta = max 1 (of_nat (length (b2 p)) / of_nat (length (b1 p)))
           in p\<lparr>target_t1_size := min (target_t1_size p + delta) (of_int (arc_capacity p)),
                b1 := removeAll key (b1 p) @ [key]\<rparr>
      else if key \<in> set (b2 p)
      then let delta = max 1 (of_nat (length (b1 p)) / of_nat (length (b2 p)))
           in p\<lparr>target_t1_size := max (target_t1_size p - delta) 0,
                b2 := removeAll key (b2 p) @ [key]\<rparr>
      else p)"

definition arc_on_store_miss :: "offload_key list \<Rightarrow> req_context \<Rightarrow> arc_policy \<Rightarrow> arc_policy" where
  "arc_on_store_miss keys ctx p = fold adapt_to_ghost_hit (rev keys) p"

definition arc_touch_key :: "offload_key list \<Rightarrow> offload_key list \<Rightarrow> offload_key \<Rightarrow> arc_policy \<Rightarrow> arc_policy" where
  "arc_touch_key insertion_only reused key p =
     (if key \<in> set insertion_only
      then if dict_get (t1 p) key \<noteq> None then p\<lparr>t1 := move_to_end key (t1 p)\<rparr>
           else if dict_get (t2 p) key \<noteq> None then p\<lparr>t2 := move_to_end key (t2 p)\<rparr>
           else p
      else case dict_get (t1 p) key of
             Some chunk \<Rightarrow>
               (if key \<in> set reused
                then p\<lparr>t1 := dict_del key (t1 p), t2 := dict_set key chunk (t2 p)\<rparr> else p)
           | None \<Rightarrow>
               (if key \<in> set reused \<and> dict_get (t2 p) key \<noteq> None
                then p\<lparr>t2 := move_to_end key (t2 p)\<rparr> else p))"

definition arc_on_request_finished ::
  "offload_key list list \<Rightarrow> offload_key list \<Rightarrow> offload_key list \<Rightarrow> req_context \<Rightarrow> arc_policy \<Rightarrow>
   arc_policy result" where
  "arc_on_request_finished groups insertion_only reused ctx p =
     Inr (fold (arc_touch_key insertion_only reused) (rev (order_request_keys groups ctx)) p)"

definition arc_clear :: "arc_policy \<Rightarrow> arc_policy" where
  "arc_clear p = p\<lparr>t1 := [], t2 := [], b1 := [], b2 := [], target_t1_size := 0\<rparr>"

text \<open>\<open>int()\<close> of a number drops its fraction.\<close>

definition py_trunc :: "rat \<Rightarrow> int" where
  "py_trunc q = (if q \<ge> 0 then \<lfloor>q\<rfloor> else \<lceil>q\<rceil>)"

text \<open>\<open>next_candidate\<close> on an iterator, which is the list of the entries still to come.\<close>

fun next_candidate ::
  "offload_key list \<Rightarrow> (offload_key \<times> chunk_status) list \<Rightarrow>
   (offload_key \<times> chunk_status) option \<times> (offload_key \<times> chunk_status) list" where
  "next_candidate protected [] = (None, [])"
| "next_candidate protected ((key, chunk) # entries) =
     (if chunk_ref chunk = 0 \<and> key \<notin> set protected then (Some (key, chunk), entries)
      else next_candidate protected entries)"

fun arc_select ::
  "offload_key list \<Rightarrow> int \<Rightarrow> nat \<Rightarrow> int \<Rightarrow> (offload_key \<times> chunk_status) list \<Rightarrow>
   (offload_key \<times> chunk_status) list \<Rightarrow> ((offload_key \<times> chunk_status) \<times> bool) list option" where
  "arc_select protected target 0 virtual_t1_size t1_iter t2_iter = Some []"
| "arc_select protected target (Suc n) virtual_t1_size t1_iter t2_iter =
     (let (first, t1_iter1) =
            (if virtual_t1_size \<ge> target then next_candidate protected t1_iter else (None, t1_iter))
      in case first of
           Some entry \<Rightarrow>
             map_option (Cons (entry, True))
               (arc_select protected target n (virtual_t1_size - 1) t1_iter1 t2_iter)
         | None \<Rightarrow>
             (case next_candidate protected t2_iter of
                (Some entry, t2_iter1) \<Rightarrow>
                  map_option (Cons (entry, False))
                    (arc_select protected target n virtual_t1_size t1_iter1 t2_iter1)
              | (None, t2_iter1) \<Rightarrow>
                  (case next_candidate protected t1_iter1 of
                     (Some entry, t1_iter2) \<Rightarrow>
                       map_option (Cons (entry, True))
                         (arc_select protected target n (virtual_t1_size - 1) t1_iter2 t2_iter1)
                   | (None, _) \<Rightarrow> None)))"

text \<open>A new ghost goes to the end; one that is there already keeps its place.\<close>

definition ghost_add :: "offload_key \<Rightarrow> offload_key list \<Rightarrow> offload_key list" where
  "ghost_add key ghost = (if key \<in> set ghost then ghost else ghost @ [key])"

definition arc_apply :: "(offload_key \<times> chunk_status) \<times> bool \<Rightarrow> arc_policy \<Rightarrow> arc_policy" where
  "arc_apply cand p =
     (let key = fst (fst cand) in
      if snd cand then p\<lparr>t1 := dict_del key (t1 p), b1 := ghost_add key (b1 p)\<rparr>
      else p\<lparr>t2 := dict_del key (t2 p), b2 := ghost_add key (b2 p)\<rparr>)"

text \<open>Popping the oldest ghosts until \<open>cap\<close> are left; a negative capacity would pop an empty
  dictionary.\<close>

definition trim_ghost :: "int \<Rightarrow> offload_key list \<Rightarrow> offload_key list result" where
  "trim_ghost cap ghost =
     (if cap < 0 then Inl KeyError else Inr (drop (nat (int (length ghost) - cap)) ghost))"

definition arc_evict ::
  "nat \<Rightarrow> offload_key list \<Rightarrow> arc_policy \<Rightarrow> ((offload_key \<times> chunk_status) list option \<times> arc_policy) result" where
  "arc_evict n protected p =
     (if n = 0 then Inr (Some [], p)
      else case arc_select protected (py_trunc (target_t1_size p)) n (int (length (t1 p))) (t1 p) (t2 p) of
             None \<Rightarrow> Inr (None, p)
           | Some candidates \<Rightarrow>
               (let p1 = fold arc_apply candidates p
                in rbind (trim_ghost (arc_capacity p1) (b1 p1)) (\<lambda>g1.
                   rbind (trim_ghost (arc_capacity p1) (b2 p1)) (\<lambda>g2.
                     Inr (Some (map fst candidates), p1\<lparr>b1 := g1, b2 := g2\<rparr>)))))"

definition arc_ops :: "arc_policy cache_policy_ops" where
  "arc_ops =
     \<lparr>cp_get = arc_get, cp_poke = arc_poke, cp_insert = arc_insert, cp_remove = arc_remove,
      cp_on_store_miss = arc_on_store_miss, cp_on_request_access = (\<lambda>keys ctx p. Inr (p, ctx)),
      cp_on_request_finished = arc_on_request_finished, cp_evict = arc_evict, cp_clear = arc_clear,
      cp_mark_evictable = (\<lambda>key p. Inr p), cp_mark_non_evictable = (\<lambda>key p. Inr p)\<rparr>"

section \<open>The invariant\<close>

definition arc_inv :: "arc_policy \<Rightarrow> bool" where
  "arc_inv p \<longleftrightarrow>
     distinct (map fst (t1 p)) \<and> distinct (map fst (t2 p)) \<and>
     fst ` set (t1 p) \<inter> fst ` set (t2 p) = {} \<and>
     0 \<le> target_t1_size p \<and> target_t1_size p \<le> of_int (arc_capacity p)"

lemma arc_invD:
  assumes "arc_inv p"
  shows "distinct (map fst (t1 p))" "distinct (map fst (t2 p))"
    "fst ` set (t1 p) \<inter> fst ` set (t2 p) = {}" "0 \<le> target_t1_size p"
    "target_t1_size p \<le> of_int (arc_capacity p)" "0 \<le> arc_capacity p"
proof -
  have "(0 :: rat) \<le> of_int (arc_capacity p)" if "arc_inv p"
    using that unfolding arc_inv_def by linarith
  with assms show "distinct (map fst (t1 p))" "distinct (map fst (t2 p))"
    "fst ` set (t1 p) \<inter> fst ` set (t2 p) = {}" "0 \<le> target_t1_size p"
    "target_t1_size p \<le> of_int (arc_capacity p)" "0 \<le> arc_capacity p"
    by (auto simp: arc_inv_def)
qed

lemma arc_init_inv: "0 \<le> n \<Longrightarrow> arc_inv (arc_init n)"
  by (simp add: arc_inv_def arc_init_def)

lemma arc_get_add: "arc_get p = map_of (t2 p) ++ map_of (t1 p)"
  by (simp add: fun_eq_iff arc_get_def map_add_def)

subsection \<open>Hooks that keep the chunks\<close>

lemma adapt_to_ghost_hit_ok:
  assumes "arc_inv p"
  shows "arc_inv (adapt_to_ghost_hit key p) \<and> arc_get (adapt_to_ghost_hit key p) = arc_get p"
proof
  have same: "t1 (adapt_to_ghost_hit key p) = t1 p" "t2 (adapt_to_ghost_hit key p) = t2 p"
    by (simp_all add: adapt_to_ghost_hit_def Let_def)
  show "arc_inv (adapt_to_ghost_hit key p)"
    using assms arc_invD(6) [OF assms] by (auto simp: arc_inv_def adapt_to_ghost_hit_def Let_def)
  show "arc_get (adapt_to_ghost_hit key p) = arc_get p"
    by (simp add: arc_get_add same)
qed

lemma arc_store_miss_ok:
  assumes "arc_inv p"
  shows "arc_inv (arc_on_store_miss keys ctx p) \<and> arc_get (arc_on_store_miss keys ctx p) = arc_get p"
  unfolding arc_on_store_miss_def using assms
proof (induction "rev keys" arbitrary: keys p)
  case (Cons k ks)
  then show ?case
    using Cons.hyps(1) [of "rev ks"] adapt_to_ghost_hit_ok [of p k] by (simp add: Cons.hyps(2) [symmetric])
qed simp

lemma arc_touch_key_ok:
  assumes "arc_inv p"
  shows "arc_inv (arc_touch_key ins reused key p) \<and> arc_get (arc_touch_key ins reused key p) = arc_get p"
proof -
  note D = arc_invD [OF assms]
  show ?thesis
  proof (cases "dict_get (t1 p) key")
    case None
    then show ?thesis
      using assms by (auto simp: arc_touch_key_def arc_inv_def arc_get_add)
  next
    case (Some c)
    then have "key \<in> fst ` set (t1 p)" using dict_get_in by fastforce
    then have notin: "key \<notin> fst ` set (t2 p)" using D(3) by blast
    have moved: "(map_of (t2 p))(key \<mapsto> c) ++ (map_of (t1 p))(key := None) = map_of (t2 p) ++ map_of (t1 p)"
      using Some by (auto simp: fun_eq_iff map_add_def split: option.splits)
    show ?thesis
      using Some D notin moved
      by (auto simp: arc_touch_key_def arc_inv_def arc_get_add update_conv' delete_conv'
          distinct_update distinct_delete)
  qed
qed

lemma arc_finished_ok:
  assumes "arc_inv p"
  shows "\<exists>p'. arc_on_request_finished groups ins reused ctx p = Inr p' \<and> arc_inv p' \<and> arc_get p' = arc_get p"
proof -
  have "arc_inv (fold (arc_touch_key ins reused) ks p) \<and> arc_get (fold (arc_touch_key ins reused) ks p) = arc_get p"
    for ks using assms by (induction ks arbitrary: p) (simp_all add: arc_touch_key_ok)
  then show ?thesis by (simp add: arc_on_request_finished_def)
qed

subsection \<open>Selection\<close>

text \<open>The candidates of a dictionary, in its order, and what the selection takes of them: from \<open>t1\<close>
  while it is at least as large as its target, from \<open>t2\<close> otherwise, from the other list when one is
  used up.\<close>

definition candidates :: "offload_key list \<Rightarrow> (offload_key, chunk_status) dict \<Rightarrow> (offload_key, chunk_status) dict" where
  "candidates protected d = filter (\<lambda>(key, chunk). chunk_ref chunk = 0 \<and> key \<notin> set protected) d"

fun arc_pick :: "int \<Rightarrow> nat \<Rightarrow> int \<Rightarrow> 'a list \<Rightarrow> 'a list \<Rightarrow> ('a \<times> bool) list option" where
  "arc_pick target 0 size1 c1 c2 = Some []"
| "arc_pick target (Suc n) size1 c1 c2 =
     (if c1 \<noteq> [] \<and> (size1 \<ge> target \<or> c2 = [])
      then map_option (Cons (hd c1, True)) (arc_pick target n (size1 - 1) (tl c1) c2)
      else if c2 \<noteq> [] then map_option (Cons (hd c2, False)) (arc_pick target n size1 c1 (tl c2))
      else None)"

lemma candidates_Nil [simp]: "candidates protected [] = []"
  by (simp add: candidates_def)

lemma next_candidate_cases:
  obtains (none) "candidates protected l = []" "next_candidate protected l = (None, [])"
  | (some) e l' where "candidates protected l = e # candidates protected l'"
      "next_candidate protected l = (Some e, l')"
proof (induction l)
  case Nil
  then show ?case by (simp add: candidates_def)
next
  case (Cons x l)
  obtain k c where x: "x = (k, c)" by fastforce
  show ?case
  proof (cases "chunk_ref c = 0 \<and> k \<notin> set protected")
    case True
    then show ?thesis using Cons.prems(2) [of x l] by (simp add: x candidates_def)
  next
    case False
    then have eq: "candidates protected (x # l) = candidates protected l"
      "next_candidate protected (x # l) = next_candidate protected l" by (auto simp: x candidates_def)
    show ?thesis by (rule Cons.IH) (use Cons.prems eq in auto)
  qed
qed

lemma arc_select_eq_pick:
  "arc_select protected target n v l1 l2 =
   arc_pick target n v (candidates protected l1) (candidates protected l2)"
proof (induction n arbitrary: v l1 l2)
  case (Suc n)
  show ?case
  proof (cases protected l1 rule: next_candidate_cases)
    case none
    show ?thesis
      by (cases protected l2 rule: next_candidate_cases) (use none Suc.IH in auto)
  next
    case (some e l')
    then show ?thesis
      by (cases protected l2 rule: next_candidate_cases) (use some Suc.IH in auto)
  qed
qed simp

text \<open>The selection fails exactly when there are too few candidates; otherwise it takes a prefix of
  each list, marked with the list it comes from.\<close>

lemma arc_pick_None: "arc_pick target n v c1 c2 = None \<longleftrightarrow> length c1 + length c2 < n"
proof (induction n arbitrary: v c1 c2)
  case (Suc n)
  then show ?case by (cases c1; cases c2) auto
qed simp

lemma arc_pick_Some:
  assumes "arc_pick target n v c1 c2 = Some cs"
  shows "\<exists>m \<le> n. map fst (filter snd cs) = take m c1 \<and> map fst (filter (\<lambda>x. \<not> snd x) cs) = take (n - m) c2 \<and>
    m \<le> length c1 \<and> n - m \<le> length c2 \<and> length cs = n"
  using assms
proof (induction n arbitrary: v c1 c2 cs)
  case (Suc n)
  show ?case
  proof (cases "c1 \<noteq> [] \<and> (v \<ge> target \<or> c2 = [])")
    case True
    then obtain ds where ds: "arc_pick target n (v - 1) (tl c1) c2 = Some ds" "cs = (hd c1, True) # ds"
      using Suc.prems by auto
    from Suc.IH [OF ds(1)] obtain m where m: "m \<le> n" "map fst (filter snd ds) = take m (tl c1)"
        "map fst (filter (\<lambda>x. \<not> snd x) ds) = take (n - m) c2" "m \<le> length (tl c1)" "n - m \<le> length c2"
        "length ds = n" by blast
    have "take (Suc m) c1 = hd c1 # take m (tl c1)" using True by (cases c1) auto
    with m True ds(2) show ?thesis by (intro exI [of _ "Suc m"]) (cases c1, auto)
  next
    case False
    then obtain ds where ds: "arc_pick target n v c1 (tl c2) = Some ds" "cs = (hd c2, False) # ds"
      and c2: "c2 \<noteq> []" using Suc.prems by (auto split: if_splits)
    from Suc.IH [OF ds(1)] obtain m where m: "m \<le> n" "map fst (filter snd ds) = take m c1"
        "map fst (filter (\<lambda>x. \<not> snd x) ds) = take (n - m) (tl c2)" "m \<le> length c1" "n - m \<le> length (tl c2)"
        "length ds = n" by blast
    have "take (Suc n - m) c2 = hd c2 # take (n - m) (tl c2)" using c2 m(1) by (cases c2) (auto simp: Suc_diff_le)
    with m c2 ds(2) show ?thesis by (intro exI [of _ m]) (cases c2, auto)
  qed
qed simp

lemma candidates_keys:
  assumes "distinct (map fst d)"
  shows "fst ` set (candidates protected d) =
    {k. \<exists>c. dict_get d k = Some c \<and> chunk_ref c = 0} - set protected"
    and "distinct (map fst (candidates protected d))"
proof -
  show "fst ` set (candidates protected d) =
    {k. \<exists>c. dict_get d k = Some c \<and> chunk_ref c = 0} - set protected"
    using assms by (force simp: candidates_def)
  show "distinct (map fst (candidates protected d))"
    using assms unfolding candidates_def by (rule distinct_map_filter)
qed

lemma arc_idle_split:
  assumes "arc_inv p"
  shows "idle_keys (arc_get p) - set protected =
    fst ` set (candidates protected (t1 p)) \<union> fst ` set (candidates protected (t2 p))"
proof -
  note D = arc_invD [OF assms]
  have "idle_keys (arc_get p) = {k. \<exists>c. dict_get (t1 p) k = Some c \<and> chunk_ref c = 0} \<union>
      {k. \<exists>c. dict_get (t2 p) k = Some c \<and> chunk_ref c = 0}" (is "?I = ?A \<union> ?B")
  proof
    show "?I \<subseteq> ?A \<union> ?B" by (auto simp: idle_keys_def arc_get_def split: option.splits)
    show "?A \<union> ?B \<subseteq> ?I"
    proof
      fix k assume "k \<in> ?A \<union> ?B"
      then consider c where "dict_get (t1 p) k = Some c" "chunk_ref c = 0"
        | c where "dict_get (t2 p) k = Some c" "chunk_ref c = 0" by blast
      then show "k \<in> ?I"
      proof cases
        case 2
        then have "k \<in> fst ` set (t2 p)" using dict_get_in [of "t2 p" k] by auto
        then have "k \<notin> fst ` set (t1 p)" using D(3) by blast
        then have "dict_get (t1 p) k = None" using dict_get_in [of "t1 p" k] by blast
        with 2 show ?thesis by (simp add: idle_keys_def arc_get_def)
      qed (simp add: idle_keys_def arc_get_def)
    qed
  qed
  then show ?thesis
    unfolding candidates_keys(1) [OF D(1)] candidates_keys(1) [OF D(2)] by (simp only: Un_Diff)
qed

lemma candidates_sub: "set (candidates protected d) \<subseteq> set d"
  by (auto simp: candidates_def)

lemma arc_idle_count:
  assumes "arc_inv p"
  shows "card (idle_keys (arc_get p) - set protected) =
    length (candidates protected (t1 p)) + length (candidates protected (t2 p))"
proof -
  note D = arc_invD [OF assms]
  let ?c1 = "candidates protected (t1 p)" and ?c2 = "candidates protected (t2 p)"
  have "fst ` set ?c1 \<inter> fst ` set ?c2 = {}"
    using D(3) candidates_sub [of protected "t1 p"] candidates_sub [of protected "t2 p"] by blast
  then have "card (fst ` set ?c1 \<union> fst ` set ?c2) = card (set (map fst ?c1)) + card (set (map fst ?c2))"
    by (simp add: card_Un_disjoint)
  then show ?thesis
    unfolding arc_idle_split [OF assms]
    using distinct_card [OF candidates_keys(2) [OF D(1)]] distinct_card [OF candidates_keys(2) [OF D(2)]]
    by simp
qed

subsection \<open>Eviction\<close>

lemma arc_get_candidate:
  assumes p: "arc_inv p" and x: "x \<in> set (candidates protected (t1 p)) \<union> set (candidates protected (t2 p))"
  shows "arc_get p (fst x) = Some (snd x) \<and> chunk_ref (snd x) = 0 \<and> fst x \<notin> set protected"
proof -
  note D = arc_invD [OF p]
  have c: "chunk_ref (snd x) = 0" "fst x \<notin> set protected" using x by (auto simp: candidates_def)
  from x consider "x \<in> set (t1 p)" | "x \<in> set (t2 p)" using candidates_sub by blast
  then have "arc_get p (fst x) = Some (snd x)"
  proof cases
    case 1
    then have "dict_get (t1 p) (fst x) = Some (snd x)" using D(1) by simp
    then show ?thesis by (simp add: arc_get_def)
  next
    case 2
    then have "dict_get (t2 p) (fst x) = Some (snd x)" using D(2) by simp
    moreover have "fst x \<notin> fst ` set (t1 p)" using 2 D(3) by blast
    then have "dict_get (t1 p) (fst x) = None" using dict_get_in [of "t1 p" "fst x"] by blast
    ultimately show ?thesis by (simp add: arc_get_def)
  qed
  with c show ?thesis by blast
qed

lemma arc_apply_step:
  assumes "distinct (map fst (t1 p))" "distinct (map fst (t2 p))"
  shows "distinct (map fst (t1 (arc_apply x p)))" "distinct (map fst (t2 (arc_apply x p)))"
    and "map_of (t1 (arc_apply x p)) = (if snd x then (map_of (t1 p))(fst (fst x) := None) else map_of (t1 p))"
    and "map_of (t2 (arc_apply x p)) = (if snd x then map_of (t2 p) else (map_of (t2 p))(fst (fst x) := None))"
    and "arc_capacity (arc_apply x p) = arc_capacity p" "target_t1_size (arc_apply x p) = target_t1_size p"
  using assms by (simp_all add: arc_apply_def Let_def delete_conv' distinct_delete)

lemma arc_apply_all:
  assumes "distinct (map fst (t1 p))" "distinct (map fst (t2 p))"
  shows "distinct (map fst (t1 (fold arc_apply cs p))) \<and> distinct (map fst (t2 (fold arc_apply cs p))) \<and>
    map_of (t1 (fold arc_apply cs p)) =
      (\<lambda>k. if k \<in> fst ` set (map fst (filter snd cs)) then None else dict_get (t1 p) k) \<and>
    map_of (t2 (fold arc_apply cs p)) =
      (\<lambda>k. if k \<in> fst ` set (map fst (filter (\<lambda>x. \<not> snd x) cs)) then None else dict_get (t2 p) k) \<and>
    arc_capacity (fold arc_apply cs p) = arc_capacity p \<and>
    target_t1_size (fold arc_apply cs p) = target_t1_size p"
  using assms
proof (induction cs arbitrary: p)
  case (Cons x cs)
  note step = arc_apply_step [OF Cons.prems, of x]
  from Cons.IH [OF step(1,2)] show ?case
    unfolding fold.simps comp_def step(3-6) by (auto simp: fun_eq_iff)
qed simp

lemma trim_ghost_ok: "0 \<le> cap \<Longrightarrow> \<exists>g'. trim_ghost cap g = Inr g' \<and> int (length g') \<le> cap \<and> set g' \<subseteq> set g"
  by (auto simp: trim_ghost_def dest: in_set_dropD)

text \<open>What a successful selection has picked.\<close>

definition arc_picked ::
  "arc_policy \<Rightarrow> nat \<Rightarrow> offload_key list \<Rightarrow> ((offload_key \<times> chunk_status) \<times> bool) list \<Rightarrow> bool" where
  "arc_picked p n protected cs \<longleftrightarrow>
     arc_pick (py_trunc (target_t1_size p)) n (int (length (t1 p)))
       (candidates protected (t1 p)) (candidates protected (t2 p)) = Some cs"

lemma arc_evict_picks:
  assumes p: "arc_inv p" and n: "n \<le> card (idle_keys (arc_get p) - set protected)" "n \<noteq> 0"
  shows "\<exists>cs. arc_picked p n protected cs \<and>
    (\<exists>g1 g2. arc_evict n protected p = Inr (Some (map fst cs), (fold arc_apply cs p)\<lparr>b1 := g1, b2 := g2\<rparr>) \<and>
      int (length g1) \<le> arc_capacity p \<and> int (length g2) \<le> arc_capacity p)"
proof -
  obtain cs where cs: "arc_picked p n protected cs"
    using arc_pick_None n(1) [unfolded arc_idle_count [OF p]] unfolding arc_picked_def
    by (metis leD not_None_eq)
  define q where "q = fold arc_apply cs p"
  have cap: "arc_capacity q = arc_capacity p"
    using arc_apply_all [OF arc_invD(1,2) [OF p], of cs] by (simp add: q_def)
  obtain g1 where g1: "trim_ghost (arc_capacity q) (b1 q) = Inr g1" "int (length g1) \<le> arc_capacity p"
    using trim_ghost_ok [OF arc_invD(6) [OF p]] cap by metis
  obtain g2 where g2: "trim_ghost (arc_capacity q) (b2 q) = Inr g2" "int (length g2) \<le> arc_capacity p"
    using trim_ghost_ok [OF arc_invD(6) [OF p]] cap by metis
  have "arc_evict n protected p = Inr (Some (map fst cs), q\<lparr>b1 := g1, b2 := g2\<rparr>)"
    using n(2) cs g1(1) g2(1) by (simp add: arc_evict_def arc_select_eq_pick arc_picked_def q_def [symmetric])
  with cs g1(2) g2(2) show ?thesis unfolding q_def by blast
qed

lemma arc_picked_facts:
  assumes p: "arc_inv p" and cs: "arc_picked p n protected cs"
  shows "length (map fst cs) = n" and "distinct (map fst (map fst cs))"
    and "fst ` set (map fst (filter snd cs)) \<subseteq> fst ` set (t1 p)"
    and "fst ` set (map fst (filter (\<lambda>x. \<not> snd x) cs)) \<subseteq> fst ` set (t2 p)"
    and "fst ` set (map fst cs) =
      fst ` set (map fst (filter snd cs)) \<union> fst ` set (map fst (filter (\<lambda>x. \<not> snd x) cs))"
    and "\<forall>(k, c) \<in> set (map fst cs). arc_get p k = Some c \<and> chunk_ref c = 0 \<and> k \<notin> set protected"
proof -
  note D = arc_invD [OF p]
  define e1 where "e1 = map fst (filter snd cs)"
  define e2 where "e2 = map fst (filter (\<lambda>x. \<not> snd x) cs)"
  obtain m where m: "e1 = take m (candidates protected (t1 p))" "e2 = take (n - m) (candidates protected (t2 p))"
      "length cs = n"
    using arc_pick_Some [OF cs [unfolded arc_picked_def]] by (auto simp: e1_def e2_def)
  show "length (map fst cs) = n" using m(3) by simp
  have "mset cs = mset (filter snd cs) + mset (filter (\<lambda>x. \<not> snd x) cs)"
    unfolding mset_filter by (rule multiset_partition)
  from arg_cong [OF this, of "image_mset fst"] have ms: "mset (map fst cs) = mset (e1 @ e2)"
    by (simp only: e1_def e2_def mset_map mset_append image_mset_union)
  then have set_cs: "set (map fst cs) = set e1 \<union> set e2" by (metis set_append set_mset_mset)
  then show "fst ` set (map fst cs) =
      fst ` set (map fst (filter snd cs)) \<union> fst ` set (map fst (filter (\<lambda>x. \<not> snd x) cs))"
    by (simp add: image_Un e1_def [symmetric] e2_def [symmetric])
  have sub: "set e1 \<subseteq> set (candidates protected (t1 p))" "set e2 \<subseteq> set (candidates protected (t2 p))"
    using m by (auto dest: in_set_takeD)
  show s1: "fst ` set (map fst (filter snd cs)) \<subseteq> fst ` set (t1 p)"
    using sub(1) candidates_sub [of protected "t1 p"] unfolding e1_def by blast
  show s2: "fst ` set (map fst (filter (\<lambda>x. \<not> snd x) cs)) \<subseteq> fst ` set (t2 p)"
    using sub(2) candidates_sub [of protected "t2 p"] unfolding e2_def by blast
  have "distinct (map fst e1)" "distinct (map fst e2)"
    using candidates_keys(2) [OF D(1)] candidates_keys(2) [OF D(2)] unfolding m(1,2) take_map [symmetric]
    by (simp_all add: distinct_take)
  then have "distinct (map fst (e1 @ e2))"
    using s1 s2 D(3) unfolding e1_def [symmetric] e2_def [symmetric] by auto
  moreover have "mset (map fst (map fst cs)) = mset (map fst (e1 @ e2))"
    using arg_cong [OF ms, of "image_mset fst"] by (simp only: mset_map)
  ultimately show "distinct (map fst (map fst cs))" using mset_eq_imp_distinct_iff by blast
  show "\<forall>(k, c) \<in> set (map fst cs). arc_get p k = Some c \<and> chunk_ref c = 0 \<and> k \<notin> set protected"
  proof (rule ballI, rule prod.case_eq_if [THEN iffD2])
    fix x assume "x \<in> set (map fst cs)"
    then have "x \<in> set (candidates protected (t1 p)) \<union> set (candidates protected (t2 p))"
      using set_cs sub by blast
    then show "arc_get p (fst x) = Some (snd x) \<and> chunk_ref (snd x) = 0 \<and> fst x \<notin> set protected"
      using arc_get_candidate [OF p] by blast
  qed
qed

lemma arc_evict_enough:
  assumes p: "arc_inv p" and n: "n \<le> card (idle_keys (arc_get p) - set protected)"
  shows "\<exists>ev p'. arc_evict n protected p = Inr (Some ev, p') \<and> arc_inv p' \<and> length ev = n \<and>
    distinct (map fst ev) \<and>
    (\<forall>(k, c) \<in> set ev. arc_get p k = Some c \<and> chunk_ref c = 0 \<and> k \<notin> set protected) \<and>
    arc_get p' = (\<lambda>k. if k \<in> fst ` set ev then None else arc_get p k)"
proof (cases "n = 0")
  case True
  then show ?thesis using p by (simp add: arc_evict_def)
next
  case False
  define q where "q cs = fold arc_apply cs p" for cs
  obtain cs g1 g2 where cs: "arc_picked p n protected cs"
    and ev: "arc_evict n protected p = Inr (Some (map fst cs), (q cs)\<lparr>b1 := g1, b2 := g2\<rparr>)"
    using arc_evict_picks [OF p n False] unfolding q_def by blast
  note P = arc_picked_facts [OF p cs]
  note A = arc_apply_all [OF arc_invD(1,2) [OF p], of cs, folded q_def]
  have get: "arc_get ((q cs)\<lparr>b1 := g1, b2 := g2\<rparr>) = (\<lambda>k. if k \<in> fst ` set (map fst cs) then None else arc_get p k)"
  proof
    fix k
    have "dict_get (t2 p) k = None" if "k \<in> fst ` set (map fst (filter snd cs))"
      using P(3) arc_invD(3) [OF p] that dict_get_in [of "t2 p" k] by blast
    moreover have "dict_get (t1 p) k = None" if "k \<in> fst ` set (map fst (filter (\<lambda>x. \<not> snd x) cs))"
      using P(4) arc_invD(3) [OF p] that dict_get_in [of "t1 p" k] by blast
    ultimately show "arc_get ((q cs)\<lparr>b1 := g1, b2 := g2\<rparr>) k =
        (if k \<in> fst ` set (map fst cs) then None else arc_get p k)"
      using A unfolding P(5) by (auto simp: arc_get_add map_add_def split: option.splits)
  qed
  have "fst ` set (t1 (q cs)) \<subseteq> fst ` set (t1 p)" "fst ` set (t2 (q cs)) \<subseteq> fst ` set (t2 p)"
    using A by (metis (no_types, lifting) dict_get_in subsetI)+
  then have "arc_inv ((q cs)\<lparr>b1 := g1, b2 := g2\<rparr>)"
    using A arc_invD [OF p] by (auto simp: arc_inv_def)
  with ev get P(1,2,6) show ?thesis by auto
qed

lemma arc_evict_None:
  assumes p: "arc_inv p" and n: "card (idle_keys (arc_get p) - set protected) < n"
  shows "\<exists>p'. arc_evict n protected p = Inr (None, p') \<and> arc_inv p' \<and> arc_get p' = arc_get p"
proof -
  have "arc_pick (py_trunc (target_t1_size p)) n (int (length (t1 p)))
      (candidates protected (t1 p)) (candidates protected (t2 p)) = None"
    using n arc_idle_count [OF p] by (simp add: arc_pick_None)
  then show ?thesis using p n by (simp add: arc_evict_def arc_select_eq_pick)
qed

subsection \<open>The contract\<close>

lemma arc_get_None: "arc_get p k = None \<longleftrightarrow> k \<notin> fst ` set (t1 p) \<and> k \<notin> fst ` set (t2 p)"
  by (auto simp: arc_get_add map_of_eq_None_iff)

lemma arc_insert_ok:
  assumes inv: "arc_inv p" and new: "arc_get p k = None"
    and ins: "arc_insert k c ctx p = (p', ctx')"
  shows "arc_inv p' \<and> arc_get p' = (arc_get p)(k \<mapsto> c) \<and> state_access ctx' = state_access ctx"
proof -
  have "fst ` set (dict_set k c (t1 p)) \<inter> fst ` set (t2 p) = {}"
    using arc_invD(3) [OF inv] new [unfolded arc_get_None] by simp
  moreover have "p' = p\<lparr>t1 := dict_set k c (t1 p), b1 := removeAll k (b1 p), b2 := removeAll k (b2 p)\<rparr>"
      "ctx' = ctx" using ins by (simp_all add: arc_insert_def)
  ultimately show ?thesis
    using arc_invD [OF inv] by (simp add: arc_inv_def arc_get_add update_conv' distinct_update)
qed

lemma arc_remove_ok:
  assumes inv: "arc_inv p" and c: "arc_get p k = Some c"
  shows "\<exists>p'. arc_remove k p = Inr p' \<and> arc_inv p' \<and> arc_get p' = (arc_get p)(k := None)"
proof -
  note D = arc_invD [OF inv]
  define q where "q = (if dict_get (t1 p) k \<noteq> None then p\<lparr>t1 := dict_del k (t1 p)\<rparr>
          else p\<lparr>t2 := dict_del k (t2 p)\<rparr>)"
  have "dict_get (t2 p) k = None" if "dict_get (t1 p) k \<noteq> None"
    using that D(3) dict_get_in [of "t1 p" k] dict_get_in [of "t2 p" k] by blast
  then have "arc_get q = (arc_get p)(k := None)"
    by (auto simp: q_def arc_get_add delete_conv' fun_eq_iff map_add_def split: option.splits)
  moreover have "arc_inv q" using D by (auto simp: q_def arc_inv_def distinct_delete)
  moreover have "arc_remove k p = Inr q" by (simp add: arc_remove_def q_def)
  ultimately show ?thesis by blast
qed

lemma poke_chunk_map:
  assumes "dict_get d k = Some c" "- (2 ^ 31) \<le> m" "m < 2 ^ 31"
  shows "map_of (poke_chunk k m d) = (map_of d)(k \<mapsto> c\<lparr>chunk_ref := m\<rparr>)"
  using assms by (simp add: fun_eq_iff poke_chunk_get c_int32_id)

lemma arc_poke_ok:
  assumes inv: "arc_inv p" and c: "arc_get p k = Some c" and m: "- (2 ^ 31) \<le> m" "m < 2 ^ 31"
  shows "arc_inv (arc_poke k m p) \<and> arc_get (arc_poke k m p) = (arc_get p)(k \<mapsto> c\<lparr>chunk_ref := m\<rparr>)"
proof
  show "arc_inv (arc_poke k m p)" using inv by (simp add: arc_inv_def arc_poke_def)
  show "arc_get (arc_poke k m p) = (arc_get p)(k \<mapsto> c\<lparr>chunk_ref := m\<rparr>)"
  proof (cases "dict_get (t1 p) k")
    case None
    then have "dict_get (t2 p) k = Some c" using c by (simp add: arc_get_def)
    from poke_chunk_map [OF this m] None show ?thesis
      by (auto simp: arc_poke_def arc_get_add fun_eq_iff map_add_def split: option.splits)
  next
    case (Some d)
    then have "d = c" using c by (simp add: arc_get_def)
    with poke_chunk_map [OF Some m] Some show ?thesis by (simp add: arc_poke_def arc_get_add)
  qed
qed

lemma arc_clear_ok: "arc_inv p \<Longrightarrow> arc_inv (arc_clear p) \<and> arc_get (arc_clear p) = (\<lambda>_. None)"
  using arc_invD(6) [of p] by (simp add: arc_clear_def arc_inv_def arc_get_def fun_eq_iff)

lemma arc_get_finite: "finite (dom (arc_get p))"
  by (simp add: arc_get_add finite_dom_map_of)

lemma arc_ops_simps:
  "cp_get arc_ops = arc_get" "cp_poke arc_ops = arc_poke" "cp_insert arc_ops = arc_insert"
  "cp_remove arc_ops = arc_remove" "cp_on_store_miss arc_ops = arc_on_store_miss"
  "cp_on_request_access arc_ops = (\<lambda>keys ctx p. Inr (p, ctx))"
  "cp_on_request_finished arc_ops = arc_on_request_finished" "cp_evict arc_ops = arc_evict"
  "cp_clear arc_ops = arc_clear" "cp_mark_evictable arc_ops = (\<lambda>key p. Inr p)"
  "cp_mark_non_evictable arc_ops = (\<lambda>key p. Inr p)"
  by (simp_all add: arc_ops_def)

interpretation arc: cache_policy arc_ops arc_inv
proof (unfold_locales, unfold arc_ops_simps, goal_cases)
  case 1
  show ?case by (rule arc_get_finite)
next
  case 2
  then show ?case by (intro arc_insert_ok)
next
  case 3
  then show ?case by (rule arc_remove_ok)
next
  case 4
  then show ?case by (rule arc_store_miss_ok)
next
  case 5
  then show ?case by simp
next
  case 6
  then show ?case by (rule arc_finished_ok)
next
  case 7
  then show ?case by (rule arc_evict_enough)
next
  case 8
  then show ?case by (rule arc_evict_None)
next
  case 9
  then show ?case by (rule arc_clear_ok)
next
  case (10 p k c m)
  then show ?case using arc_poke_ok [of p k c m] by simp
next
  case (11 p k c m)
  then show ?case using arc_poke_ok [of p k c m] by simp
next
  case (12 p k c)
  then show ?case using arc_poke_ok [of p k c 0] by simp
qed

section \<open>Eviction order\<close>

text \<open>How many chunks leave \<open>t1\<close> before \<open>t2\<close> is looked at.\<close>

definition t1_first :: "int \<Rightarrow> nat \<Rightarrow> int \<Rightarrow> 'a list \<Rightarrow> nat" where
  "t1_first target n size1 c1 = min n (min (length c1) (nat (size1 - target + 1)))"

lemma arc_pick_closed:
  assumes "n \<le> length c1 + length c2"
  shows "map_option (map fst) (arc_pick target n v c1 c2) =
    (let a = t1_first target n v c1
     in Some (take a c1 @ take (n - a) c2 @ take (n - a - length c2) (drop a c1)))"
  unfolding Let_def using assms
proof (induction n arbitrary: v c1 c2)
  case (Suc n)
  show ?case
  proof (cases "c1 \<noteq> [] \<and> v \<ge> target")
    case True
    then obtain x xs where c1: "c1 = x # xs" by (cases c1) auto
    have a: "t1_first target (Suc n) v c1 = Suc (t1_first target n (v - 1) xs)"
      using True by (auto simp: t1_first_def c1 min_def)
    show ?thesis
      using Suc.IH [of xs c2 "v - 1"] Suc.prems True
      by (cases "arc_pick target n (v - 1) xs c2") (auto simp: a [unfolded c1] c1)
  next
    case False
    then have a: "t1_first target (Suc n) v c1 = 0" "t1_first target n v c1 = 0"
      by (auto simp: t1_first_def)
    show ?thesis
    proof (cases c2)
      case Nil
      then obtain x xs where c1: "c1 = x # xs" using Suc.prems by (cases c1) auto
      have "t1_first target n (v - 1) xs = 0" using False by (auto simp: t1_first_def c1)
      with Suc.IH [of xs c2 "v - 1"] Suc.prems Nil a show ?thesis
        by (cases "arc_pick target n (v - 1) xs []") (auto simp: c1)
    next
      case (Cons y ys)
      with Suc.IH [of c1 ys v] Suc.prems False a show ?thesis
        by (cases "arc_pick target n v c1 ys") auto
    qed
  qed
qed (simp add: t1_first_def)


text \<open>Two recent and two frequent chunks, one of them in use by a transfer.\<close>

definition sample_arc :: arc_policy where
  "sample_arc =
     \<lparr>arc_capacity = 4, target_t1_size = 2,
      t1 = [([1], \<lparr>chunk_ref = 0, chunk_id = 0\<rparr>), ([2], \<lparr>chunk_ref = 1, chunk_id = 1\<rparr>)],
      t2 = [([3], \<lparr>chunk_ref = 0, chunk_id = 2\<rparr>), ([4], \<lparr>chunk_ref = 0, chunk_id = 3\<rparr>)],
      b1 = [[5]], b2 = []\<rparr>"

lemma sample_arc_inv: "arc_inv sample_arc"
  by (simp add: arc_inv_def sample_arc_def)

lemma sample_arc_candidates:
  "candidates [[3]] (t1 sample_arc) = [([1], \<lparr>chunk_ref = 0, chunk_id = 0\<rparr>)]"
  "candidates [[3]] (t2 sample_arc) = [([4], \<lparr>chunk_ref = 0, chunk_id = 3\<rparr>)]"
  by (simp_all add: candidates_def sample_arc_def)


end
