(* ===== verification/Offload_System.thy ===== *)
theory Offload_System
  imports Offload_Store Lru_Policy Arc_Policy
begin

text \<open>
  The offloading manager together with what its callers and workers do: loads that are under way and
  the contents of the CPU slots. Every interleaving of calls that respects the protocol of the
  scheduler is a sequence of steps; the theorems hold in every state such a sequence reaches, for the
  LRU and the ARC policy.
\<close>

section \<open>Steps\<close>

text \<open>\<open>sys_loads\<close> holds each key once per load that is prepared and not completed. \<open>sys_mem\<close> maps a slot to
  the key whose data it holds; a slot that a store is writing to holds none.\<close>

record 'p offload_sys =
  sys_mgr :: "'p offload_manager"
  sys_loads :: "offload_key multiset"
  sys_mem :: "int \<Rightarrow> offload_key option"

definition forget :: "int list \<Rightarrow> (int \<Rightarrow> offload_key option) \<Rightarrow> int \<Rightarrow> offload_key option" where
  "forget ids mem = (\<lambda>i. if i \<in> set ids then None else mem i)"

text \<open>A successful transfer has written the data of each pending key to its slot.\<close>

fun write_stored ::
  "(offload_key \<Rightarrow> chunk_status option) \<Rightarrow> offload_key list \<Rightarrow> (int \<Rightarrow> offload_key option) \<Rightarrow>
   int \<Rightarrow> offload_key option" where
  "write_stored get [] mem = mem"
| "write_stored get (k # ks) mem =
     write_stored get ks
       (case get k of None \<Rightarrow> mem | Some c \<Rightarrow> if is_ready c then mem else mem(chunk_id c := Some k))"

text \<open>Loads are prepared for keys whose lookup hits and completed once. A reset drops the transfers
  that are under way: by its stale-job threshold the scheduler completes none of them, so \<open>store_done\<close>
  stands for a transfer that was prepared after the last reset and has written its slots.\<close>

inductive offload_step :: "'p cache_policy_ops \<Rightarrow> 'p offload_sys \<Rightarrow> 'p offload_sys \<Rightarrow> bool"
  for ops where
  load: "\<forall>k \<in> set keys. om_lookup ops k (sys_mgr s) = LookupHit \<Longrightarrow>
    size (sys_loads s) + length keys < 2 ^ 31 \<Longrightarrow>
    om_prepare_load ops rec keys ctx (sys_mgr s) = Inr (ids, m', ctx') \<Longrightarrow>
    offload_step ops s (s\<lparr>sys_mgr := m', sys_loads := sys_loads s + mset keys\<rparr>)"
| load_done: "mset keys \<subseteq># sys_loads s \<Longrightarrow> om_complete_load ops keys (sys_mgr s) = Inr m' \<Longrightarrow>
    offload_step ops s (s\<lparr>sys_mgr := m', sys_loads := sys_loads s - mset keys\<rparr>)"
| store: "distinct keys \<Longrightarrow> om_prepare_store ops keys ctx (sys_mgr s) = Inr (Some out, m', ctx') \<Longrightarrow>
    offload_step ops s (s\<lparr>sys_mgr := m', sys_mem := forget (store_spec out) (sys_mem s)\<rparr>)"
| store_refused: "distinct keys \<Longrightarrow> om_prepare_store ops keys ctx (sys_mgr s) = Inr (None, m', ctx') \<Longrightarrow>
    offload_step ops s (s\<lparr>sys_mgr := m'\<rparr>)"
| store_done: "om_complete_store ops keys ctx True (sys_mgr s) = Inr m' \<Longrightarrow>
    offload_step ops s (s\<lparr>sys_mgr := m', sys_mem := write_stored (om_get ops (sys_mgr s)) keys (sys_mem s)\<rparr>)"
| store_failed: "om_complete_store ops keys ctx False (sys_mgr s) = Inr m' \<Longrightarrow>
    offload_step ops s (s\<lparr>sys_mgr := m'\<rparr>)"
| finish: "om_on_request_finished ops ctx (sys_mgr s) = Inr (m', ctx') \<Longrightarrow>
    offload_step ops s (s\<lparr>sys_mgr := m'\<rparr>)"
| reset: "offload_step ops s (s\<lparr>sys_mgr := om_reset_cache ops (sys_mgr s), sys_loads := {#}\<rparr>)"
| drain: "offload_step ops s (s\<lparr>sys_mgr := snd (om_take_events ops (sys_mgr s))\<rparr>)"
| report: "offload_step ops s (s\<lparr>sys_mgr := snd (om_get_stats (sys_mgr s))\<rparr>)"

inductive offload_reachable :: "'p cache_policy_ops \<Rightarrow> 'p offload_manager \<Rightarrow> 'p offload_sys \<Rightarrow> bool"
  for ops m0 where
  start: "offload_reachable ops m0 \<lparr>sys_mgr = m0, sys_loads = {#}, sys_mem = mem\<rparr>"
| step: "offload_reachable ops m0 s \<Longrightarrow> offload_step ops s s' \<Longrightarrow> offload_reachable ops m0 s'"

section \<open>The invariant\<close>

text \<open>Reference counts count the loads, and a ready chunk holds the data of its key.\<close>

definition loads_ok ::
  "(offload_key \<Rightarrow> chunk_status option) \<Rightarrow> offload_key multiset \<Rightarrow> (int \<Rightarrow> offload_key option) \<Rightarrow> bool" where
  "loads_ok get L mem \<longleftrightarrow>
     (\<forall>k c. get k = Some c \<longrightarrow> 0 \<le> chunk_ref c \<longrightarrow> chunk_ref c = int (count L k) \<and> mem (chunk_id c) = Some k) \<and>
     (\<forall>k \<in># L. \<exists>c. get k = Some c \<and> 0 \<le> chunk_ref c) \<and> size L < 2 ^ 31"

lemma loads_okD:
  assumes "loads_ok get L mem"
  shows "\<And>k c. get k = Some c \<Longrightarrow> 0 \<le> chunk_ref c \<Longrightarrow> chunk_ref c = int (count L k) \<and> mem (chunk_id c) = Some k"
    and "\<And>k. k \<in># L \<Longrightarrow> \<exists>c. get k = Some c \<and> 0 \<le> chunk_ref c" and "size L < 2 ^ 31"
proof -
  from assms [unfolded loads_ok_def]
  have a: "\<forall>k c. get k = Some c \<longrightarrow> 0 \<le> chunk_ref c \<longrightarrow> chunk_ref c = int (count L k) \<and> mem (chunk_id c) = Some k"
    "\<forall>k \<in># L. \<exists>c. get k = Some c \<and> 0 \<le> chunk_ref c" "size L < 2 ^ 31"
    by - (elim conjE, assumption)+
  show "\<And>k c. get k = Some c \<Longrightarrow> 0 \<le> chunk_ref c \<Longrightarrow> chunk_ref c = int (count L k) \<and> mem (chunk_id c) = Some k"
    by (rule a(1) [rule_format])
  show "\<And>k. k \<in># L \<Longrightarrow> \<exists>c. get k = Some c \<and> 0 \<le> chunk_ref c" by (rule a(2) [rule_format])
  show "size L < 2 ^ 31" by (rule a(3))
qed

lemma loads_okI:
  assumes "\<And>k c. get k = Some c \<Longrightarrow> 0 \<le> chunk_ref c \<Longrightarrow> chunk_ref c = int (count L k)"
    and "\<And>k c. get k = Some c \<Longrightarrow> 0 \<le> chunk_ref c \<Longrightarrow> mem (chunk_id c) = Some k"
    and "\<And>k. k \<in># L \<Longrightarrow> \<exists>c. get k = Some c \<and> 0 \<le> chunk_ref c" and "size L < 2 ^ 31"
  shows "loads_ok get L mem"
  unfolding loads_ok_def by (intro conjI allI impI ballI) (rule assms; assumption)+

lemma count_le_size: "count L k \<le> size L"
  by (induction L) auto

lemma loads_ok_add:
  assumes ok: "loads_ok get L mem" and keys: "\<forall>k \<in> set keys. \<exists>c. get k = Some c \<and> 0 \<le> chunk_ref c"
    and bound: "size L + length keys < 2 ^ 31"
  shows "loads_ok (add_refs 1 keys get) (L + mset keys) mem"
proof (rule loads_okI)
  note D = loads_okD [OF ok]
  fix k c assume c: "add_refs 1 keys get k = Some c" "0 \<le> chunk_ref c"
  then obtain d where d: "get k = Some d" "c = d\<lparr>chunk_ref := chunk_ref d + int (count_list keys k)\<rparr>"
    by (auto simp: add_refs_def)
  have "0 \<le> chunk_ref d"
    using keys d c(2) by (cases "k \<in> set keys") (auto simp: count_list_0_iff)
  from D(1) [OF d(1) this] d(2)
  show "chunk_ref c = int (count (L + mset keys) k)" "mem (chunk_id c) = Some k"
    by (simp_all add: count_mset)
next
  fix k assume "k \<in># L + mset keys"
  then obtain c where "get k = Some c" "0 \<le> chunk_ref c" using loads_okD(2) [OF ok] keys by auto
  then show "\<exists>c. add_refs 1 keys get k = Some c \<and> 0 \<le> chunk_ref c" by (simp add: add_refs_def)
next
  show "size (L + mset keys) < 2 ^ 31" using bound by simp
qed

lemma loads_ok_remove:
  assumes ok: "loads_ok get L mem" and keys: "mset keys \<subseteq># L"
  shows "loads_ok (add_refs (- 1) keys get) (L - mset keys) mem"
proof (rule loads_okI)
  note D = loads_okD [OF ok]
  have le: "count_list keys k \<le> count L k" for k
    using mset_subset_eq_count [OF keys, of k] by (simp add: count_mset)
  {
    fix k c assume c: "add_refs (- 1) keys get k = Some c" "0 \<le> chunk_ref c"
    then obtain d where d: "get k = Some d" "c = d\<lparr>chunk_ref := chunk_ref d - int (count_list keys k)\<rparr>"
      by (auto simp: add_refs_def)
    have "0 \<le> chunk_ref d" using c(2) d(2) by simp
    from D(1) [OF d(1) this] d(2) le [of k]
    show "chunk_ref c = int (count (L - mset keys) k)" "mem (chunk_id c) = Some k"
      by (simp_all add: count_mset of_nat_diff)
  next
    fix k assume k: "k \<in># L - mset keys"
    then have kL: "k \<in># L" by (rule in_diffD)
    from D(2) [OF kL] obtain c where c: "get k = Some c" "0 \<le> chunk_ref c" by blast
    have "chunk_ref c = int (count L k)" using D(1) [OF c] by simp
    then have "0 \<le> chunk_ref c - int (count_list keys k)" using le [of k] by simp
    then show "\<exists>c. add_refs (- 1) keys get k = Some c \<and> 0 \<le> chunk_ref c"
      using c(1) by (simp add: add_refs_def)
  next
    show "size (L - mset keys) < 2 ^ 31" using D(3) size_Diff_submset [OF keys] by simp
  }
qed

text \<open>A store replaces idle chunks by pending ones in other slots.\<close>

lemma loads_ok_store:
  assumes ok: "loads_ok get L mem" and ev: "set ev \<subseteq> idle_keys get"
    and W: "\<forall>k \<in> set W. get k = None" "distinct W" "length ids = length W"
    and g': "g' = put_chunks (zip W (map chunk_init ids)) (\<lambda>k. if k \<in> set ev then None else get k)"
    and pool: "chunk_pool_ok g' free alloc"
  shows "loads_ok g' L (forget ids mem)"
proof -
  note D = loads_okD [OF ok]
  let ?es = "zip W (map chunk_init ids)"
  have dist: "distinct (map fst ?es)" and keys: "fst ` set ?es = set W"
    using W(2,3) by (simp, metis length_map list.set_map map_fst_zip)
  have old: "g' k = (if k \<in> set ev then None else get k)" if "k \<notin> set W" for k
    unfolding g' using that keys by (simp add: put_chunks_other)
  have new: "\<exists>i. g' k = Some (chunk_init i)" if k: "k \<in> set W" for k
  proof -
    from k keys obtain c where c: "(k, c) \<in> set ?es" by force
    then obtain i where "c = chunk_init i" using set_zip_rightD [OF c] by auto
    with put_chunks_in [OF dist c] show ?thesis unfolding g' by blast
  qed
  have slot: "\<exists>k \<in> set W. g' k = Some (chunk_init i)" if i: "i \<in> set ids" for i
  proof -
    from i W(3) obtain j where j: "j < length W" "ids ! j = i" by (metis in_set_conv_nth)
    then have "(W ! j, chunk_init i) \<in> set ?es" using W(3) by (auto simp: set_zip)
    from put_chunks_in [OF dist this] j(1) show ?thesis unfolding g' by force
  qed
  have ready: "k \<notin> set W \<and> get k = Some c" if "g' k = Some c" "0 \<le> chunk_ref c" for k c
  proof -
    have "k \<notin> set W" using new [of k] that by (auto simp: chunk_init_def)
    with old [of k] that show ?thesis by (auto split: if_splits)
  qed
  show ?thesis
  proof (rule loads_okI)
    fix k c assume c: "g' k = Some c" "0 \<le> chunk_ref c"
    note r = ready [OF c]
    show "chunk_ref c = int (count L k)" using D(1) r c(2) by blast
    have "chunk_id c \<notin> set ids"
    proof
      assume "chunk_id c \<in> set ids"
      from slot [OF this] obtain w where w: "w \<in> set W" "g' w = Some (chunk_init (chunk_id c))" by blast
      have "w = k" by (rule chunk_pool_okD(3) [OF pool w(2) c(1)]) (simp add: chunk_init_def)
      with w(1) r show False by blast
    qed
    then show "forget ids mem (chunk_id c) = Some k" using D(1) r c(2) by (simp add: forget_def)
  next
    fix k assume k: "k \<in># L"
    from D(2) [OF k] obtain c where c: "get k = Some c" "0 \<le> chunk_ref c" by blast
    have "chunk_ref c = int (count L k)" using D(1) [OF c] by simp
    then have "chunk_ref c \<noteq> 0" using k by simp
    then have "k \<notin> set ev" using ev c(1) by (auto simp: idle_keys_def)
    moreover have "k \<notin> set W" using W(1) c(1) by auto
    ultimately show "\<exists>c. g' k = Some c \<and> 0 \<le> chunk_ref c" using old [of k] c by auto
  qed (rule D(3))
qed

lemma write_stored_other:
  assumes "\<forall>k \<in> set keys. \<forall>c. get k = Some c \<longrightarrow> \<not> is_ready c \<longrightarrow> chunk_id c \<noteq> i"
  shows "write_stored get keys mem i = mem i"
  using assms by (induction keys arbitrary: mem) (auto split: option.splits)

lemma write_stored_at:
  assumes pool: "chunk_pool_ok get free alloc" and k: "k \<in> set keys" "get k = Some c" "\<not> is_ready c"
  shows "write_stored get keys mem (chunk_id c) = Some k"
  using k(1)
proof (induction keys arbitrary: mem)
  case (Cons j keys)
  show ?case
  proof (cases "k \<in> set keys")
    case True
    then show ?thesis using Cons.IH by simp
  next
    case False
    then have j: "j = k" using Cons.prems by simp
    have "chunk_id d \<noteq> chunk_id c" if "l \<in> set keys" "get l = Some d" for l d
      using chunk_pool_okD(3) [OF pool that(2) k(2)] that(1) False by blast
    then show ?thesis using k(2,3) by (simp add: j write_stored_other)
  qed
qed simp

lemma loads_ok_settle:
  assumes ok: "loads_ok get L mem" and pool: "chunk_pool_ok get free alloc"
  shows "loads_ok (settle keys get) L (write_stored get keys mem)"
proof (rule loads_okI)
  note D = loads_okD [OF ok]
  {
    fix k c assume c: "settle keys get k = Some c" "0 \<le> chunk_ref c"
    then obtain d where d: "get k = Some d"
        "c = (if k \<in> set keys \<and> chunk_ref d = - 1 then d\<lparr>chunk_ref := 0\<rparr> else d)" by (auto simp: settle_def)
    show "chunk_ref c = int (count L k)"
    proof (cases "k \<in> set keys \<and> chunk_ref d = - 1")
      case True
      then have "k \<notin># L" using D(2) [of k] d(1) by auto
      then show ?thesis using True d(2) by (simp add: not_in_iff)
    next
      case False
      then have "c = d" using d(2) by simp
      then show ?thesis using D(1) [OF d(1)] c(2) by simp
    qed
    show "write_stored get keys mem (chunk_id c) = Some k"
    proof (cases "k \<in> set keys \<and> chunk_ref d = - 1")
      case True
      then have "\<not> is_ready d" by (simp add: is_ready_def)
      with write_stored_at [OF pool _ d(1)] True d(2) show ?thesis by simp
    next
      case False
      then have cd: "c = d" using d(2) by simp
      have "chunk_id e \<noteq> chunk_id d" if "get l = Some e" "\<not> is_ready e" for l e
      proof
        assume "chunk_id e = chunk_id d"
        from chunk_pool_okD(3) [OF pool that(1) d(1) this] that d(1) c(2) cd show False by (simp add: is_ready_def)
      qed
      then have "write_stored get keys mem (chunk_id d) = mem (chunk_id d)" by (simp add: write_stored_other)
      then show ?thesis using D(1) [OF d(1)] c(2) cd by simp
    qed
  next
    fix k assume "k \<in># L"
    from D(2) [OF this] obtain c where "get k = Some c" "0 \<le> chunk_ref c" by blast
    then show "\<exists>c. settle keys get k = Some c \<and> 0 \<le> chunk_ref c" by (simp add: settle_def)
  next
    show "size L < 2 ^ 31" by (rule D(3))
  }
qed

lemma loads_ok_drop:
  assumes ok: "loads_ok get L mem"
  shows "loads_ok (drop_pending keys get) L mem"
proof (rule loads_okI)
  note D = loads_okD [OF ok]
  {
    fix k c assume c: "drop_pending keys get k = Some c" "0 \<le> chunk_ref c"
    then have "get k = Some c" by (auto simp: drop_pending_def split: if_splits)
    from D(1) [OF this c(2)] show "chunk_ref c = int (count L k)" "mem (chunk_id c) = Some k" by simp_all
  next
    fix k assume "k \<in># L"
    from D(2) [OF this] obtain c where c: "get k = Some c" "0 \<le> chunk_ref c" by blast
    then have "k \<notin> pending_keys get" by (simp add: pending_keys_def)
    with c show "\<exists>c. drop_pending keys get k = Some c \<and> 0 \<le> chunk_ref c" by (simp add: drop_pending_def)
  next
    show "size L < 2 ^ 31" by (rule D(3))
  }
qed

definition sys_ok :: "'p cache_policy_ops \<Rightarrow> ('p \<Rightarrow> bool) \<Rightarrow> 'p offload_sys \<Rightarrow> bool" where
  "sys_ok ops pinv s \<longleftrightarrow>
     om_inv ops pinv (sys_mgr s) \<and> loads_ok (om_get ops (sys_mgr s)) (sys_loads s) (sys_mem s)"

section \<open>Preservation\<close>

lemma lookup_hit_iff: "om_lookup ops k m = LookupHit \<longleftrightarrow> (\<exists>c. om_get ops m k = Some c \<and> 0 \<le> chunk_ref c)"
  by (auto simp: om_lookup_def om_get_def is_ready_def split: option.splits if_splits)

lemma om_inv_reset:
  assumes "om_inv ops pinv m" "pinv (cp_clear ops (om_policy m))" "cp_get ops (cp_clear ops (om_policy m)) = (\<lambda>_. None)"
  shows "om_inv ops pinv (om_reset_cache ops m)" "om_get ops (om_reset_cache ops m) = (\<lambda>_. None)"
proof -
  show get: "om_get ops (om_reset_cache ops m) = (\<lambda>_. None)"
    using assms(3) by (simp add: om_get_def om_reset_cache_def)
  have "chunk_pool_ok (\<lambda>_. None) [] 0" by (simp add: chunk_pool_ok_def)
  then show "om_inv ops pinv (om_reset_cache ops m)"
    using assms(2) om_invD(3,4) [OF assms(1)] unfolding om_inv_def get
    by (simp add: om_reset_cache_def idle_keys_def pending_keys_def)
qed

context cache_policy
begin

lemma prepare_load_ok:
  assumes m: "om_inv ops inv m"
    and keys: "\<forall>k \<in> set keys. \<exists>c. om_get ops m k = Some c \<and> 0 \<le> chunk_ref c \<and>
      chunk_ref c + int (count_list keys k) < 2 ^ 31"
    and res: "om_prepare_load ops rec keys ctx m = Inr (ids, m', ctx')"
  shows "om_inv ops inv m'" "om_get ops m' = add_refs 1 keys (om_get ops m)" "om_same m m'"
    "ids = map (\<lambda>k. chunk_id (the (om_get ops m k))) keys"
proof -
  obtain m1 where m1: "rfold (pin_chunk ops) keys (m, []) = Inr (m1, map (\<lambda>k. chunk_id (the (om_get ops m k))) keys)"
      "om_inv ops inv m1" "om_get ops m1 = add_refs 1 keys (om_get ops m)" "om_same m m1"
    using pin_all_ok [OF m keys, of "[]"] by auto
  show "ids = map (\<lambda>k. chunk_id (the (om_get ops m k))) keys"
    using res m1(1) by (auto simp: om_prepare_load_def rbind_Inr_iff)
  have "om_inv ops inv m' \<and> om_get ops m' = om_get ops m1 \<and> om_same m1 m'"
  proof (cases rec)
    case True
    then have r: "record_request_cache_access ops keys [] keys ctx m1 = Inr (m', ctx')"
      using res m1(1) by (auto simp: om_prepare_load_def rbind_Inr_iff)
    then obtain p' where "m' = m1\<lparr>om_policy := p'\<rparr>" "inv p'" "cp_get ops p' = om_get ops m1"
      using record_access_ok [OF m1(2), of ctx keys "[]" keys] by auto
    then show ?thesis using om_inv_policy [OF m1(2)] by (auto simp: om_same_def)
  next
    case False
    then show ?thesis using res m1(1,2) by (auto simp: om_prepare_load_def)
  qed
  then show "om_inv ops inv m'" "om_get ops m' = add_refs 1 keys (om_get ops m)" "om_same m m'"
    using m1(3,4) om_same_trans by auto
qed

lemma finished_ok:
  assumes m: "om_inv ops inv m" and res: "om_on_request_finished ops ctx m = Inr (m', ctx')"
  shows "om_inv ops inv m'" "om_get ops m' = om_get ops m" "om_same m m'"
proof -
  have "m' = m \<or> (\<exists>p'. m' = m\<lparr>om_policy := p'\<rparr> \<and> inv p' \<and> cp_get ops p' = om_get ops m)"
  proof (cases "state_access ctx")
    case None
    then show ?thesis using res by (simp add: om_on_request_finished_def)
  next
    case (Some st)
    show ?thesis
    proof (cases "access_owner st \<noteq> om_owner m \<or> access_generation st \<noteq> om_generation m \<or> access_finished st")
      case True
      then show ?thesis using res Some by (auto simp: om_on_request_finished_def)
    next
      case False
      then obtain groups ins reused ctx1 p' where
        p: "cp_on_request_finished ops groups ins reused ctx1 (om_policy m) = Inr p'" "m' = m\<lparr>om_policy := p'\<rparr>"
        using res Some by (auto simp: om_on_request_finished_def Let_def rbind_Inr_iff)
      with finished_law [OF om_invD(1) [OF m], of groups ins reused ctx1] show ?thesis
        by (auto simp: om_get_def)
    qed
  qed
  then show "om_inv ops inv m'" "om_get ops m' = om_get ops m" "om_same m m'"
    using m om_inv_policy [OF m] by (auto simp: om_same_def)
qed

end

text \<open>Whether a store fits: the chunks that stay and the new ones are within the capacity.\<close>

definition store_fits :: "'p cache_policy_ops \<Rightarrow> offload_key list \<Rightarrow> offload_key list \<Rightarrow> 'p offload_manager \<Rightarrow> bool" where
  "store_fits ops keys W m \<longleftrightarrow>
     int (card (dom (om_get ops m)) + length W) - int (card (idle_keys (om_get ops m) - set keys)) \<le> om_num_chunks m"

lemma not_fits_nonempty:
  assumes "om_inv ops pinv m" "\<not> store_fits ops keys W m"
  shows "W \<noteq> []"
proof
  assume "W = []"
  moreover have "int (card (dom (om_get ops m))) \<le> om_num_chunks m"
    using chunk_pool_card(2) [OF om_invD(2,3) [OF assms(1)]] om_invD(4) [OF assms(1)] by linarith
  ultimately show False using assms(2) by (simp add: store_fits_def)
qed

context cache_policy
begin

lemma prepare_store_outcome:
  assumes m: "om_inv ops inv m" and ok: "access_open m ctx \<or> (\<exists>r. om_prepare_store ops keys ctx m = Inr r)"
    and W: "W = store_candidates ops keys ctx m" and keys: "distinct keys"
  shows "(store_fits ops keys W m \<longrightarrow>
      (\<exists>ids ev m' ctx'. om_prepare_store ops keys ctx m =
         Inr (Some \<lparr>keys_to_store = W, store_spec = ids, evicted_keys = ev\<rparr>, m', ctx') \<and> om_inv ops inv m' \<and>
       length ids = length W \<and> distinct ev \<and> set ev \<subseteq> idle_keys (om_get ops m) - set keys \<and>
       om_get ops m' = put_chunks (zip W (map chunk_init ids)) (\<lambda>k. if k \<in> set ev then None else om_get ops m k) \<and>
       om_same m m')) \<and>
    (\<not> store_fits ops keys W m \<longrightarrow>
      (\<exists>m' ctx'. om_prepare_store ops keys ctx m = Inr (None, m', ctx') \<and> om_inv ops inv m' \<and>
       om_get ops m' = om_get ops m \<and> om_same m m'))"
proof (cases "store_fits ops keys W m")
  case True
  then show ?thesis using prepare_store_some [OF m ok W keys] by (simp add: store_fits_def)
next
  case False
  from not_fits_nonempty [OF m False] prepare_store_none [OF m ok W] False show ?thesis
    by (simp add: store_fits_def)
qed

lemma step_store:
  assumes s: "sys_ok ops inv s" and keys: "distinct keys"
    and res: "om_prepare_store ops keys ctx (sys_mgr s) = Inr (Some out, m', ctx')"
  shows "sys_ok ops inv (s\<lparr>sys_mgr := m', sys_mem := forget (store_spec out) (sys_mem s)\<rparr>)"
    "\<And>k c. om_get ops (sys_mgr s) k = Some c \<Longrightarrow> chunk_ref c \<noteq> 0 \<Longrightarrow> om_get ops m' k = Some c"
proof -
  let ?m = "sys_mgr s"
  have m: "om_inv ops inv ?m" and L: "loads_ok (om_get ops ?m) (sys_loads s) (sys_mem s)"
    using s by (simp_all add: sys_ok_def)
  define W where "W = store_candidates ops keys ctx ?m"
  have ok: "access_open ?m ctx \<or> (\<exists>r. om_prepare_store ops keys ctx ?m = Inr r)" using res by blast
  note out = prepare_store_outcome [OF m ok W_def keys]
  have "store_fits ops keys W ?m" using out res by auto
  with out res obtain ids ev where out: "store_spec out = ids" "om_inv ops inv m'" "length ids = length W"
      "set ev \<subseteq> idle_keys (om_get ops ?m) - set keys"
      "om_get ops m' = put_chunks (zip W (map chunk_init ids)) (\<lambda>k. if k \<in> set ev then None else om_get ops ?m k)"
    by auto
  have W: "\<forall>k \<in> set W. om_get ops ?m k = None" "distinct W"
    using store_candidates_props [where ops = ops and keys = keys and ctx = ctx and m = "?m"] keys
    unfolding W_def by auto
  have "loads_ok (om_get ops m') (sys_loads s) (forget ids (sys_mem s))"
    by (rule loads_ok_store [OF L _ W out(3) out(5) om_invD(2) [OF out(2)]]) (use out(4) in blast)
  then show "sys_ok ops inv (s\<lparr>sys_mgr := m', sys_mem := forget (store_spec out) (sys_mem s)\<rparr>)"
    using out(1,2) by (simp add: sys_ok_def)
  fix k c assume c: "om_get ops ?m k = Some c" "chunk_ref c \<noteq> 0"
  have "k \<notin> set ev" using out(4) c by (auto simp: idle_keys_def)
  moreover have "k \<notin> fst ` set (zip W (map chunk_init ids))" using W(1) c(1) by (auto dest: set_zip_leftD)
  ultimately show "om_get ops m' k = Some c" unfolding out(5) using c(1) by (simp add: put_chunks_other)
qed

lemma step_store_refused:
  assumes m: "om_inv ops inv m" and keys: "distinct keys"
    and res: "om_prepare_store ops keys ctx m = Inr (None, m', ctx')"
  shows "om_inv ops inv m'" "om_get ops m' = om_get ops m" "om_same m m'"
proof -
  have "access_open m ctx \<or> (\<exists>r. om_prepare_store ops keys ctx m = Inr r)" using res by blast
  note out = prepare_store_outcome [OF m this refl keys]
  show "om_inv ops inv m'" "om_get ops m' = om_get ops m" "om_same m m'" using out res by auto
qed

lemma step_load:
  assumes s: "sys_ok ops inv s" and hit: "\<forall>k \<in> set keys. om_lookup ops k (sys_mgr s) = LookupHit"
    and bound: "size (sys_loads s) + length keys < 2 ^ 31"
    and res: "om_prepare_load ops rec keys ctx (sys_mgr s) = Inr (ids, m', ctx')"
  shows "sys_ok ops inv (s\<lparr>sys_mgr := m', sys_loads := sys_loads s + mset keys\<rparr>)"
    "ids = map (\<lambda>k. chunk_id (the (om_get ops (sys_mgr s) k))) keys"
    "om_get ops m' = add_refs 1 keys (om_get ops (sys_mgr s))"
proof -
  let ?m = "sys_mgr s"
  have m: "om_inv ops inv ?m" and L: "loads_ok (om_get ops ?m) (sys_loads s) (sys_mem s)"
    using s by (simp_all add: sys_ok_def)
  have ready: "\<forall>k \<in> set keys. \<exists>c. om_get ops ?m k = Some c \<and> 0 \<le> chunk_ref c"
    using hit by (simp add: lookup_hit_iff)
  have "\<forall>k \<in> set keys. \<exists>c. om_get ops ?m k = Some c \<and> 0 \<le> chunk_ref c \<and>
      chunk_ref c + int (count_list keys k) < 2 ^ 31"
  proof
    fix k assume "k \<in> set keys"
    then obtain c where c: "om_get ops ?m k = Some c" "0 \<le> chunk_ref c" using ready by blast
    have "chunk_ref c = int (count (sys_loads s) k)" using loads_okD(1) [OF L c] by simp
    moreover have "count (sys_loads s) k + count_list keys k < 2 ^ 31"
      using count_le_size [of "sys_loads s" k] count_le_length [of keys k] bound by linarith
    ultimately show "\<exists>c. om_get ops ?m k = Some c \<and> 0 \<le> chunk_ref c \<and> chunk_ref c + int (count_list keys k) < 2 ^ 31"
      using c by (intro exI [of _ c]) simp
  qed
  note P = prepare_load_ok [OF m this res]
  show "ids = map (\<lambda>k. chunk_id (the (om_get ops ?m k))) keys" by (rule P(4))
  show "om_get ops m' = add_refs 1 keys (om_get ops ?m)" by (rule P(2))
  show "sys_ok ops inv (s\<lparr>sys_mgr := m', sys_loads := sys_loads s + mset keys\<rparr>)"
    using P(1,2) loads_ok_add [OF L ready bound] by (simp add: sys_ok_def)
qed

lemma step_load_done:
  assumes s: "sys_ok ops inv s" and sub: "mset keys \<subseteq># sys_loads s"
    and res: "om_complete_load ops keys (sys_mgr s) = Inr m'"
  shows "sys_ok ops inv (s\<lparr>sys_mgr := m', sys_loads := sys_loads s - mset keys\<rparr>)"
    "om_get ops m' = add_refs (- 1) keys (om_get ops (sys_mgr s))" "om_same (sys_mgr s) m'"
proof -
  let ?m = "sys_mgr s"
  have m: "om_inv ops inv ?m" and L: "loads_ok (om_get ops ?m) (sys_loads s) (sys_mem s)"
    using s by (simp_all add: sys_ok_def)
  have "\<forall>k \<in> set keys. \<exists>c. om_get ops ?m k = Some c \<and> int (count_list keys k) \<le> chunk_ref c \<and> chunk_ref c < 2 ^ 31"
  proof
    fix k assume "k \<in> set keys"
    then have "k \<in># sys_loads s" using sub by (meson mset_subset_eqD in_multiset_in_set)
    then obtain c where c: "om_get ops ?m k = Some c" "0 \<le> chunk_ref c" using loads_okD(2) [OF L] by blast
    have ref: "chunk_ref c = int (count (sys_loads s) k)" using loads_okD(1) [OF L c] by simp
    moreover have "count_list keys k \<le> count (sys_loads s) k"
      using mset_subset_eq_count [OF sub, of k] by (simp add: count_mset)
    moreover have "count (sys_loads s) k < 2 ^ 31" using count_le_size [of "sys_loads s" k] loads_okD(3) [OF L] by linarith
    ultimately show "\<exists>c. om_get ops ?m k = Some c \<and> int (count_list keys k) \<le> chunk_ref c \<and> chunk_ref c < 2 ^ 31"
      using c(1) by simp
  qed
  from unpin_all_ok [OF m this] res
  show g: "om_get ops m' = add_refs (- 1) keys (om_get ops ?m)" and "om_same ?m m'" by auto
  have "om_inv ops inv m'" using unpin_all_ok [OF m \<open>\<forall>k \<in> set keys. _ k\<close>] res by auto
  then show "sys_ok ops inv (s\<lparr>sys_mgr := m', sys_loads := sys_loads s - mset keys\<rparr>)"
    using g loads_ok_remove [OF L sub] by (simp add: sys_ok_def)
qed

lemma step_store_done:
  assumes s: "sys_ok ops inv s" and res: "om_complete_store ops keys ctx success (sys_mgr s) = Inr m'"
  shows "sys_ok ops inv (s\<lparr>sys_mgr := m',
      sys_mem := if success then write_stored (om_get ops (sys_mgr s)) keys (sys_mem s) else sys_mem s\<rparr>)"
    "om_get ops m' = (if success then settle keys (om_get ops (sys_mgr s)) else drop_pending keys (om_get ops (sys_mgr s)))"
proof -
  let ?m = "sys_mgr s"
  have m: "om_inv ops inv ?m" and L: "loads_ok (om_get ops ?m) (sys_loads s) (sys_mem s)"
    using s by (simp_all add: sys_ok_def)
  note C = om_complete_store_ok [OF m, of keys ctx success]
  have m': "om_inv ops inv m'"
    "om_get ops m' = (if success then settle keys (om_get ops ?m) else drop_pending keys (om_get ops ?m))"
    using C res by auto
  then show "om_get ops m' = (if success then settle keys (om_get ops ?m) else drop_pending keys (om_get ops ?m))"
    by blast
  show "sys_ok ops inv (s\<lparr>sys_mgr := m',
      sys_mem := if success then write_stored (om_get ops ?m) keys (sys_mem s) else sys_mem s\<rparr>)"
    using m' loads_ok_settle [OF L om_invD(2) [OF m]] loads_ok_drop [OF L] by (simp add: sys_ok_def)
qed

lemma sys_ok_mgr:
  "sys_ok ops inv s \<Longrightarrow> om_inv ops inv m' \<Longrightarrow> om_get ops m' = om_get ops (sys_mgr s) \<Longrightarrow>
   sys_ok ops inv (s\<lparr>sys_mgr := m'\<rparr>)"
  by (simp add: sys_ok_def)

lemma step_take_events:
  "om_inv ops inv (snd (om_take_events ops m)) = om_inv ops inv m"
  "om_get ops (snd (om_take_events ops m)) = om_get ops m"
  by (simp_all add: om_take_events_def split: option.split)

lemma step_get_stats:
  "om_inv ops inv (snd (om_get_stats m)) = om_inv ops inv m"
  "om_get ops (snd (om_get_stats m)) = om_get ops m"
  by (simp_all add: om_get_stats_def Let_def)

theorem offload_step_ok:
  assumes "offload_step ops s s'" "sys_ok ops inv s"
  shows "sys_ok ops inv s'"
  using assms
proof (cases rule: offload_step.cases)
  case (load keys rec ctx ids m' ctx')
  then show ?thesis using step_load(1) [OF assms(2)] by blast
next
  case (load_done keys m')
  then show ?thesis using step_load_done(1) [OF assms(2)] by blast
next
  case (store keys ctx out m' ctx')
  then show ?thesis using step_store(1) [OF assms(2)] by blast
next
  case (store_refused keys ctx m' ctx')
  have "om_inv ops inv (sys_mgr s)" using assms(2) by (simp add: sys_ok_def)
  from step_store_refused [OF this store_refused(2,3)] show ?thesis
    unfolding store_refused(1) by (intro sys_ok_mgr [OF assms(2)])
next
  case (store_done keys ctx m')
  then show ?thesis using step_store_done(1) [OF assms(2) store_done(2)] by simp
next
  case (store_failed keys ctx m')
  then show ?thesis using step_store_done(1) [OF assms(2) store_failed(2)] by simp
next
  case (finish ctx m' ctx')
  have "om_inv ops inv (sys_mgr s)" using assms(2) by (simp add: sys_ok_def)
  from finished_ok [OF this finish(2)] show ?thesis
    unfolding finish(1) by (intro sys_ok_mgr [OF assms(2)])
next
  case reset
  have m: "om_inv ops inv (sys_mgr s)" using assms(2) by (simp add: sys_ok_def)
  from om_inv_reset [OF m] clear_law [OF om_invD(1) [OF m]]
  show ?thesis unfolding reset by (simp add: sys_ok_def loads_ok_def)
next
  case drain
  then show ?thesis using assms(2) by (simp add: sys_ok_def step_take_events)
next
  case report
  then show ?thesis using assms(2) by (simp add: sys_ok_def step_get_stats)
qed

lemma same_slot:
  assumes "om_get ops m k = Some c"
  shows "\<exists>c'. add_refs d keys (om_get ops m) k = Some c' \<and> chunk_id c' = chunk_id c"
    "\<exists>c'. settle keys (om_get ops m) k = Some c' \<and> chunk_id c' = chunk_id c"
    "0 \<le> chunk_ref c \<Longrightarrow> drop_pending keys (om_get ops m) k = Some c"
  using assms by (auto simp: add_refs_def settle_def drop_pending_def pending_keys_def)

theorem step_keeps_slot:
  assumes st: "offload_step ops s s'" and ok: "sys_ok ops inv s" and k: "k \<in># sys_loads s" "k \<in># sys_loads s'"
    and c: "om_get ops (sys_mgr s) k = Some c"
  shows "\<exists>c'. om_get ops (sys_mgr s') k = Some c' \<and> chunk_id c' = chunk_id c"
proof -
  have m: "om_inv ops inv (sys_mgr s)" and L: "loads_ok (om_get ops (sys_mgr s)) (sys_loads s) (sys_mem s)"
    using ok by (simp_all add: sys_ok_def)
  have ge: "0 \<le> chunk_ref c" using loads_okD(2) [OF L k(1)] c by auto
  have ne: "chunk_ref c \<noteq> 0" using loads_okD(1) [OF L c ge] k(1) by simp
  show ?thesis using st
  proof (cases rule: offload_step.cases)
    case (load keys rec ctx ids m' ctx')
    then show ?thesis using step_load(3) [OF ok load(2-4)] same_slot(1) [of "sys_mgr s" k c, OF c] by simp
  next
    case (load_done keys m')
    then show ?thesis using step_load_done(2) [OF ok load_done(2,3)] same_slot(1) [of "sys_mgr s" k c, OF c] by simp
  next
    case (store keys ctx out m' ctx')
    then show ?thesis using step_store(2) [OF ok store(2,3), of k c] c ne by simp
  next
    case (store_refused keys ctx m' ctx')
    then show ?thesis using step_store_refused(2) [OF m store_refused(2,3)] c by simp
  next
    case (store_done keys ctx m')
    then show ?thesis using step_store_done(2) [OF ok store_done(2)] same_slot(2) [of "sys_mgr s" k c, OF c] by simp
  next
    case (store_failed keys ctx m')
    then show ?thesis using step_store_done(2) [OF ok store_failed(2)] same_slot(3) [of "sys_mgr s" k c, OF c ge] by simp
  next
    case (finish ctx m' ctx')
    then show ?thesis using finished_ok(2) [OF m finish(2)] c by simp
  next
    case reset
    then show ?thesis using k(2) by simp
  next
    case drain
    then show ?thesis using c by (simp add: step_take_events)
  next
    case report
    then show ?thesis using c by (simp add: step_get_stats)
  qed
qed

theorem reachable_ok:
  assumes "offload_reachable ops m0 s" "om_inv ops inv m0" "om_get ops m0 = (\<lambda>_. None)"
  shows "sys_ok ops inv s"
  using assms(1)
proof (induction rule: offload_reachable.induct)
  case (start mem)
  then show ?case using assms(2,3) by (simp add: sys_ok_def loads_ok_def)
next
  case (step s s')
  then show ?case using offload_step_ok by blast
qed

end

text \<open>A new manager is empty and in order.\<close>

lemma om_init_ok:
  assumes "pinv p" "cp_get ops p = (\<lambda>_. None)" "0 \<le> n"
  shows "om_inv ops pinv (om_init i n p e t x)" "om_get ops (om_init i n p e t x) = (\<lambda>_. None)"
  using assms by (simp_all add: om_inv_def om_get_def om_init_def chunk_pool_ok_def idle_keys_def pending_keys_def)

lemma lru_init_ok: "lru_inv (lru_init i n)" "cp_get lru_ops (lru_init i n) = (\<lambda>_. None)"
  by (simp_all add: lru_inv_def lru_init_def lru_ops_def lru_get_def fun_eq_iff idle_keys_def heap_covers_def is_heap_def heap_from_def)

lemma arc_init_ok: "0 \<le> n \<Longrightarrow> arc_inv (arc_init n)" "cp_get arc_ops (arc_init n) = (\<lambda>_. None)"
  by (simp add: arc_init_inv) (simp add: arc_init_def arc_ops_def arc_get_def fun_eq_iff)

section \<open>What the manager promises\<close>

text \<open>A load under way reads the slot of its key, which holds its data and is not free.\<close>

definition load_safe :: "'p cache_policy_ops \<Rightarrow> 'p offload_sys \<Rightarrow> offload_key \<Rightarrow> bool" where
  "load_safe ops s k \<longleftrightarrow>
     (case om_get ops (sys_mgr s) k of
        None \<Rightarrow> False
      | Some c \<Rightarrow> chunk_ref c = int (count (sys_loads s) k) \<and> sys_mem s (chunk_id c) = Some k \<and>
          0 \<le> chunk_id c \<and> chunk_id c < om_num_chunks (sys_mgr s) \<and>
          chunk_id c \<notin> set (om_free_list (sys_mgr s)))"

text \<open>A store is refused, with every chunk kept, exactly when it does not fit; otherwise it makes room by
  evicting idle chunks that the offer does not mention.\<close>

definition store_decided :: "'p cache_policy_ops \<Rightarrow> offload_key list \<Rightarrow> req_context \<Rightarrow> 'p offload_manager \<Rightarrow> bool" where
  "store_decided ops keys ctx m \<longleftrightarrow>
     (let W = store_candidates ops keys ctx m
      in case om_prepare_store ops keys ctx m of
           Inl e \<Rightarrow> False
         | Inr (None, m', ctx') \<Rightarrow> \<not> store_fits ops keys W m \<and> om_get ops m' = om_get ops m
         | Inr (Some out, m', ctx') \<Rightarrow>
             store_fits ops keys W m \<and> keys_to_store out = W \<and> length (store_spec out) = length W \<and>
             set (evicted_keys out) \<subseteq> idle_keys (om_get ops m) - set keys \<and>
             om_get ops m' = put_chunks (zip W (map chunk_init (store_spec out)))
               (\<lambda>k. if k \<in> set (evicted_keys out) then None else om_get ops m k))"

context cache_policy
begin

lemma sys_ok_load_safe:
  assumes "sys_ok ops inv s" "k \<in># sys_loads s"
  shows "load_safe ops s k"
proof -
  have m: "om_inv ops inv (sys_mgr s)" and L: "loads_ok (om_get ops (sys_mgr s)) (sys_loads s) (sys_mem s)"
    using assms(1) by (simp_all add: sys_ok_def)
  obtain c where c: "om_get ops (sys_mgr s) k = Some c" "0 \<le> chunk_ref c"
    using loads_okD(2) [OF L assms(2)] by blast
  note P = om_invD(2) [OF m]
  have "chunk_id c \<in> chunk_id ` ran (om_get ops (sys_mgr s))" using c(1) by (auto simp: ran_def)
  then have "chunk_id c \<in> {0..<om_num_allocated (sys_mgr s)}" "chunk_id c \<notin> set (om_free_list (sys_mgr s))"
    using chunk_pool_okD(4,5) [OF P] by blast+
  then show ?thesis using loads_okD(1) [OF L c] om_invD(4) [OF m] c(1) by (simp add: load_safe_def)
qed

lemma prepare_store_decided:
  assumes "om_inv ops inv m" "access_open m ctx" "distinct keys"
  shows "store_decided ops keys ctx m"
  using prepare_store_outcome [OF assms(1) _ refl assms(3), of ctx] assms(2)
  by (cases "store_fits ops keys (store_candidates ops keys ctx m) m") (auto simp: store_decided_def Let_def)

text \<open>A store that completes.\<close>

lemma stored_pending:
  assumes m: "om_inv ops inv m" and keys: "distinct keys"
    and res: "om_prepare_store ops keys ctx m = Inr (Some out, m1, ctx1)"
  shows "om_inv ops inv m1" "set (keys_to_store out) \<subseteq> pending_keys (om_get ops m1)"
    "distinct (keys_to_store out)" "keys_to_store out = store_candidates ops keys ctx m"
proof -
  define W where "W = store_candidates ops keys ctx m"
  have ok: "access_open m ctx \<or> (\<exists>r. om_prepare_store ops keys ctx m = Inr r)" using res by blast
  note O = prepare_store_outcome [OF m ok W_def keys]
  have "store_fits ops keys W m" using O res by auto
  with O res obtain ids ev where r: "keys_to_store out = W" "om_inv ops inv m1" "length ids = length W"
      "om_get ops m1 = put_chunks (zip W (map chunk_init ids)) (\<lambda>k. if k \<in> set ev then None else om_get ops m k)"
    by auto
  have W: "\<forall>k \<in> set W. om_get ops m k = None" "distinct W"
    using store_candidates_props [where ops = ops and keys = keys and ctx = ctx and m = m] keys
    unfolding W_def by auto
  have "set W \<subseteq> pending_keys (om_get ops m1)" unfolding r(4)
    by (subst pending_put_chunks(1) [OF r(3) W(2)]) (use W(1) in auto)
  then show "om_inv ops inv m1" "set (keys_to_store out) \<subseteq> pending_keys (om_get ops m1)"
    "distinct (keys_to_store out)" "keys_to_store out = store_candidates ops keys ctx m"
    using r(1,2) W(2) by (simp_all add: W_def)
qed

lemma complete_store_lookup:
  assumes m: "om_inv ops inv m" and ks: "set ks \<subseteq> pending_keys (om_get ops m)"
  shows "\<exists>m2. om_complete_store ops ks ctx True m = Inr m2 \<and> (\<forall>k \<in> set ks. om_lookup ops k m2 = LookupHit) \<and>
      (\<forall>k. k \<notin> set ks \<longrightarrow> om_lookup ops k m2 = om_lookup ops k m)"
proof -
  from om_complete_store_ok [OF m, of ks ctx True] obtain m2
    where m2: "om_complete_store ops ks ctx True m = Inr m2" "om_get ops m2 = settle ks (om_get ops m)" by auto
  have "om_lookup ops k m2 = LookupHit" if "k \<in> set ks" for k
  proof -
    from that ks obtain c where "om_get ops m k = Some c" "chunk_ref c = - 1" by (auto simp: pending_keys_def)
    with that show ?thesis unfolding lookup_hit_iff m2(2) by (simp add: settle_def)
  qed
  moreover have "om_lookup ops k m2 = om_lookup ops k m" if "k \<notin> set ks" for k
  proof -
    have "om_get ops m2 k = om_get ops m k" unfolding m2(2) using that by (cases "om_get ops m k") (simp_all add: settle_def)
    then show ?thesis by (simp add: om_lookup_def om_get_def)
  qed
  ultimately show ?thesis using m2(1) by blast
qed

lemma fail_store_lookup:
  assumes m: "om_inv ops inv m" and ks: "set ks \<subseteq> pending_keys (om_get ops m)" "distinct ks"
  shows "\<exists>m2. om_complete_store ops ks ctx False m = Inr m2 \<and> (\<forall>k \<in> set ks. om_lookup ops k m2 = LookupMiss) \<and>
      (\<forall>k. k \<notin> set ks \<longrightarrow> om_lookup ops k m2 = om_lookup ops k m) \<and>
      get_num_free_chunks m2 = get_num_free_chunks m + int (length ks)"
proof -
  from om_complete_store_ok [OF m, of ks ctx False] obtain m2
    where m2: "om_complete_store ops ks ctx False m = Inr m2" "om_inv ops inv m2" "om_same m m2"
      "om_get ops m2 = drop_pending ks (om_get ops m)" by auto
  have get: "om_get ops m2 k = (if k \<in> set ks then None else om_get ops m k)" for k
    unfolding m2(4) using ks(1) by (auto simp: drop_pending_def)
  have sub: "set ks \<subseteq> dom (om_get ops m)" using ks(1) by (auto simp: pending_keys_def)
  have "dom (om_get ops m2) = dom (om_get ops m) - set ks" by (auto simp: get split: if_splits)
  moreover have "finite (dom (om_get ops m))" by (rule chunk_pool_okD(1) [OF om_invD(2) [OF m]])
  ultimately have "card (dom (om_get ops m2)) + length ks = card (dom (om_get ops m))"
    using sub ks(2) card_Diff_subset [of "set ks" "dom (om_get ops m)"] card_mono [of "dom (om_get ops m)" "set ks"]
    by (simp add: distinct_card)
  then have "get_num_free_chunks m2 = get_num_free_chunks m + int (length ks)"
    using m2(3) unfolding free_chunks_eq [OF m] free_chunks_eq [OF m2(2)] by (simp add: om_same_def)
  moreover have "om_lookup ops k m2 = (if k \<in> set ks then LookupMiss else om_lookup ops k m)" for k
    using get [of k] by (simp add: om_lookup_def om_get_def)
  ultimately show ?thesis using m2(1) by auto
qed

text \<open>The reported usage counts the chunks that a transfer holds.\<close>

lemma stats_exact:
  assumes m: "om_inv ops inv m" and n: "0 < om_num_chunks m"
  shows "cache_usage (fst (om_get_stats m)) =
      of_nat (card (dom (om_get ops m) - idle_keys (om_get ops m))) / of_int (om_num_chunks m) \<and>
    write_usage (fst (om_get_stats m)) = of_nat (card (pending_keys (om_get ops m))) / of_int (om_num_chunks m) \<and>
    read_usage (fst (om_get_stats m)) =
      of_nat (card (dom (om_get ops m) - idle_keys (om_get ops m) - pending_keys (om_get ops m))) / of_int (om_num_chunks m) \<and>
    cache_usage (fst (om_get_stats m)) \<le> 1"
proof -
  note I = om_invD [OF m]
  let ?D = "dom (om_get ops m)" and ?I = "idle_keys (om_get ops m)" and ?P = "pending_keys (om_get ops m)"
  let ?N = "of_int (om_num_chunks m) :: rat"
  have sub: "?I \<subseteq> ?D" "?P \<subseteq> ?D - ?I" by (auto simp: idle_keys_def pending_keys_def)
  have fin: "finite ?D" by (rule chunk_pool_okD(1) [OF I(2)])
  have fins: "finite ?I" "finite ?P" using fin sub by (auto intro: finite_subset)
  have used: "om_num_allocated m - int (length (om_free_list m)) - om_num_evictable m = int (card (?D - ?I))"
    using chunk_pool_card(2) [OF I(2,3)] I(5) card_Diff_subset [OF fins(1) sub(1)] card_mono [OF fin sub(1)] by simp
  have diff: "int (card (?D - ?I - ?P)) = int (card (?D - ?I)) - int (card ?P)"
    using card_Diff_subset [OF fins(2) sub(2)] card_mono [OF _ sub(2)] fin by (simp add: of_nat_diff)
  have u: "cache_usage (fst (om_get_stats m)) = of_nat (card (?D - ?I)) / ?N"
    using n used by (simp add: om_get_stats_def Let_def)
  moreover have w: "write_usage (fst (om_get_stats m)) = of_nat (card ?P) / ?N"
    using n I(6) by (simp add: om_get_stats_def Let_def)
  moreover have "read_usage (fst (om_get_stats m)) = of_nat (card (?D - ?I - ?P)) / ?N"
  proof -
    have "of_nat (card (?D - ?I)) / ?N - of_nat (card ?P) / ?N = of_nat (card (?D - ?I - ?P)) / ?N"
      using arg_cong [OF diff, of "of_int :: int \<Rightarrow> rat"] by (simp add: diff_divide_distrib)
    moreover have "read_usage (fst (om_get_stats m)) =
        max (cache_usage (fst (om_get_stats m)) - write_usage (fst (om_get_stats m))) 0"
      by (simp add: om_get_stats_def Let_def)
    ultimately show ?thesis using n unfolding u w by simp
  qed
  moreover have "int (card (?D - ?I)) \<le> om_num_chunks m" using used I(4,5) by linarith
  then have "(of_nat (card (?D - ?I)) :: rat) \<le> ?N" using of_int_le_iff [of "int (card (?D - ?I))"] by (metis of_int_of_nat_eq)
  ultimately show ?thesis using n by simp
qed

end

section \<open>Properties\<close>

text \<open>The managers the configuration can name: \<open>lru\<close> and \<open>arc\<close>.\<close>

abbreviation lru_manager :: "nat \<Rightarrow> int \<Rightarrow> bool \<Rightarrow> int \<Rightarrow> int \<Rightarrow> lru_policy offload_manager" where
  "lru_manager i n enable_events threshold tracker \<equiv> om_init i n (lru_init i n) enable_events threshold tracker"

abbreviation arc_manager :: "nat \<Rightarrow> int \<Rightarrow> bool \<Rightarrow> int \<Rightarrow> int \<Rightarrow> arc_policy offload_manager" where
  "arc_manager i n enable_events threshold tracker \<equiv> om_init i n (arc_init n) enable_events threshold tracker"

lemma lru_reachable_ok:
  "0 \<le> n \<Longrightarrow> offload_reachable lru_ops (lru_manager i n e t x) s \<Longrightarrow> sys_ok lru_ops lru_inv s"
  using lru.reachable_ok om_init_ok [of lru_inv "lru_init i n" lru_ops] lru_init_ok by blast

lemma arc_reachable_ok:
  "0 \<le> n \<Longrightarrow> offload_reachable arc_ops (arc_manager i n e t x) s \<Longrightarrow> sys_ok arc_ops arc_inv s"
  using arc.reachable_ok om_init_ok [of arc_inv "arc_init n" arc_ops] arc_init_ok by blast

text \<open>A sample trace: the chunk of one key is stored and then loaded.\<close>

definition sample_ctx :: req_context where
  "sample_ctx = req_context_init ''r''"

definition sample_run :: "'p cache_policy_ops \<Rightarrow> 'p offload_manager \<Rightarrow> (bool \<times> 'p offload_manager) result" where
  "sample_run ops m =
     rbind (om_prepare_store ops [[1]] sample_ctx m) (\<lambda>(out, m1, ctx1).
     rbind (om_complete_store ops [[1]] ctx1 True m1) (\<lambda>m2.
     rbind (om_prepare_load ops True [[1]] ctx1 m2) (\<lambda>(ids, m3, ctx3).
       Inr (out \<noteq> None \<and> om_lookup ops [1] m2 = LookupHit, m3))))"

lemma sample_run_reaches:
  assumes "sample_run ops m = Inr (True, m3)"
  shows "\<exists>s. offload_reachable ops m s \<and> sys_loads s = {#[1]#} \<and> sys_mgr s = m3"
proof -
  obtain out m1 ctx1 m2 ids ctx3 where r: "om_prepare_store ops [[1]] sample_ctx m = Inr (Some out, m1, ctx1)"
    "om_complete_store ops [[1]] ctx1 True m1 = Inr m2" "om_prepare_load ops True [[1]] ctx1 m2 = Inr (ids, m3, ctx3)"
    "om_lookup ops [1] m2 = LookupHit"
    using assms by (auto simp: sample_run_def rbind_Inr_iff)
  define s0 where "s0 = \<lparr>sys_mgr = m, sys_loads = {#}, sys_mem = (\<lambda>_. None)\<rparr>"
  define s1 where "s1 = s0\<lparr>sys_mgr := m1, sys_mem := forget (store_spec out) (sys_mem s0)\<rparr>"
  define s2 where "s2 = s1\<lparr>sys_mgr := m2, sys_mem := write_stored (om_get ops (sys_mgr s1)) [[1]] (sys_mem s1)\<rparr>"
  define s3 where "s3 = s2\<lparr>sys_mgr := m3, sys_loads := sys_loads s2 + mset [[1]]\<rparr>"
  have "offload_step ops s0 s1" unfolding s1_def
    by (rule offload_step.store [of "[[1]]" ops sample_ctx]) (simp_all add: s0_def r(1))
  moreover have "offload_step ops s1 s2" unfolding s2_def
    by (rule offload_step.store_done [of ops "[[1]]" ctx1]) (simp add: s1_def r(2))
  moreover have "offload_step ops s2 s3" unfolding s3_def
    by (rule offload_step.load [of "[[1]]" ops _ True ctx1]) (simp_all add: s2_def s1_def s0_def r(3,4))
  moreover have "offload_reachable ops m s0" unfolding s0_def by (rule offload_reachable.start)
  ultimately have "offload_reachable ops m s3" by (meson offload_reachable.step)
  then show ?thesis by (intro exI [of _ s3]) (simp add: s3_def s2_def s1_def s0_def)
qed

lemma sample_lru_run: "\<exists>s. offload_reachable lru_ops (lru_manager 0 1 True 0 0) s \<and> sys_loads s = {#[1]#}"
proof -
  have "case sample_run lru_ops (lru_manager 0 1 True 0 0) of Inr (b, _) \<Rightarrow> b | Inl _ \<Rightarrow> False" by code_simp
  then show ?thesis using sample_run_reaches [of lru_ops] by (fastforce split: sum.splits)
qed

lemma sample_arc_run: "\<exists>s. offload_reachable arc_ops (arc_manager 0 1 True 0 0) s \<and> sys_loads s = {#[1]#}"
proof -
  have "case sample_run arc_ops (arc_manager 0 1 True 0 0) of Inr (b, _) \<Rightarrow> b | Inl _ \<Rightarrow> False" by code_simp
  then show ?thesis using sample_run_reaches [of arc_ops] by (fastforce split: sum.splits)
qed

text \<open>C5. Whatever loads, stores, evictions, completions and resets are interleaved, under the LRU and the
  ARC policy a load that is under way reads its own data: its key is in the cache with one reference per
  load, the slot it reads holds the data of that key, lies in the pool and is not on the free list.\<close>

theorem offloaded_loads_safe:
  assumes "0 \<le> n"
  shows "(\<forall>s k. offload_reachable lru_ops (lru_manager i n e t x) s \<longrightarrow> k \<in># sys_loads s \<longrightarrow> load_safe lru_ops s k) \<and>
    (\<forall>s k. offload_reachable arc_ops (arc_manager i n e t x) s \<longrightarrow> k \<in># sys_loads s \<longrightarrow> load_safe arc_ops s k)"
  using lru.sys_ok_load_safe lru_reachable_ok [OF assms] arc.sys_ok_load_safe arc_reachable_ok [OF assms] by blast

theorem offloaded_loads_safe_witness:
  "(\<exists>s. offload_reachable lru_ops (lru_manager 0 1 True 0 0) s \<and> sys_loads s = {#[1]#} \<and> load_safe lru_ops s [1]) \<and>
   (\<exists>s. offload_reachable arc_ops (arc_manager 0 1 True 0 0) s \<and> sys_loads s = {#[1]#} \<and> load_safe arc_ops s [1])"
  using offloaded_loads_safe [of 1 0 True 0 0] sample_lru_run sample_arc_run by (metis union_single_eq_member zero_le_one)

text \<open>C35. A load keeps the slot it was given: a step between its preparation and its completion changes
  neither the presence of its key nor the slot of its chunk.\<close>

theorem load_slot_kept:
  assumes "0 \<le> n"
  shows "(\<forall>s s' k. offload_reachable lru_ops (lru_manager i n e t x) s \<longrightarrow> offload_step lru_ops s s' \<longrightarrow>
      k \<in># sys_loads s \<longrightarrow> k \<in># sys_loads s' \<longrightarrow>
      map_option chunk_id (om_get lru_ops (sys_mgr s') k) = map_option chunk_id (om_get lru_ops (sys_mgr s) k)) \<and>
    (\<forall>s s' k. offload_reachable arc_ops (arc_manager i n e t x) s \<longrightarrow> offload_step arc_ops s s' \<longrightarrow>
      k \<in># sys_loads s \<longrightarrow> k \<in># sys_loads s' \<longrightarrow>
      map_option chunk_id (om_get arc_ops (sys_mgr s') k) = map_option chunk_id (om_get arc_ops (sys_mgr s) k))"
proof -
  have "map_option chunk_id (om_get lru_ops (sys_mgr s') k) = map_option chunk_id (om_get lru_ops (sys_mgr s) k)"
    if "sys_ok lru_ops lru_inv s" "offload_step lru_ops s s'" "k \<in># sys_loads s" "k \<in># sys_loads s'" for s s' k
    using lru.step_keeps_slot [OF that(2,1,3,4)] lru.sys_ok_load_safe [OF that(1,3)]
    by (auto simp: load_safe_def split: option.splits)
  moreover
  have "map_option chunk_id (om_get arc_ops (sys_mgr s') k) = map_option chunk_id (om_get arc_ops (sys_mgr s) k)"
    if "sys_ok arc_ops arc_inv s" "offload_step arc_ops s s'" "k \<in># sys_loads s" "k \<in># sys_loads s'" for s s' k
    using arc.step_keeps_slot [OF that(2,1,3,4)] arc.sys_ok_load_safe [OF that(1,3)]
    by (auto simp: load_safe_def split: option.splits)
  ultimately show ?thesis using lru_reachable_ok [OF assms] arc_reachable_ok [OF assms] by blast
qed

theorem load_slot_kept_witness:
  "\<exists>s s'. offload_reachable arc_ops (arc_manager 0 1 True 0 0) s \<and> offload_step arc_ops s s' \<and>
    [1] \<in># sys_loads s \<and> [1] \<in># sys_loads s' \<and>
    map_option chunk_id (om_get arc_ops (sys_mgr s') [1]) = map_option chunk_id (om_get arc_ops (sys_mgr s) [1])"
proof -
  obtain s where s: "offload_reachable arc_ops (arc_manager 0 1 True 0 0) s" "sys_loads s = {#[1]#}"
    using sample_arc_run by blast
  have st: "offload_step arc_ops s (s\<lparr>sys_mgr := snd (om_take_events arc_ops (sys_mgr s))\<rparr>)" (is "offload_step _ _ ?s'")
    by (rule offload_step.drain)
  have L: "[1] \<in># sys_loads s" "[1] \<in># sys_loads ?s'" using s(2) by simp_all
  from load_slot_kept [of 1 0 True 0 0, THEN conjunct2, rule_format, OF _ s(1) st L] s(1) st L show ?thesis
    by (intro exI [of _ s] exI [of _ ?s']) simp
qed

text \<open>C6. Preparing a store never raises for a request whose accesses are still open: it is refused, with
  every cached chunk kept, exactly when the idle chunks outside the offer cannot make room; otherwise the
  missing admitted keys get one slot each, and what is evicted was idle and not offered.\<close>

theorem prepare_store_decision:
  assumes "0 \<le> n" "distinct keys"
  shows "(\<forall>s. offload_reachable lru_ops (lru_manager i n e t x) s \<longrightarrow> access_open (sys_mgr s) ctx \<longrightarrow>
      store_decided lru_ops keys ctx (sys_mgr s)) \<and>
    (\<forall>s. offload_reachable arc_ops (arc_manager i n e t x) s \<longrightarrow> access_open (sys_mgr s) ctx \<longrightarrow>
      store_decided arc_ops keys ctx (sys_mgr s))"
  using lru.prepare_store_decided lru_reachable_ok [OF assms(1)] arc.prepare_store_decided
    arc_reachable_ok [OF assms(1)] assms(2)
  unfolding sys_ok_def by blast

theorem prepare_store_decision_witness:
  "\<exists>s. offload_reachable lru_ops (lru_manager 0 1 True 0 0) s \<and> sys_loads s = {#[1]#} \<and>
    access_open (sys_mgr s) sample_ctx \<and> store_decided lru_ops [[1], [2]] sample_ctx (sys_mgr s)"
proof -
  obtain s where s: "offload_reachable lru_ops (lru_manager 0 1 True 0 0) s" "sys_loads s = {#[1]#}"
    using sample_lru_run by blast
  have "access_open (sys_mgr s) sample_ctx"
    by (simp add: access_open_def get_request_cache_access_def new_cache_access_def sample_ctx_def req_context_init_def)
  then show ?thesis
    using s prepare_store_decision [of 1 "[[1], [2]]" 0 True 0 0 sample_ctx, THEN conjunct1] by auto
qed





end
