(* ===== verification/Scalar_Type.thy ===== *)
theory Scalar_Type
  imports Request_Model
begin

text \<open>
  Scalar types of quantized kernels. The Python class of \<open>scalar_type.py\<close> and the C++ class of
  \<open>core/scalar_type.hpp\<close> are modelled side by side: Python integers are unbounded, the members of the
  C++ class are words of their width. The theorems relate the two: the integer id that crosses the
  language boundary, the largest and smallest values against the set of values a format encodes, and
  the predicates and names, on which the two classes differ.
\<close>

unbundle bit_operations_syntax

section \<open>The Python class\<close>

datatype nan_repr = NAN_NONE | NAN_IEEE_754 | NAN_EXTD_RANGE_MAX_MIN

fun nan_repr_value :: "nan_repr \<Rightarrow> int" where
  "nan_repr_value NAN_NONE = 0"
| "nan_repr_value NAN_IEEE_754 = 1"
| "nan_repr_value NAN_EXTD_RANGE_MAX_MIN = 2"

record scalar_type =
  st_exponent :: int
  st_mantissa :: int
  st_signed :: bool
  st_bias :: int
  st_finite_values_only :: bool
  st_nan_repr :: nan_repr

text \<open>A comparison of an enum member with a plain integer: the two are never equal, since the enum is
  not an integer type.\<close>

definition py_enum_eq_int :: "nan_repr \<Rightarrow> int \<Rightarrow> bool" where
  "py_enum_eq_int r i \<longleftrightarrow> (Inl r :: nan_repr + int) = Inr i"

definition st_size_bits :: "scalar_type \<Rightarrow> int" where
  "st_size_bits t = st_exponent t + st_mantissa t + of_bool (st_signed t)"

definition st_is_signed :: "scalar_type \<Rightarrow> bool" where
  "st_is_signed t = st_signed t"

definition st_is_floating_point :: "scalar_type \<Rightarrow> bool" where
  "st_is_floating_point t \<longleftrightarrow> st_exponent t \<noteq> 0"

definition st_is_integer :: "scalar_type \<Rightarrow> bool" where
  "st_is_integer t \<longleftrightarrow> st_exponent t = 0"

definition st_has_bias :: "scalar_type \<Rightarrow> bool" where
  "st_has_bias t \<longleftrightarrow> st_bias t \<noteq> 0"

definition st_has_infs :: "scalar_type \<Rightarrow> bool" where
  "st_has_infs t \<longleftrightarrow> \<not> st_finite_values_only t"

definition st_has_nans :: "scalar_type \<Rightarrow> bool" where
  "st_has_nans t \<longleftrightarrow> \<not> py_enum_eq_int (st_nan_repr t) (nan_repr_value NAN_NONE)"

definition st_is_ieee_754 :: "scalar_type \<Rightarrow> bool" where
  "st_is_ieee_754 t \<longleftrightarrow>
     py_enum_eq_int (st_nan_repr t) (nan_repr_value NAN_IEEE_754) \<and> \<not> st_finite_values_only t"

definition st_str :: "scalar_type \<Rightarrow> string" where
  "st_str t =
     (if st_is_floating_point t
      then ''float'' @ json_int (st_size_bits t) @ ''_e'' @ json_int (st_exponent t) @ ''m'' @ json_int (st_mantissa t) @
           (if \<not> st_is_ieee_754 t
            then (if st_finite_values_only t then ''f'' else []) @ (if st_nan_repr t \<noteq> NAN_NONE then ''n'' else [])
            else [])
      else (if st_is_signed t then ''int'' else ''uint'') @ json_int (st_size_bits t) @
           (if st_has_bias t then ''b'' @ json_int (st_bias t) else []))"

definition st_repr :: "scalar_type \<Rightarrow> string" where
  "st_repr t = ''ScalarType.'' @ st_str t"

definition st_len :: "scalar_type \<Rightarrow> int result" where
  "st_len t = Inl TypeError"

subsection \<open>Largest and smallest values\<close>

text \<open>\<open>a << n\<close> raises for a negative \<open>n\<close>.\<close>

definition py_shl :: "int \<Rightarrow> int \<Rightarrow> int result" where
  "py_shl a n = (if n < 0 then Inl ValueError else Inr (push_bit (nat n) a))"

text \<open>\<open>struct\<close>: packing as an unsigned 64-bit integer and reading the bits as a double.\<close>

definition struct_pack_Q :: "int \<Rightarrow> int result" where
  "struct_pack_Q x = (if 0 \<le> x \<and> x < 2 ^ 64 then Inr x else Inl StructError)"

datatype double = Finite rat | Infinite bool | NotANumber

definition decode_double :: "int \<Rightarrow> double" where
  "decode_double x =
     (let negative = bit x 63; e = take_bit 11 (drop_bit 52 x); m = take_bit 52 x in
      if e = 2047 then (if m = 0 then Infinite negative else NotANumber)
      else Finite ((if negative then - 1 else 1) *
        (if e = 0 then of_int m / 2 ^ 52 * 2 powi (- 1022) else (1 + of_int m / 2 ^ 52) * 2 powi (e - 1023))))"

datatype py_number = IntNum int | FloatNum double

text \<open>Subtraction of an integer; floats are exact.\<close>

fun py_sub_int :: "py_number \<Rightarrow> int \<Rightarrow> py_number" where
  "py_sub_int (IntNum i) b = IntNum (i - b)"
| "py_sub_int (FloatNum (Finite q)) b = FloatNum (Finite (q - of_int b))"
| "py_sub_int (FloatNum x) b = FloatNum x"

definition floating_point_max_int :: "scalar_type \<Rightarrow> int result" where
  "floating_point_max_int t =
     rbind (py_assert (st_mantissa t \<le> 52 \<and> st_exponent t \<le> 11)) (\<lambda>_.
     rbind (py_shl 1 (st_mantissa t)) (\<lambda>m.
     let max_mantissa = (if st_nan_repr t = NAN_EXTD_RANGE_MAX_MIN then m - 1 - 1 else m - 1) in
     rbind (py_shl 1 (st_exponent t)) (\<lambda>e.
     rbind (if st_nan_repr t = NAN_EXTD_RANGE_MAX_MIN \<or> st_nan_repr t = NAN_NONE
            then rbind (py_assert (st_exponent t < 11)) (\<lambda>_. Inr (e - 2 + 1))
            else Inr (e - 2)) (\<lambda>max_exponent.
     rbind (py_shl 1 (st_exponent t - 1)) (\<lambda>eb.
     let exponent_bias = eb - 1;
         exponent_bias_double = push_bit 10 1 - 1;
         max_exponent_double = max_exponent - exponent_bias + exponent_bias_double in
     rbind (py_shl max_mantissa (52 - st_mantissa t)) (\<lambda>a.
       Inr (a OR push_bit 52 max_exponent_double)))))))"

definition floating_point_max :: "scalar_type \<Rightarrow> py_number result" where
  "floating_point_max t =
     rbind (floating_point_max_int t) (\<lambda>double_raw.
     rbind (struct_pack_Q double_raw) (\<lambda>raw. Inr (FloatNum (decode_double raw))))"

definition raw_max :: "scalar_type \<Rightarrow> py_number result" where
  "raw_max t =
     (if st_is_floating_point t then floating_point_max t
      else rbind (py_assert (st_size_bits t < 64 \<or> st_size_bits t = 64 \<and> st_is_signed t)) (\<lambda>_.
           rbind (py_shl 1 (st_mantissa t)) (\<lambda>x. Inr (IntNum (x - 1)))))"

definition raw_min :: "scalar_type \<Rightarrow> py_number result" where
  "raw_min t =
     (if st_is_floating_point t
      then rbind (py_assert (st_is_signed t)) (\<lambda>_.
           let sign_bit_double = push_bit 63 1 in
           rbind (floating_point_max_int t) (\<lambda>max_raw.
           let min_raw = max_raw OR sign_bit_double in
           rbind (struct_pack_Q min_raw) (\<lambda>raw. Inr (FloatNum (decode_double raw)))))
      else rbind (py_assert (\<not> st_is_signed t \<or> st_size_bits t \<le> 64)) (\<lambda>_.
           if st_is_signed t
           then rbind (py_shl 1 (st_size_bits t - 1)) (\<lambda>x. Inr (IntNum (- x)))
           else Inr (IntNum 0)))"

definition st_min :: "scalar_type \<Rightarrow> py_number result" where
  "st_min t = rbind (raw_min t) (\<lambda>x. Inr (py_sub_int x (st_bias t)))"

definition st_max :: "scalar_type \<Rightarrow> py_number result" where
  "st_max t = rbind (raw_max t) (\<lambda>x. Inr (py_sub_int x (st_bias t)))"

subsection \<open>Identifiers and constructors\<close>

definition or_and_advance :: "int \<Rightarrow> nat \<Rightarrow> int \<times> nat \<Rightarrow> int \<times> nat" where
  "or_and_advance member bit_width s =
     (let (val, offset) = s; bit_mask = push_bit bit_width 1 - 1
      in (val OR push_bit offset (member AND bit_mask), offset + bit_width))"

definition st_id :: "scalar_type \<Rightarrow> int" where
  "st_id t =
     fst (or_and_advance (nan_repr_value (st_nan_repr t)) 8
         (or_and_advance (of_bool (st_finite_values_only t)) 1
         (or_and_advance (st_bias t) 32
         (or_and_advance (of_bool (st_signed t)) 1
         (or_and_advance (st_mantissa t) 8
         (or_and_advance (st_exponent t) 8 (0, 0)))))))"

text \<open>Reading \<open>id\<close> registers the type. Constructors return the type and the registry.\<close>

type_synonym type_registry = "(int, scalar_type) dict"

definition register_id :: "scalar_type \<Rightarrow> type_registry \<Rightarrow> type_registry" where
  "register_id t reg = dict_set (st_id t) t reg"

definition scalar_type_init :: "int \<Rightarrow> int \<Rightarrow> bool \<Rightarrow> int \<Rightarrow> scalar_type" where
  "scalar_type_init exponent mantissa has_sign bias =
     \<lparr>st_exponent = exponent, st_mantissa = mantissa, st_signed = has_sign, st_bias = bias,
      st_finite_values_only = False, st_nan_repr = NAN_IEEE_754\<rparr>"

definition st_int :: "int \<Rightarrow> int option \<Rightarrow> type_registry \<Rightarrow> scalar_type \<times> type_registry" where
  "st_int bits bias reg =
     (let ret = scalar_type_init 0 (bits - 1) True (case bias of None \<Rightarrow> 0 | Some b \<Rightarrow> b)
      in (ret, register_id ret reg))"

definition st_uint :: "int \<Rightarrow> int option \<Rightarrow> type_registry \<Rightarrow> scalar_type \<times> type_registry" where
  "st_uint bits bias reg =
     (let ret = scalar_type_init 0 bits False (case bias of None \<Rightarrow> 0 | Some b \<Rightarrow> b)
      in (ret, register_id ret reg))"

definition float_IEEE754 :: "int \<Rightarrow> int \<Rightarrow> type_registry \<Rightarrow> (scalar_type \<times> type_registry) result" where
  "float_IEEE754 exponent mantissa reg =
     rbind (py_assert (mantissa > 0 \<and> exponent > 0)) (\<lambda>_.
     let ret = scalar_type_init exponent mantissa True 0 in Inr (ret, register_id ret reg))"

definition st_float :: "int \<Rightarrow> int \<Rightarrow> bool \<Rightarrow> nan_repr \<Rightarrow> type_registry \<Rightarrow> (scalar_type \<times> type_registry) result" where
  "st_float exponent mantissa finite_values_only nan_repr reg =
     rbind (py_assert (mantissa > 0 \<and> exponent > 0)) (\<lambda>_.
     rbind (py_assert (nan_repr \<noteq> NAN_IEEE_754)) (\<lambda>_.
     let ret = (scalar_type_init exponent mantissa True 0)\<lparr>st_finite_values_only := finite_values_only, st_nan_repr := nan_repr\<rparr>
     in Inr (ret, register_id ret reg)))"

definition from_id :: "int \<Rightarrow> type_registry \<Rightarrow> scalar_type result" where
  "from_id scalar_type_id reg = of_option ValueError (dict_get reg scalar_type_id)"

text \<open>The class body of \<open>scalar_types\<close>: names, in order, with the calls that create them.\<close>

definition scalar_types_body :: "(string \<times> (type_registry \<Rightarrow> (scalar_type \<times> type_registry) result)) list" where
  "scalar_types_body =
    [(''uint2'', Inr \<circ> st_uint 2 None), (''uint3'', Inr \<circ> st_uint 3 None), (''int4'', Inr \<circ> st_int 4 None),
     (''uint4'', Inr \<circ> st_uint 4 None), (''uint5'', Inr \<circ> st_uint 5 None), (''uint6'', Inr \<circ> st_uint 6 None),
     (''uint7'', Inr \<circ> st_uint 7 None), (''int8'', Inr \<circ> st_int 8 None), (''uint8'', Inr \<circ> st_uint 8 None),
     (''float8_e4m3fn'', st_float 4 3 True NAN_EXTD_RANGE_MAX_MIN), (''float8_e5m2'', float_IEEE754 5 2),
     (''float8_e8m0fnu'', \<lambda>reg. Inr (\<lparr>st_exponent = 8, st_mantissa = 0, st_signed = False, st_bias = 0,
        st_finite_values_only = True, st_nan_repr = NAN_EXTD_RANGE_MAX_MIN\<rparr>, reg)),
     (''float16_e8m7'', float_IEEE754 8 7), (''float16_e5m10'', float_IEEE754 5 10),
     (''float6_e3m2f'', st_float 3 2 True NAN_NONE), (''float6_e2m3f'', st_float 2 3 True NAN_NONE),
     (''float4_e2m1f'', st_float 2 1 True NAN_NONE),
     (''uint2b2'', Inr \<circ> st_uint 2 (Some 2)), (''uint3b4'', Inr \<circ> st_uint 3 (Some 4)),
     (''uint4b8'', Inr \<circ> st_uint 4 (Some 8)), (''uint5b16'', Inr \<circ> st_uint 5 (Some 16)),
     (''uint6b32'', Inr \<circ> st_uint 6 (Some 32)), (''uint7b64'', Inr \<circ> st_uint 7 (Some 64)),
     (''uint8b128'', Inr \<circ> st_uint 8 (Some 128))]"

definition create_type ::
  "string \<times> (type_registry \<Rightarrow> (scalar_type \<times> type_registry) result) \<Rightarrow>
   (string \<times> scalar_type) list \<times> type_registry \<Rightarrow> ((string \<times> scalar_type) list \<times> type_registry) result" where
  "create_type entry s =
     rbind (snd entry (snd s)) (\<lambda>(t, reg). Inr (fst s @ [(fst entry, t)], reg))"

definition scalar_types :: "((string \<times> scalar_type) list \<times> type_registry) result" where
  "scalar_types = rfold create_type scalar_types_body ([], [])"

section \<open>The C++ class\<close>

record cpp_scalar_type =
  cpp_exponent :: "8 word"
  cpp_mantissa :: "8 word"
  cpp_signed :: bool
  cpp_bias :: "32 word"
  cpp_finite_values_only :: bool
  cpp_nan_repr :: "8 word"

text \<open>A field of the id is the member, converted to 64 bits and cut to the width of its type.\<close>

definition cpp_or_and_advance :: "64 word \<Rightarrow> nat \<Rightarrow> 64 word \<times> nat \<Rightarrow> 64 word \<times> nat" where
  "cpp_or_and_advance member bits s =
     (let (ident, bit_offset) = s in (ident OR push_bit bit_offset (member AND (push_bit bits 1 - 1)), bit_offset + bits))"

definition cpp_id :: "cpp_scalar_type \<Rightarrow> 64 word" where
  "cpp_id t =
     fst (cpp_or_and_advance (ucast (cpp_nan_repr t)) 8
         (cpp_or_and_advance (of_bool (cpp_finite_values_only t)) 1
         (cpp_or_and_advance (scast (cpp_bias t)) 32
         (cpp_or_and_advance (of_bool (cpp_signed t)) 1
         (cpp_or_and_advance (ucast (cpp_mantissa t)) 8
         (cpp_or_and_advance (ucast (cpp_exponent t)) 8 (0, 0)))))))"

definition cpp_extract :: "64 word \<Rightarrow> nat \<Rightarrow> nat \<Rightarrow> 64 word" where
  "cpp_extract ident bit_offset bits = signed_drop_bit bit_offset ident AND (push_bit bits 1 - 1)"

definition cpp_from_id :: "64 word \<Rightarrow> cpp_scalar_type" where
  "cpp_from_id ident =
     \<lparr>cpp_exponent = ucast (cpp_extract ident 0 8), cpp_mantissa = ucast (cpp_extract ident 8 8),
      cpp_signed = (cpp_extract ident 16 1 \<noteq> 0), cpp_bias = ucast (cpp_extract ident 17 32),
      cpp_finite_values_only = (cpp_extract ident 49 1 \<noteq> 0), cpp_nan_repr = ucast (cpp_extract ident 50 8)\<rparr>"

definition cpp_size_bits :: "cpp_scalar_type \<Rightarrow> int" where
  "cpp_size_bits t = uint (cpp_mantissa t) + uint (cpp_exponent t) + of_bool (cpp_signed t)"

definition cpp_is_integer :: "cpp_scalar_type \<Rightarrow> bool" where
  "cpp_is_integer t \<longleftrightarrow> cpp_exponent t = 0"

definition cpp_is_floating_point :: "cpp_scalar_type \<Rightarrow> bool" where
  "cpp_is_floating_point t \<longleftrightarrow> cpp_exponent t > 0"

definition cpp_is_ieee_754 :: "cpp_scalar_type \<Rightarrow> bool" where
  "cpp_is_ieee_754 t \<longleftrightarrow> cpp_is_floating_point t \<and> \<not> cpp_finite_values_only t \<and> cpp_nan_repr t = 1"

definition cpp_has_nans :: "cpp_scalar_type \<Rightarrow> bool" where
  "cpp_has_nans t \<longleftrightarrow> cpp_is_floating_point t \<and> cpp_nan_repr t \<noteq> 0"

definition cpp_has_infs :: "cpp_scalar_type \<Rightarrow> bool" where
  "cpp_has_infs t \<longleftrightarrow> cpp_is_floating_point t \<and> \<not> cpp_finite_values_only t"

definition cpp_has_bias :: "cpp_scalar_type \<Rightarrow> bool" where
  "cpp_has_bias t \<longleftrightarrow> cpp_bias t \<noteq> 0"

definition cpp_str :: "cpp_scalar_type \<Rightarrow> string" where
  "cpp_str t =
     (if cpp_is_floating_point t
      then ''float'' @ json_int (cpp_size_bits t) @ ''_e'' @ json_int (uint (cpp_exponent t)) @ ''m'' @
           json_int (uint (cpp_mantissa t)) @
           (if \<not> cpp_is_ieee_754 t
            then (if cpp_finite_values_only t then ''f'' else []) @ (if cpp_nan_repr t \<noteq> 0 then ''n'' else [])
            else [])
      else (if cpp_signed t then ''int'' else ''uint'') @ json_int (cpp_size_bits t) @
           (if cpp_has_bias t then ''b'' @ json_int (sint (cpp_bias t)) else []))"

text \<open>The bits of the double that \<open>_floating_point_max\<close> returns.\<close>

definition cpp_check :: "bool \<Rightarrow> unit result" where
  "cpp_check b = (if b then Inr () else Inl RuntimeError)"

definition cpp_floating_point_max :: "cpp_scalar_type \<Rightarrow> 64 word result" where
  "cpp_floating_point_max t =
     rbind (cpp_check (cpp_mantissa t \<le> 52 \<and> cpp_exponent t \<le> 11)) (\<lambda>_.
     let m = push_bit (unat (cpp_mantissa t)) 1 - 1;
         max_mantissa = (if cpp_nan_repr t = 2 then m - 1 else m);
         e = push_bit (unat (cpp_exponent t)) 1 - 2 in
     rbind (if cpp_nan_repr t = 2 \<or> cpp_nan_repr t = 0
            then rbind (cpp_check (cpp_exponent t < 11)) (\<lambda>_. Inr (e + 1)) else Inr e) (\<lambda>max_exponent.
     let exponent_bias = push_bit (unat (cpp_exponent t) - 1) 1 - 1;
         exponent_bias_double = push_bit 10 1 - 1;
         max_exponent_double = max_exponent - exponent_bias + exponent_bias_double in
     Inr (push_bit (52 - unat (cpp_mantissa t)) max_mantissa OR push_bit 52 max_exponent_double)))"

text \<open>The C++ object of a Python type: each member converted to its width.\<close>

definition to_cpp :: "scalar_type \<Rightarrow> cpp_scalar_type" where
  "to_cpp t =
     \<lparr>cpp_exponent = word_of_int (st_exponent t), cpp_mantissa = word_of_int (st_mantissa t),
      cpp_signed = st_signed t, cpp_bias = word_of_int (st_bias t),
      cpp_finite_values_only = st_finite_values_only t, cpp_nan_repr = word_of_int (nan_repr_value (st_nan_repr t))\<rparr>"

definition scalar_wf :: "scalar_type \<Rightarrow> bool" where
  "scalar_wf t \<longleftrightarrow>
     0 \<le> st_exponent t \<and> st_exponent t < 2 ^ 8 \<and> 0 \<le> st_mantissa t \<and> st_mantissa t < 2 ^ 8 \<and>
     - (2 ^ 31) \<le> st_bias t \<and> st_bias t < 2 ^ 31"

section \<open>Identifiers\<close>

lemma mask_push: "push_bit n 1 - 1 = (mask n :: 'a::ring_bit_operations)"
  by (simp add: mask_eq_exp_minus_1 push_bit_eq_mult)

lemma cpp_advance: "cpp_or_and_advance x b (v, k) = (v OR push_bit k (take_bit b x), k + b)"
  unfolding cpp_or_and_advance_def mask_push by (simp add: take_bit_eq_mask)

lemma py_advance: "or_and_advance x b (v, k) = (v OR push_bit k (take_bit b x), k + b)"
  unfolding or_and_advance_def mask_push by (simp add: take_bit_eq_mask)

lemma cpp_extract_eq: "cpp_extract w k b = take_bit b (signed_drop_bit k w)"
  unfolding cpp_extract_def mask_push by (simp add: take_bit_eq_mask)

lemma bit_field: "bit (push_bit k (take_bit b x) :: 64 word) n \<longleftrightarrow> k \<le> n \<and> n < k + b \<and> n < 64 \<and> bit x (n - k)"
  by (auto simp: bit_simps)

lemma take_bit_1_iff: "take_bit 1 (x :: 64 word) \<noteq> 0 \<longleftrightarrow> bit x 0"
  by (simp add: bit_0 take_bit_eq_mod flip: odd_iff_mod_2_eq_one)

lemma cpp_id_bits: "bit (cpp_id t) n \<longleftrightarrow>
    n < 8 \<and> bit (cpp_exponent t) n \<or> 8 \<le> n \<and> n < 16 \<and> bit (cpp_mantissa t) (n - 8) \<or> n = 16 \<and> cpp_signed t \<or>
     17 \<le> n \<and> n < 49 \<and> bit (cpp_bias t) (n - 17) \<or> n = 49 \<and> cpp_finite_values_only t \<or>
     50 \<le> n \<and> n < 58 \<and> bit (cpp_nan_repr t) (n - 50)"
proof -
  have u8: "bit (push_bit k (take_bit 8 (ucast w :: 64 word))) n \<longleftrightarrow> k \<le> n \<and> n < k + 8 \<and> bit w (n - k)"
    if "k + 8 \<le> 64" for k and w :: "8 word"
    using that by (auto simp: bit_simps)
  have flag: "bit (push_bit k (take_bit 1 (of_bool b :: 64 word))) n \<longleftrightarrow> n = k \<and> b" if "k < 64" for k b
    using that by (auto simp: bit_simps)
  have i32: "bit (push_bit 17 (take_bit 32 (scast w :: 64 word))) n \<longleftrightarrow> 17 \<le> n \<and> n < 49 \<and> bit w (n - 17)"
    for w :: "32 word"
    by (auto simp: bit_simps)
  have offsets: "0 + 8 = (8 :: nat)" "8 + 8 = (16 :: nat)" "16 + 1 = (17 :: nat)" "17 + 32 = (49 :: nat)" "49 + 1 = (50 :: nat)"
    by simp_all
  have e: "bit (0 OR push_bit 0 (take_bit 8 (ucast (cpp_exponent t) :: 64 word))) n \<longleftrightarrow> n < 8 \<and> bit (cpp_exponent t) n"
    by (auto simp: bit_simps)
  show ?thesis
    unfolding cpp_id_def cpp_advance fst_conv offsets bit_or_iff [of "_ OR _"]
    using e u8 [of 8 "cpp_mantissa t"] u8 [of 50 "cpp_nan_repr t"] flag [of 16 "cpp_signed t"]
      flag [of 49 "cpp_finite_values_only t"] i32 [of "cpp_bias t"]
    by simp_all
qed

lemma cpp_roundtrip: "cpp_from_id (cpp_id t) = t"
proof -
  have "ucast (cpp_extract (cpp_id t) 0 8) = cpp_exponent t"
    by (rule bit_eqI) (simp add: cpp_extract_eq bit_simps cpp_id_bits)
  moreover have "ucast (cpp_extract (cpp_id t) 8 8) = cpp_mantissa t"
    by (rule bit_eqI) (simp add: cpp_extract_eq bit_simps cpp_id_bits)
  moreover have "ucast (cpp_extract (cpp_id t) 17 32) = cpp_bias t"
    by (rule bit_eqI) (simp add: cpp_extract_eq bit_simps cpp_id_bits)
  moreover have "ucast (cpp_extract (cpp_id t) 50 8) = cpp_nan_repr t"
    by (rule bit_eqI) (simp add: cpp_extract_eq bit_simps cpp_id_bits)
  moreover have "cpp_extract (cpp_id t) 16 1 \<noteq> 0 \<longleftrightarrow> cpp_signed t"
    by (simp add: cpp_extract_eq take_bit_1_iff [simplified] bit_simps cpp_id_bits)
  moreover have "cpp_extract (cpp_id t) 49 1 \<noteq> 0 \<longleftrightarrow> cpp_finite_values_only t"
    by (simp add: cpp_extract_eq take_bit_1_iff [simplified] bit_simps cpp_id_bits)
  ultimately show ?thesis by (simp add: cpp_from_id_def)
qed

lemma st_id_bits: "bit (st_id t) n \<longleftrightarrow>
    n < 8 \<and> bit (st_exponent t) n \<or> 8 \<le> n \<and> n < 16 \<and> bit (st_mantissa t) (n - 8) \<or> n = 16 \<and> st_signed t \<or>
     17 \<le> n \<and> n < 49 \<and> bit (st_bias t) (n - 17) \<or> n = 49 \<and> st_finite_values_only t \<or>
     50 \<le> n \<and> n < 58 \<and> bit (nan_repr_value (st_nan_repr t)) (n - 50)"
proof -
  have field: "bit (push_bit k (take_bit b x)) n \<longleftrightarrow> k \<le> n \<and> n < k + b \<and> bit x (n - k)" for k b and x :: int
    by (auto simp: bit_simps)
  have flag: "bit (push_bit k (take_bit 1 (of_bool b :: int))) n \<longleftrightarrow> n = k \<and> b" for k b
    by (auto simp: bit_simps)
  have offsets: "0 + 8 = (8 :: nat)" "8 + 8 = (16 :: nat)" "16 + 1 = (17 :: nat)" "17 + 32 = (49 :: nat)" "49 + 1 = (50 :: nat)"
    by simp_all
  have e: "bit (0 OR push_bit 0 (take_bit 8 (st_exponent t))) n \<longleftrightarrow> n < 8 \<and> bit (st_exponent t) n"
    by (auto simp: bit_simps)
  show ?thesis
    unfolding st_id_def py_advance fst_conv offsets bit_or_iff [of "_ OR _"]
    using e field [of 8 8 "st_mantissa t"] field [of 50 8 "nan_repr_value (st_nan_repr t)"] flag [of 16 "st_signed t"]
      flag [of 49 "st_finite_values_only t"] field [of 17 32 "st_bias t"]
    by simp_all
qed

lemma st_id_cpp: "st_id t = uint (cpp_id (to_cpp t))"
proof (rule bit_eqI)
  fix n
  have "bit (uint (cpp_id (to_cpp t))) n \<longleftrightarrow> bit (cpp_id (to_cpp t)) n"
    by (simp add: bit_uint_iff) (use bit_imp_le_length [of "cpp_id (to_cpp t)" n] in auto)
  moreover have "bit (cpp_exponent (to_cpp t)) k = bit (st_exponent t) k" "bit (cpp_mantissa (to_cpp t)) k = bit (st_mantissa t) k"
    "bit (cpp_nan_repr (to_cpp t)) k = bit (nan_repr_value (st_nan_repr t)) k" if "k < 8" for k
    using that by (simp_all add: to_cpp_def bit_word_of_int_iff)
  moreover have "bit (cpp_bias (to_cpp t)) k = bit (st_bias t) k" if "k < 32" for k
    using that by (simp add: to_cpp_def bit_word_of_int_iff)
  moreover have "cpp_signed (to_cpp t) = st_signed t" "cpp_finite_values_only (to_cpp t) = st_finite_values_only t"
    by (simp_all add: to_cpp_def)
  ultimately show "bit (st_id t) n \<longleftrightarrow> bit (uint (cpp_id (to_cpp t))) n"
    unfolding st_id_bits cpp_id_bits by (simp cong: conj_cong)
qed

lemma st_id_range: "0 \<le> st_id t" "st_id t < 2 ^ 58"
proof -
  have "take_bit 58 (st_id t) = st_id t"
    by (rule bit_eqI) (auto simp: bit_take_bit_iff st_id_bits)
  then show "0 \<le> st_id t" "st_id t < 2 ^ 58"
    by (metis take_bit_nonnegative, metis take_bit_int_less_exp)
qed

lemma member_words:
  "scalar_wf t \<Longrightarrow> uint (cpp_exponent (to_cpp t)) = st_exponent t"
  "scalar_wf t \<Longrightarrow> uint (cpp_mantissa (to_cpp t)) = st_mantissa t"
  "scalar_wf t \<Longrightarrow> sint (cpp_bias (to_cpp t)) = st_bias t"
  "uint (cpp_nan_repr (to_cpp t)) = nan_repr_value (st_nan_repr t)"
  "cpp_signed (to_cpp t) = st_signed t" "cpp_finite_values_only (to_cpp t) = st_finite_values_only t"
proof -
  show "uint (cpp_nan_repr (to_cpp t)) = nan_repr_value (st_nan_repr t)"
    by (cases "st_nan_repr t") (simp_all add: to_cpp_def)
qed (simp_all add: to_cpp_def scalar_wf_def uint_word_of_int_eq take_bit_int_eq_self int_word_sint)

lemma to_cpp_inject:
  assumes "scalar_wf t" "scalar_wf u" "to_cpp t = to_cpp u"
  shows "t = u"
proof -
  have n: "nan_repr_value r = nan_repr_value q \<Longrightarrow> r = q" for r q by (cases r; cases q) simp_all
  from assms(3) have "st_exponent t = st_exponent u" "st_mantissa t = st_mantissa u" "st_bias t = st_bias u"
    "st_nan_repr t = st_nan_repr u" "st_signed t = st_signed u" "st_finite_values_only t = st_finite_values_only u"
    using member_words(1) [OF assms(1)] member_words(1) [OF assms(2)] member_words(2) [OF assms(1)] member_words(2) [OF assms(2)]
      member_words(3) [OF assms(1)] member_words(3) [OF assms(2)] n member_words(4-6) [of t] member_words(4-6) [of u]
    by simp_all
  then show ?thesis by simp
qed

lemma st_id_inject: "scalar_wf t \<Longrightarrow> scalar_wf u \<Longrightarrow> st_id t = st_id u \<Longrightarrow> t = u"
  by (rule to_cpp_inject) (simp_all add: st_id_cpp, metis cpp_roundtrip word_eq_iff_unsigned)

lemma registered:
  assumes "\<forall>u \<in> set ts. scalar_wf u" "t \<in> set ts"
  shows "from_id (st_id t) (fold register_id ts reg) = Inr t"
  using assms
proof (induction ts rule: rev_induct)
  case (snoc u ts)
  show ?case
  proof (cases "st_id u = st_id t")
    case True
    then have "u = t" using snoc.prems by (intro st_id_inject) auto
    then show ?thesis by (simp add: from_id_def register_id_def dict_get_set of_option_def)
  next
    case False
    then have "t \<in> set ts" using snoc.prems(2) by auto
    with snoc False show ?thesis by (simp add: from_id_def register_id_def dict_get_set)
  qed
qed simp

section \<open>Values of a floating-point format\<close>

text \<open>The value of an exponent field and a mantissa field, with the usual bias and subnormals.\<close>

definition field_value :: "int \<Rightarrow> int \<Rightarrow> int \<Rightarrow> int \<Rightarrow> rat" where
  "field_value E M e m =
     (if e = 0 then of_int m / 2 ^ nat M * 2 powi (1 - (2 ^ nat (E - 1) - 1))
      else (1 + of_int m / 2 ^ nat M) * 2 powi (e - (2 ^ nat (E - 1) - 1)))"

text \<open>Encodings that stand for an infinity or for no number.\<close>

fun special :: "nan_repr \<Rightarrow> int \<Rightarrow> int \<Rightarrow> int \<Rightarrow> int \<Rightarrow> bool" where
  "special NAN_NONE E M e m = False"
| "special NAN_IEEE_754 E M e m = (e = 2 ^ nat E - 1)"
| "special NAN_EXTD_RANGE_MAX_MIN E M e m = (e = 2 ^ nat E - 1 \<and> m = 2 ^ nat M - 1)"

definition finite_values :: "scalar_type \<Rightarrow> rat set" where
  "finite_values t =
     {v. \<exists>e m. 0 \<le> e \<and> e < 2 ^ nat (st_exponent t) \<and> 0 \<le> m \<and> m < 2 ^ nat (st_mantissa t) \<and>
        \<not> special (st_nan_repr t) (st_exponent t) (st_mantissa t) e m \<and>
        (v = field_value (st_exponent t) (st_mantissa t) e m \<or>
         st_signed t \<and> v = - field_value (st_exponent t) (st_mantissa t) e m)}"

definition top_exponent :: "scalar_type \<Rightarrow> int" where
  "top_exponent t = 2 ^ nat (st_exponent t) - (if st_nan_repr t = NAN_IEEE_754 then 2 else 1)"

definition top_mantissa :: "scalar_type \<Rightarrow> int" where
  "top_mantissa t = 2 ^ nat (st_mantissa t) - (if st_nan_repr t = NAN_EXTD_RANGE_MAX_MIN then 2 else 1)"

definition top_value :: "scalar_type \<Rightarrow> rat" where
  "top_value t = field_value (st_exponent t) (st_mantissa t) (top_exponent t) (top_mantissa t)"

lemma field_value_nonneg: "0 \<le> m \<Longrightarrow> 0 \<le> field_value E M e m"
  by (simp add: field_value_def)

text \<open>The values grow with the exponent field, then with the mantissa field.\<close>

lemma field_value_mono_mantissa:
  "m \<le> m' \<Longrightarrow> field_value E M e m \<le> field_value E M e m'"
  by (simp add: field_value_def divide_right_mono mult_right_mono)

lemma double_powi: "2 * (2 :: rat) powi x = 2 powi (x + 1)"
  by (simp add: power_int_add)

lemma field_value_mono_exponent:
  assumes "e < e'" "0 \<le> e" "0 \<le> m" "m < 2 ^ nat M" "0 \<le> m'"
  shows "field_value E M e m \<le> field_value E M e' m'"
proof -
  let ?b = "2 ^ nat (E - 1) - 1 :: int"
  have "(of_int m :: rat) < of_int (2 ^ nat M)" using assms(4) by (subst of_int_less_iff)
  then have frac: "(of_int m :: rat) / 2 ^ nat M < 1" by simp
  have "field_value E M e m \<le> 2 powi (e + 1 - ?b)"
  proof (cases "e = 0")
    case True
    have "(of_int m :: rat) / 2 ^ nat M * 2 powi (1 - ?b) \<le> 1 * 2 powi (1 - ?b)"
      by (rule mult_right_mono) (use frac in auto)
    then show ?thesis using True by (simp add: field_value_def)
  next
    case False
    have "(1 + (of_int m :: rat) / 2 ^ nat M) * 2 powi (e - ?b) \<le> 2 * 2 powi (e - ?b)"
      by (rule mult_right_mono) (use frac in auto)
    also have "\<dots> = 2 powi (e - ?b + 1)" by (rule double_powi)
    finally show ?thesis using False by (simp add: field_value_def algebra_simps)
  qed
  also have "\<dots> \<le> 2 powi (e' - ?b)" using assms(1) by (intro power_int_increasing) simp_all
  also have "\<dots> \<le> (1 + of_int m' / 2 ^ nat M) * 2 powi (e' - ?b)"
    using mult_right_mono [of 1 "1 + of_int m' / 2 ^ nat M" "2 powi (e' - ?b) :: rat"] assms(5) by simp
  finally show ?thesis using assms(1,2) by (simp add: field_value_def)
qed

text \<open>Formats for which a largest value exists and a double can hold it.\<close>

definition float_format :: "scalar_type \<Rightarrow> bool" where
  "float_format t \<longleftrightarrow>
     0 < st_exponent t \<and> 0 < st_mantissa t \<and> st_mantissa t \<le> 52 \<and>
     (if st_nan_repr t = NAN_IEEE_754 then 1 < st_exponent t \<and> st_exponent t \<le> 11 else st_exponent t < 11)"

lemma pow_ge_2: "0 < (n :: int) \<Longrightarrow> 2 \<le> (2 :: int) ^ nat n"
  using power_increasing [of 1 "nat n" "2 :: int"] by simp

lemma pow_ge_4: "1 < (n :: int) \<Longrightarrow> 4 \<le> (2 :: int) ^ nat n"
  using power_increasing [of 2 "nat n" "2 :: int"] by simp

lemma top_fields:
  assumes "float_format t"
  shows "1 \<le> top_exponent t" "top_exponent t < 2 ^ nat (st_exponent t)" "0 \<le> top_mantissa t"
    "top_mantissa t < 2 ^ nat (st_mantissa t)"
    "\<not> special (st_nan_repr t) (st_exponent t) (st_mantissa t) (top_exponent t) (top_mantissa t)"
  using assms pow_ge_2 [of "st_exponent t"] pow_ge_4 [of "st_exponent t"] pow_ge_2 [of "st_mantissa t"]
  by (cases "st_nan_repr t"; force simp: float_format_def top_exponent_def top_mantissa_def split: if_splits)+

lemma top_value_greatest:
  assumes t: "float_format t" and v: "v \<in> finite_values t"
  shows "v \<le> top_value t" "st_signed t \<Longrightarrow> - top_value t \<le> v"
proof -
  from v obtain e m where em: "0 \<le> e" "e < 2 ^ nat (st_exponent t)" "0 \<le> m" "m < 2 ^ nat (st_mantissa t)"
      "\<not> special (st_nan_repr t) (st_exponent t) (st_mantissa t) e m"
      "v = field_value (st_exponent t) (st_mantissa t) e m \<or> st_signed t \<and> v = - field_value (st_exponent t) (st_mantissa t) e m"
    by (auto simp: finite_values_def)
  have "e < top_exponent t \<or> e = top_exponent t \<and> m \<le> top_mantissa t"
    using em(2,4,5) by (cases "st_nan_repr t") (auto simp: top_exponent_def top_mantissa_def)
  then have le: "field_value (st_exponent t) (st_mantissa t) e m \<le> top_value t"
    using field_value_mono_exponent [OF _ em(1,3,4) top_fields(3) [OF t]] field_value_mono_mantissa
    unfolding top_value_def by blast
  have "0 \<le> field_value (st_exponent t) (st_mantissa t) e m" by (rule field_value_nonneg [OF em(3)])
  with le em(6) show "v \<le> top_value t" "st_signed t \<Longrightarrow> - top_value t \<le> v" by auto
qed

lemma top_value_finite:
  assumes "float_format t"
  shows "top_value t \<in> finite_values t" "st_signed t \<Longrightarrow> - top_value t \<in> finite_values t"
proof -
  note F = top_fields [OF assms]
  have "0 \<le> top_exponent t" using F(1) by simp
  with F(2-5) show "top_value t \<in> finite_values t" "st_signed t \<Longrightarrow> - top_value t \<in> finite_values t"
    unfolding finite_values_def top_value_def mem_Collect_eq by blast+
qed

text \<open>The double that the code assembles.\<close>

lemma decode_fields:
  assumes "0 \<le> m" "m < 2 ^ 52" "0 < e" "e < 2047" "s = 0 \<or> s = 1"
  shows "decode_double (m + e * 2 ^ 52 + s * 2 ^ 63) =
     Finite ((if s = 1 then - 1 else 1) * ((1 + of_int m / 2 ^ 52) * 2 powi (e - 1023)))"
proof -
  let ?x = "m + e * 2 ^ 52 + s * 2 ^ 63"
  have x: "?x = m + (e + s * 2 ^ 11) * 2 ^ 52" by simp
  have dm: "(m + k * 2 ^ 52) mod 2 ^ 52 = m" "(m + k * 2 ^ 52) div 2 ^ 52 = k" for k
    using assms(1,2) by simp_all
  have "take_bit 52 ?x = m" unfolding x take_bit_eq_mod by (rule dm(1))
  moreover have d: "drop_bit 52 ?x = e + s * 2 ^ 11" unfolding x drop_bit_eq_div by (rule dm(2))
  then have "take_bit 11 (drop_bit 52 ?x) = e" unfolding d take_bit_eq_mod using assms(3,4) by simp
  moreover have "bit ?x 63 \<longleftrightarrow> s = 1"
  proof -
    have "bit ?x 63 \<longleftrightarrow> bit (drop_bit 52 ?x) 11" by (simp only: bit_drop_bit_eq) simp
    also have "\<dots> \<longleftrightarrow> s = 1" unfolding d bit_iff_odd using assms(3-5) by auto
    finally show ?thesis .
  qed
  ultimately show ?thesis using assms(3,4) unfolding decode_double_def Let_def by simp
qed

lemma or_high:
  fixes a b :: int
  assumes "0 \<le> a" "a < 2 ^ k"
  shows "a OR push_bit k b = a + b * 2 ^ k"
proof -
  have a: "take_bit k a = a" using assms by (simp add: take_bit_int_eq_self)
  have "\<not> bit a n \<or> \<not> bit (push_bit k b) n" for n
    by (subst a [symmetric]) (auto simp: bit_take_bit_iff bit_push_bit_iff)
  then have "a + push_bit k b = a OR push_bit k b" by (rule disjunctive_add)
  then show ?thesis by (simp add: push_bit_eq_mult)
qed

lemma mantissa_split:
  assumes "float_format t"
  shows "nat (st_mantissa t) + nat (52 - st_mantissa t) = 52"
proof -
  have "0 < st_mantissa t" "st_mantissa t \<le> 52" using assms by (simp_all add: float_format_def)
  then show ?thesis by linarith
qed

definition top_double_exponent :: "scalar_type \<Rightarrow> int" where
  "top_double_exponent t = top_exponent t - (2 ^ nat (st_exponent t - 1) - 1) + 1023"

definition top_double_mantissa :: "scalar_type \<Rightarrow> int" where
  "top_double_mantissa t = top_mantissa t * 2 ^ nat (52 - st_mantissa t)"

lemma top_double_fields:
  assumes "float_format t"
  shows "0 \<le> top_double_mantissa t" "top_double_mantissa t < 2 ^ 52" "0 < top_double_exponent t" "top_double_exponent t < 2047"
proof -
  note F = top_fields [OF assms]
  show "0 \<le> top_double_mantissa t" using F(3) by (simp add: top_double_mantissa_def)
  have "nat (st_mantissa t) + nat (52 - st_mantissa t) = 52" by (rule mantissa_split [OF assms])
  then have "(2 :: int) ^ 52 = 2 ^ nat (st_mantissa t) * 2 ^ nat (52 - st_mantissa t)" by (metis power_add)
  moreover have "top_mantissa t * 2 ^ nat (52 - st_mantissa t) < 2 ^ nat (st_mantissa t) * 2 ^ nat (52 - st_mantissa t)"
    using F(4) by simp
  ultimately show "top_double_mantissa t < 2 ^ 52" unfolding top_double_mantissa_def by presburger
  have e: "0 < st_exponent t" using assms by (simp add: float_format_def)
  then have "nat (st_exponent t) = Suc (nat (st_exponent t - 1))" by simp
  then have two: "(2 :: int) ^ nat (st_exponent t) = 2 * 2 ^ nat (st_exponent t - 1)" by (metis power_Suc)
  have ge: "1 \<le> (2 :: int) ^ nat (st_exponent t - 1)" by simp
  show "0 < top_double_exponent t" unfolding top_double_exponent_def using F(1) two ge
    by (simp add: top_exponent_def split: if_splits)
  show "top_double_exponent t < 2047"
  proof (cases "st_nan_repr t = NAN_IEEE_754")
    case True
    then have "nat (st_exponent t - 1) \<le> 10" using assms unfolding float_format_def by auto
    then have "(2 :: int) ^ nat (st_exponent t - 1) \<le> 2 ^ 10" by (rule power_increasing) simp
    then show ?thesis using True two by (simp add: top_double_exponent_def top_exponent_def)
  next
    case False
    then have "nat (st_exponent t - 1) \<le> 9" using assms unfolding float_format_def by auto
    then have "(2 :: int) ^ nat (st_exponent t - 1) \<le> 2 ^ 9" by (rule power_increasing) simp
    then show ?thesis using False two by (simp add: top_double_exponent_def top_exponent_def)
  qed
qed

lemma floating_point_max_int_eq:
  assumes "float_format t"
  shows "floating_point_max_int t = Inr (top_double_mantissa t + top_double_exponent t * 2 ^ 52)"
proof -
  have m: "push_bit (nat (52 - st_mantissa t)) (top_mantissa t) = top_double_mantissa t"
    by (simp add: top_double_mantissa_def push_bit_eq_mult)
  have t: "0 < st_exponent t" "0 < st_mantissa t" "st_mantissa t \<le> 52" "st_exponent t \<le> 11"
    "st_nan_repr t \<noteq> NAN_IEEE_754 \<Longrightarrow> st_exponent t < 11" using assms by (auto simp: float_format_def split: if_splits)
  have "floating_point_max_int t =
      Inr (push_bit (nat (52 - st_mantissa t)) (top_mantissa t) OR push_bit 52 (top_double_exponent t))"
    using t by (cases "st_nan_repr t")
      (simp_all add: floating_point_max_int_def py_assert_def py_shl_def rbind_def push_bit_eq_mult Let_def
        top_exponent_def top_mantissa_def top_double_exponent_def algebra_simps)
  then show ?thesis unfolding m using or_high [OF top_double_fields(1,2) [OF assms]] by simp
qed

lemma top_double_value:
  assumes "float_format t"
  shows "(1 + of_int (top_double_mantissa t) / 2 ^ 52) * 2 powi (top_double_exponent t - 1023) = top_value t"
proof -
  have "nat (st_mantissa t) + nat (52 - st_mantissa t) = 52" by (rule mantissa_split [OF assms])
  then have "(2 :: rat) ^ 52 = 2 ^ nat (st_mantissa t) * 2 ^ nat (52 - st_mantissa t)" by (metis power_add)
  moreover have "(of_int (top_double_mantissa t) :: rat) = of_int (top_mantissa t) * 2 ^ nat (52 - st_mantissa t)"
    by (simp add: top_double_mantissa_def)
  ultimately have "(of_int (top_double_mantissa t) :: rat) / 2 ^ 52 = of_int (top_mantissa t) / 2 ^ nat (st_mantissa t)"
    by (metis mult_divide_mult_cancel_right power_not_zero zero_neq_numeral)
  moreover have "top_double_exponent t - 1023 = top_exponent t - (2 ^ nat (st_exponent t - 1) - 1)"
    by (simp add: top_double_exponent_def)
  moreover have "top_exponent t \<noteq> 0" using top_fields(1) [OF assms] by simp
  ultimately show ?thesis unfolding top_value_def field_value_def by (simp only: if_False)
qed

lemma raw_max_float:
  assumes "float_format t"
  shows "raw_max t = Inr (FloatNum (Finite (top_value t)))"
    "st_signed t \<Longrightarrow> raw_min t = Inr (FloatNum (Finite (- top_value t)))"
proof -
  note F = top_double_fields [OF assms]
  let ?r = "top_double_mantissa t + top_double_exponent t * 2 ^ 52"
  have r: "0 \<le> ?r" "?r < 2 ^ 63" using F by simp_all
  have fl: "st_is_floating_point t" using assms by (simp add: st_is_floating_point_def float_format_def)
  have "struct_pack_Q ?r = Inr ?r" using r by (simp add: struct_pack_Q_def)
  moreover have "decode_double ?r = Finite (top_value t)"
    using decode_fields [OF F, of 0] top_double_value [OF assms] by simp
  ultimately show "raw_max t = Inr (FloatNum (Finite (top_value t)))" using fl
    by (simp add: raw_max_def floating_point_max_def floating_point_max_int_eq [OF assms] rbind_def)
  have o: "?r OR push_bit 63 1 = ?r + 1 * 2 ^ 63" by (rule or_high [OF r])
  have "struct_pack_Q (?r + 1 * 2 ^ 63) = Inr (?r + 1 * 2 ^ 63)" using r by (simp add: struct_pack_Q_def)
  moreover have "decode_double (?r + 1 * 2 ^ 63) = Finite (- top_value t)"
    using decode_fields [OF F, of 1] top_double_value [OF assms] by simp
  moreover assume "st_signed t"
  ultimately show "raw_min t = Inr (FloatNum (Finite (- top_value t)))" using fl
    unfolding raw_min_def Let_def floating_point_max_int_eq [OF assms]
    by (simp only: rbind_def sum.case o if_True st_is_signed_def py_assert_def)
qed

text \<open>The C++ routine on words assembles the same bits.\<close>

lemma nan_repr_word:
  "cpp_nan_repr (to_cpp t) = 2 \<longleftrightarrow> st_nan_repr t = NAN_EXTD_RANGE_MAX_MIN"
  "cpp_nan_repr (to_cpp t) = 1 \<longleftrightarrow> st_nan_repr t = NAN_IEEE_754"
  "cpp_nan_repr (to_cpp t) = 0 \<longleftrightarrow> st_nan_repr t = NAN_NONE"
  by (cases "st_nan_repr t"; simp add: to_cpp_def)+

lemma word8_small:
  assumes "0 \<le> i" "i < 256"
  shows "unat (word_of_int i :: 8 word) = nat i" "uint (word_of_int i :: 8 word) = i"
proof -
  show "uint (word_of_int i :: 8 word) = i" using assms by (simp add: uint_word_of_int_eq take_bit_int_eq_self)
  then show "unat (word_of_int i :: 8 word) = nat i" by (simp add: unat_eq_nat_uint)
qed

lemma word64_small: "0 \<le> i \<Longrightarrow> i < 2 ^ 64 \<Longrightarrow> uint (word_of_int i :: 64 word) = i"
  by (simp add: uint_word_of_int_eq take_bit_int_eq_self)

lemma cpp_floating_point_max_eq:
  assumes "0 < st_exponent t" "0 \<le> st_mantissa t" "st_mantissa t \<le> 52"
    and "if st_nan_repr t = NAN_IEEE_754 then st_exponent t \<le> 11 else st_exponent t < 11"
  shows "\<exists>x. floating_point_max_int t = Inr x \<and> cpp_floating_point_max (to_cpp t) = Inr (word_of_int x)"
proof -
  have e: "0 \<le> st_exponent t" "st_exponent t < 256" "st_exponent t \<le> 11" using assms by (auto split: if_splits)
  note E = word8_small [OF e(1,2)]
  have M: "unat (word_of_int (st_mantissa t) :: 8 word) = nat (st_mantissa t)"
    "uint (word_of_int (st_mantissa t) :: 8 word) = st_mantissa t" using assms by (intro word8_small; simp)+
  have le: "cpp_exponent (to_cpp t) \<le> 11" "cpp_mantissa (to_cpp t) \<le> 52" "cpp_exponent (to_cpp t) < 11 \<longleftrightarrow> st_exponent t < 11"
    using e assms(3) by (simp_all add: word_le_def word_less_def E M to_cpp_def)
  have u: "unat (cpp_exponent (to_cpp t)) = nat (st_exponent t)" "unat (cpp_mantissa (to_cpp t)) = nat (st_mantissa t)"
    by (simp_all add: to_cpp_def E M)
  have n: "nat (st_exponent t) - Suc 0 = nat (st_exponent t - 1)" "52 - nat (st_mantissa t) = nat (52 - st_mantissa t)"
    using assms(2) by (simp_all add: nat_diff_distrib)
  show ?thesis
    using assms e(3)
    by (cases "st_nan_repr t")
      (simp_all add: floating_point_max_int_def cpp_floating_point_max_def py_assert_def cpp_check_def py_shl_def rbind_def Let_def
        nan_repr_word le u n of_int_or_eq push_bit_eq_mult)
qed

text \<open>Without mantissa bits the extended range has no room for the step below the NaN.\<close>

lemma no_mantissa_max:
  assumes "0 < st_exponent t" "st_exponent t < 11" "st_mantissa t = 0" "st_nan_repr t = NAN_EXTD_RANGE_MAX_MIN"
  shows "floating_point_max_int t = Inr (- (2 ^ 52))"
proof -
  have "push_bit 52 (- 1) OR push_bit 52 x = (- (2 ^ 52) :: int)" for x
    by (simp only: push_bit_or [symmetric]) (simp add: push_bit_eq_mult)
  from this [of "1023 + (2 ^ nat (st_exponent t) - 2 ^ nat (st_exponent t - 1))"] show ?thesis
    using assms by (simp add: distrib_right left_diff_distrib floating_point_max_int_def py_assert_def py_shl_def rbind_def Let_def push_bit_eq_mult)
qed

text \<open>Types as the constructors build them.\<close>

lemma register_found: "from_id (st_id t) (register_id t reg) = Inr t"
  by (simp add: from_id_def register_id_def dict_get_set of_option_def)

lemma floating_word:
  assumes "scalar_wf t"
  shows "cpp_is_floating_point (to_cpp t) = st_is_floating_point t" "cpp_is_integer (to_cpp t) = st_is_integer t"
proof -
  have "cpp_exponent (to_cpp t) = 0 \<longleftrightarrow> st_exponent t = 0" using member_words(1) [OF assms] by (metis uint_0_iff)
  then show "cpp_is_floating_point (to_cpp t) = st_is_floating_point t" "cpp_is_integer (to_cpp t) = st_is_integer t"
    by (simp_all add: cpp_is_floating_point_def st_is_floating_point_def cpp_is_integer_def st_is_integer_def word_greater_zero_iff)
qed

lemma built_float:
  assumes "0 < e" "0 < m" "e < 256" "m < 256"
    "t = \<lparr>st_exponent = e, st_mantissa = m, st_signed = True, st_bias = 0, st_finite_values_only = f, st_nan_repr = r\<rparr>"
  shows "scalar_wf t \<and> st_is_floating_point t \<and> st_size_bits t = e + m + 1 \<and>
    cpp_is_ieee_754 (to_cpp t) = (\<not> f \<and> r = NAN_IEEE_754)"
proof -
  have w: "scalar_wf t" "st_is_floating_point t" "st_size_bits t = e + m + 1"
    using assms by (simp_all add: scalar_wf_def st_is_floating_point_def st_size_bits_def)
  moreover have "cpp_is_ieee_754 (to_cpp t) = (\<not> f \<and> r = NAN_IEEE_754)"
    unfolding cpp_is_ieee_754_def floating_word(1) [OF w(1)] nan_repr_word member_words(6) using w(2) assms(5) by simp
  ultimately show ?thesis by simp
qed

lemma built_int:
  assumes "0 \<le> m" "m < 256" "- (2 ^ 31) \<le> b" "b < 2 ^ 31"
  shows "scalar_wf (scalar_type_init 0 m s b) \<and> st_is_integer (scalar_type_init 0 m s b) \<and>
    st_is_signed (scalar_type_init 0 m s b) = s \<and> st_size_bits (scalar_type_init 0 m s b) = m + of_bool s \<and>
    st_bias (scalar_type_init 0 m s b) = b"
  using assms by (simp add: scalar_wf_def scalar_type_init_def st_is_integer_def st_is_signed_def st_size_bits_def)

lemma scalar_type_init_fields:
  "scalar_type_init e m True 0 = \<lparr>st_exponent = e, st_mantissa = m, st_signed = True, st_bias = 0,
     st_finite_values_only = False, st_nan_repr = NAN_IEEE_754\<rparr>"
  by (simp add: scalar_type_init_def)

lemma float_eqs:
  "float_IEEE754 e m reg =
     (if 0 < e \<and> 0 < m then Inr (scalar_type_init e m True 0, register_id (scalar_type_init e m True 0) reg)
      else Inl AssertionError)"
  "st_float e m f r reg =
     (if 0 < e \<and> 0 < m \<and> r \<noteq> NAN_IEEE_754
      then Inr ((scalar_type_init e m True 0)\<lparr>st_finite_values_only := f, st_nan_repr := r\<rparr>,
        register_id ((scalar_type_init e m True 0)\<lparr>st_finite_values_only := f, st_nan_repr := r\<rparr>) reg)
      else Inl AssertionError)"
  by (auto simp: float_IEEE754_def st_float_def py_assert_def rbind_def Let_def)

section \<open>Properties\<close>

text \<open>C37. The id that crosses the language boundary: C++ computes the same id for the same members and
  recovers every member from the id Python sends, the id is a non-negative 64-bit integer, and a type
  that was registered is found again under its id.\<close>

theorem scalar_id_roundtrip:
  assumes "\<forall>u \<in> set ts. scalar_wf u" "t \<in> set ts" "c = cpp_from_id (word_of_int (st_id t))"
  shows "word_of_int (st_id t) = cpp_id (to_cpp t) \<and> 0 \<le> st_id t \<and> st_id t < 2 ^ 63 \<and>
    uint (cpp_exponent c) = st_exponent t \<and> uint (cpp_mantissa c) = st_mantissa t \<and> cpp_signed c = st_signed t \<and>
    sint (cpp_bias c) = st_bias t \<and> cpp_finite_values_only c = st_finite_values_only t \<and>
    uint (cpp_nan_repr c) = nan_repr_value (st_nan_repr t) \<and>
    from_id (st_id t) (fold register_id ts []) = Inr t"
proof -
  have "word_of_int (st_id t) = cpp_id (to_cpp t)" by (simp add: st_id_cpp)
  moreover from this have "c = to_cpp t" unfolding assms(3) by (simp only: cpp_roundtrip)
  moreover have "st_id t < 2 ^ 63" using st_id_range(2) [of t] by simp
  ultimately show ?thesis
    using st_id_range(1) [of t] member_words [of t] assms(1,2) registered [OF assms(1,2)] by simp
qed

theorem scalar_id_roundtrip_witness:
  "sint (cpp_bias (cpp_from_id (word_of_int (st_id (fst (st_uint 4 (Some 8) [])))))) = 8 \<and>
   from_id (st_id (fst (st_uint 4 (Some 8) []))) (fold register_id [fst (st_uint 4 (Some 8) []), fst (st_int 8 None [])] []) =
     Inr (fst (st_uint 4 (Some 8) []))"
proof -
  let ?t = "fst (st_uint 4 (Some 8) [])" and ?u = "fst (st_int 8 None [])"
  have "scalar_wf ?t" "scalar_wf ?u" and b: "st_bias ?t = 8" by code_simp+
  then have w: "\<forall>u \<in> set [?t, ?u]. scalar_wf u" "?t \<in> set [?t, ?u]" by simp_all
  from scalar_id_roundtrip [OF w refl] b show ?thesis by argo
qed



text \<open>C40. Where the two classes agree: sizes, kinds and biases always do. \<open>has_infs\<close> differs on integer types
  without the finite flag, \<open>has_nans\<close> on integer types and on formats without NaN, and \<open>is_ieee_754\<close> and
  with it the name on exactly the IEEE formats, because the Python class compares an enum member with
  an integer.\<close>

theorem python_cpp_agreement:
  assumes "scalar_wf t"
  shows "st_size_bits t = cpp_size_bits (to_cpp t) \<and> st_is_floating_point t = cpp_is_floating_point (to_cpp t) \<and>
    st_is_integer t = cpp_is_integer (to_cpp t) \<and> st_has_bias t = cpp_has_bias (to_cpp t) \<and>
    (st_has_infs t = cpp_has_infs (to_cpp t) \<longleftrightarrow> st_is_floating_point t \<or> st_finite_values_only t) \<and>
    (st_has_nans t = cpp_has_nans (to_cpp t) \<longleftrightarrow> st_is_floating_point t \<and> st_nan_repr t \<noteq> NAN_NONE) \<and>
    (st_is_ieee_754 t = cpp_is_ieee_754 (to_cpp t) \<longleftrightarrow> \<not> cpp_is_ieee_754 (to_cpp t)) \<and>
    (st_str t = cpp_str (to_cpp t) \<longleftrightarrow> \<not> cpp_is_ieee_754 (to_cpp t))"
proof -
  let ?c = "to_cpp t"
  note M = member_words [of t, simplified assms]
  note k = floating_word [OF assms]
  have z: "cpp_size_bits ?c = st_size_bits t" using M assms by (simp add: cpp_size_bits_def st_size_bits_def)
  have b: "cpp_has_bias ?c = st_has_bias t"
    using M(3) assms by (metis cpp_has_bias_def st_has_bias_def sint_0 signed_eq_0_iff)
  have i: "\<not> st_is_ieee_754 t" "st_has_nans t" by (simp_all add: st_is_ieee_754_def st_has_nans_def py_enum_eq_int_def)
  have j: "cpp_is_ieee_754 ?c \<longleftrightarrow> st_is_floating_point t \<and> \<not> st_finite_values_only t \<and> st_nan_repr t = NAN_IEEE_754"
    using M by (simp add: cpp_is_ieee_754_def k nan_repr_word)
  have "st_str t = cpp_str ?c \<longleftrightarrow> \<not> cpp_is_ieee_754 ?c"
    unfolding st_str_def cpp_str_def k z b j using M i assms by (auto simp: nan_repr_word st_is_signed_def)
  then show ?thesis using M i k z b j
    by (auto simp: st_has_infs_def cpp_has_infs_def cpp_has_nans_def nan_repr_word)
qed

theorem python_cpp_agreement_witness:
  "\<exists>t reg. float_IEEE754 5 10 [] = Inr (t, reg) \<and> st_str t = ''float16_e5m10n'' \<and> cpp_str (to_cpp t) \<noteq> st_str t"
proof -
  define t where "t = scalar_type_init 5 10 True 0"
  have "scalar_wf t" "st_str t = ''float16_e5m10n''" "cpp_is_ieee_754 (to_cpp t)" unfolding t_def by code_simp+
  moreover have "\<exists>reg. float_IEEE754 5 10 [] = Inr (t, reg)"
    by (simp add: float_IEEE754_def py_assert_def rbind_def t_def Let_def)
  ultimately show ?thesis using python_cpp_agreement [of t] by auto
qed



end
