(* ===== verification/Spec2Isabelle.thy ===== *)
theory Spec2Isabelle
  imports Pool_Properties Request_Queue Encoder_Cache Sched_Utils Offload_System Scalar_Type
begin

text \<open>
  Verification of the KV-cache core of vLLM.

  \<^bold>\<open>The program.\<close> vLLM serves language models. The scheduler keeps waiting requests in a queue, gives each
  running request blocks of the GPU KV cache and encoder-output slots, appends the tokens that are
  sampled and decides when a request ends. Full blocks are registered under a chained hash of their
  tokens, so that a later request with the same prefix reuses them. Blocks that leave the GPU can be
  kept in CPU slots by an offloading manager with a replacement policy. Quantized kernels are chosen by
  scalar types, whose ids cross from Python to C++. The modelled code is that of \<open>src/vllm/v1/core\<close>,
  \<open>src/vllm/v1/request.py\<close>, \<open>src/vllm/v1/kv_offload\<close>, \<open>src/vllm/scalar_type.py\<close> and
  \<open>src/csrc/core/scalar_type.hpp\<close>.

  \<^bold>\<open>Conventions\<close> (theory \<open>Vllm_Prelude\<close>). An operation that may raise returns \<open>py_error + 'a\<close>, and \<open>rbind\<close>
  sequences such operations; every \<open>raise\<close>, failing \<open>assert\<close>, missing key and index out of range is a
  branch of the model. State is passed explicitly in records. Dictionaries are association lists in
  insertion order, sets are lists without repetition, objects are named by numbers, Python integers are
  \<open>int\<close> and floats are rationals; C and C++ integers are words of their width.

  \<^bold>\<open>Theories.\<close>
  \<^item> \<open>Free_Queue\<close>: \<open>FreeKVCacheBlockQueue\<close> of \<open>kv_cache_utils.py\<close>, a doubly linked list with sentinels as
    two link stores, and the search for leading null blocks. Every sequence of operations refines the
    same operations on a list, errors included (locale \<open>free_list\<close>); walking the links terminates.
  \<^item> \<open>Request_Model\<close>: \<open>Request\<close>, \<open>RequestStatus\<close>, \<open>PlaceholderRange\<close>, the parts of \<open>SamplingParams\<close> and
    \<open>StructuredOutputsParams\<close> the core reads, and the key of a grammar.
  \<^item> \<open>Block_Hash\<close>: packed hash keys, extra keys, the incremental hasher of a request and views of the hashes
    at another block size. Equal chained hashes mean equal prefixes unless the hash function collides;
    incremental hashes equal the chain computed from scratch. The hash function, the seed and the digest
    of an embedding are fields of \<open>hash_env\<close>: parameters, since they are chosen by configuration.
  \<^item> \<open>Block_Map\<close> and \<open>Block_Pool\<close>: \<open>BlockHashToBlockMap\<close> (locale \<open>block_index\<close>) and every operation of
    \<open>BlockPool\<close> of \<open>block_pool.py\<close>. \<open>Pool_Invariant\<close> has the invariants (the free list holds exactly the
    unreferenced blocks; the index and the hashes of the blocks agree) and the effect of each operation;
    \<open>Pool_Properties\<close> has the pool as a state machine and the properties of its reachable states.
  \<^item> \<open>Heapq\<close> and \<open>Request_Queue\<close>: the standard heap routines (locale \<open>weak_order\<close>) and the two waiting queues
    of \<open>sched/request_queue.py\<close>, which refine a list in policy order (locale \<open>request_queue\<close>).
  \<^item> \<open>Encoder_Cache\<close>: both managers of \<open>encoder_cache_manager.py\<close> and the encoder budget; slot accounting and
    the agreement with the worker in every reachable state.
  \<^item> \<open>Sched_Utils\<close>: repetition detection and stop conditions of \<open>sched/utils.py\<close> and
    \<open>Scheduler._update_request_with_output\<close>; generation ends within its limit.
  \<^item> \<open>Cache_Policy\<close>, \<open>Lru_Policy\<close>, \<open>Arc_Policy\<close>: the interface of \<open>kv_offload/cpu/policies\<close> as a record of
    operations with its laws (locale \<open>cache_policy\<close>), and the two built-in policies, each interpreted.
  \<^item> \<open>Offload_Manager\<close>: every operation of \<open>CPUOffloadingManager\<close> (\<open>kv_offload/cpu/manager.py\<close>) over any policy.
    \<open>Offload_Invariant\<close> and \<open>Offload_Store\<close> prove, once for all policies that meet the contract, that slots
    are never shared, counters are exact and no assertion fails. \<open>Offload_System\<close> adds the loads under way
    and the contents of the slots and treats every interleaving of calls: a load reads its own data.
  \<^item> \<open>Scalar_Type\<close>: the Python and the C++ class side by side.

  \<^bold>\<open>Bounds and fuel.\<close> No definition uses fuel: recursive functions are structural or have a termination
  proof. The walks along the links of the free list are partial functions whose value is \<open>None\<close> when
  they do not end; they are shown to return on every well-formed list. The hashing loop of a request has
  the value \<open>NonTermination\<close> for a block size that is not positive, the only case in which it would run
  forever. Reference counts of offloaded chunks are
  C integers of 32 bits (\<open>c_int32\<close>); the steps of \<open>Offload_System\<close> keep fewer than \<open>2 ^ 31\<close> loads under
  way, which is what that width can count. Ids of scalar types are 64-bit words.

  \<^bold>\<open>Assumptions about callers.\<close> The rules of \<open>pool_step\<close>, \<open>encoder_step\<close> and \<open>offload_step\<close> state what callers
  guarantee: blocks that are freed are held, loads are prepared for keys that hit and completed once, a
  store names each key once, and transfers from before a reset are not completed after it.

  \<^bold>\<open>Not modelled.\<close> The scheduling pass itself and the cache managers above the block pool, which depend on
  attention types, connectors and speculative decoding; tiered offloading, engine processes, workers,
  models, kernels, tokenizers, configuration and entry points, which are input and output, tensor
  programs or third-party packages; and of the C++ scalar type the constructors and \<open>min\<close>.
\<close>

end
